(* ===== verification/Prelude.thy ===== *)
theory Prelude
  imports Main "HOL-Library.Word" "HOL-Library.Multiset" "HOL-Library.Signed_Division"
begin

text \<open>
  Shared vocabulary of the development: the machine integers of the C++ sources, the
  exceptions they throw, the outcome of a call that may return, throw, suspend the calling
  fiber or run into undefined behaviour, the error numbers and io\_uring flag bits the code
  tests, and the arithmetic of the standard library it relies on (\<open>std::bit_ceil\<close>,
  \<open>std::span::subspan\<close>, truncating division). Generic lemmas on lists, words and powers of
  two that several components use are collected at the end.
\<close>

unbundle bit_operations_syntax

named_theorems outcome_simps \<open>case analysis and composition of outcomes\<close>
named_theorems fx_defs \<open>definitions of component operations, unfolded on demand\<close>

type_synonym u8 = "8 word"
type_synonym u16 = "16 word"
type_synonym u32 = "32 word"
type_synonym u64 = "64 word"

subsection \<open>Exceptions, undefined behaviour and outcomes\<close>

text \<open>
  \<open>System_error\<close> carries the error number of \<open>e.code().value()\<close>; \<open>Forced_unwind\<close> is the
  exception Boost.Context throws through a fiber stack that is being destroyed.
\<close>

datatype exn =
    Runtime_error string
  | Invalid_argument string
  | Length_error
  | System_error int string
  | Forced_unwind
  | Other_exception nat

datatype ub =
    Null_deref
  | Dangling_handler
  | Span_bounds
  | Bit_ceil_range
  | Promise_satisfied
  | Terminate

datatype 'a outcome =
    Ret 'a
  | Throw exn
  | Suspended
  | Undefined ub

fun bind_outcome :: "'a outcome \<Rightarrow> ('a \<Rightarrow> 'b outcome) \<Rightarrow> 'b outcome" where
  "bind_outcome (Ret x) f = f x"
| "bind_outcome (Throw e) f = Throw e"
| "bind_outcome Suspended f = Suspended"
| "bind_outcome (Undefined u) f = Undefined u"

fun map_outcome_state :: "('a \<Rightarrow> 'b) \<Rightarrow> 'a outcome \<Rightarrow> 'b outcome" where
  "map_outcome_state f (Ret x) = Ret (f x)"
| "map_outcome_state f (Throw e) = Throw e"
| "map_outcome_state f Suspended = Suspended"
| "map_outcome_state f (Undefined u) = Undefined u"

lemma bind_outcome_Ret_iff [outcome_simps]:
  "bind_outcome m f = Ret y \<longleftrightarrow> (\<exists>x. m = Ret x \<and> f x = Ret y)"
  by (cases m) auto

lemma bind_outcome_Throw_iff [outcome_simps]:
  "bind_outcome m f = Throw e \<longleftrightarrow> m = Throw e \<or> (\<exists>x. m = Ret x \<and> f x = Throw e)"
  by (cases m) auto

lemma bind_outcome_Undefined_iff [outcome_simps]:
  "bind_outcome m f = Undefined u \<longleftrightarrow> m = Undefined u \<or> (\<exists>x. m = Ret x \<and> f x = Undefined u)"
  by (cases m) auto

lemma bind_outcome_assoc [outcome_simps]:
  "bind_outcome (bind_outcome m f) g = bind_outcome m (\<lambda>x. bind_outcome (f x) g)"
  by (cases m) auto

lemma map_outcome_state_Ret_iff [outcome_simps]:
  "map_outcome_state f m = Ret y \<longleftrightarrow> (\<exists>x. m = Ret x \<and> y = f x)"
  by (cases m) auto

subsection \<open>Error numbers and flag bits\<close>

abbreviation (input) ENOENT :: int where "ENOENT \<equiv> 2"
abbreviation (input) EBADF :: int where "EBADF \<equiv> 9"
abbreviation (input) EINVAL :: int where "EINVAL \<equiv> 22"
abbreviation (input) ENODATA :: int where "ENODATA \<equiv> 61"
abbreviation (input) ETIME :: int where "ETIME \<equiv> 62"
abbreviation (input) ENOBUFS :: int where "ENOBUFS \<equiv> 105"
abbreviation (input) ECANCELED :: int where "ECANCELED \<equiv> 125"

definition IOSQE_FIXED_FILE :: u8 where "IOSQE_FIXED_FILE = 1"
definition IOSQE_IO_LINK :: u8 where "IOSQE_IO_LINK = 4"
definition IOSQE_BUFFER_SELECT :: u8 where "IOSQE_BUFFER_SELECT = 32"

definition IORING_CQE_F_BUFFER :: u32 where "IORING_CQE_F_BUFFER = 1"
definition IORING_CQE_F_MORE :: u32 where "IORING_CQE_F_MORE = 2"
definition IORING_CQE_F_NOTIF :: u32 where "IORING_CQE_F_NOTIF = 8"
definition IORING_CQE_BUFFER_SHIFT :: nat where "IORING_CQE_BUFFER_SHIFT = 16"

lemmas flag_defs = IOSQE_FIXED_FILE_def IOSQE_IO_LINK_def IOSQE_BUFFER_SELECT_def
  IORING_CQE_F_BUFFER_def IORING_CQE_F_MORE_def IORING_CQE_F_NOTIF_def IORING_CQE_BUFFER_SHIFT_def

subsection \<open>Sizes, \<open>std::bit_ceil\<close>\<close>

text \<open>
  A \<open>std::size_t\<close> is a natural number below \<open>2 ^ 64\<close>; sums and products are reduced
  modulo \<open>2 ^ 64\<close> where the source can overflow.
\<close>

definition size_t_mod :: nat where "size_t_mod = 2 ^ 64"

definition size_add :: "nat \<Rightarrow> nat \<Rightarrow> nat" where
  "size_add a b = (a + b) mod size_t_mod"

definition size_mul :: "nat \<Rightarrow> nat \<Rightarrow> nat" where
  "size_mul a b = (a * b) mod size_t_mod"

function bit_ceil_from :: "nat \<Rightarrow> nat \<Rightarrow> nat" where
  "bit_ceil_from p n = (if p < n \<and> 0 < p then bit_ceil_from (2 * p) n else p)"
  by pat_completeness auto
termination
  by (relation "measure (\<lambda>(p, n). n - p)") auto

declare bit_ceil_from.simps [simp del]

definition bit_ceil :: "nat \<Rightarrow> nat" where
  "bit_ceil n = bit_ceil_from 1 n"

definition is_pow2 :: "nat \<Rightarrow> bool" where
  "is_pow2 n \<longleftrightarrow> 0 < n \<and> bit_ceil n = n"

lemma bit_ceil_from_ge: "0 < p \<Longrightarrow> n \<le> bit_ceil_from p n \<and> p \<le> bit_ceil_from p n"
proof (induction p n rule: bit_ceil_from.induct)
  case (1 p n)
  then show ?case
    by (cases "p < n") (auto simp: bit_ceil_from.simps [of p n])
qed

lemma bit_ceil_from_pow2: "0 < p \<Longrightarrow> \<exists>k. bit_ceil_from p n = p * 2 ^ k"
proof (induction p n rule: bit_ceil_from.induct)
  case (1 p n)
  show ?case
  proof (cases "p < n")
    case True
    with 1 obtain k where "bit_ceil_from (2 * p) n = 2 * p * 2 ^ k" by auto
    then have "bit_ceil_from p n = p * 2 ^ Suc k"
      using True \<open>0 < p\<close> by (simp add: bit_ceil_from.simps [of p n])
    then show ?thesis by blast
  next
    case False
    then have "bit_ceil_from p n = p * 2 ^ 0" by (simp add: bit_ceil_from.simps [of p n])
    then show ?thesis by blast
  qed
qed

lemma bit_ceil_from_less: "0 < p \<Longrightarrow> p < n \<Longrightarrow> bit_ceil_from p n < 2 * n"
proof (induction p n rule: bit_ceil_from.induct)
  case (1 p n)
  show ?case
  proof (cases "2 * p < n")
    case True
    with 1 show ?thesis by (simp add: bit_ceil_from.simps [of p n])
  next
    case False
    with 1 show ?thesis
      by (simp add: bit_ceil_from.simps [of p n] bit_ceil_from.simps [of "2 * p" n])
  qed
qed

lemma bit_ceil_from_least:
  "0 < p \<Longrightarrow> n \<le> p * 2 ^ k \<Longrightarrow> bit_ceil_from p n \<le> p * 2 ^ k"
proof (induction p n arbitrary: k rule: bit_ceil_from.induct)
  case (1 p n)
  show ?case
  proof (cases "p < n")
    case True
    with "1.prems" obtain j where k: "k = Suc j" by (cases k) auto
    with "1.IH" [of j] "1.prems" True show ?thesis
      by (simp add: bit_ceil_from.simps [of p n] algebra_simps)
  next
    case False
    then show ?thesis using "1.prems" by (simp add: bit_ceil_from.simps [of p n])
  qed
qed

lemma bit_ceil_ge: "n \<le> bit_ceil n"
  using bit_ceil_from_ge [of 1 n] by (simp add: bit_ceil_def)

lemma bit_ceil_pos [simp]: "0 < bit_ceil n"
  using bit_ceil_from_ge [of 1 n] by (simp add: bit_ceil_def)

lemma bit_ceil_pow2: "\<exists>k. bit_ceil n = 2 ^ k"
  using bit_ceil_from_pow2 [of 1 n] by (simp add: bit_ceil_def)

lemma bit_ceil_least: "n \<le> 2 ^ k \<Longrightarrow> bit_ceil n \<le> 2 ^ k"
  using bit_ceil_from_least [of 1 n k] by (simp add: bit_ceil_def)

lemma bit_ceil_less: "1 < n \<Longrightarrow> bit_ceil n < 2 * n"
  using bit_ceil_from_less [of 1 n] by (simp add: bit_ceil_def)

lemma bit_ceil_power [simp]: "bit_ceil (2 ^ k) = 2 ^ k"
  using bit_ceil_least [of "2 ^ k" k] bit_ceil_ge [of "2 ^ k"] by simp

lemma is_pow2_bit_ceil [simp]: "is_pow2 (bit_ceil n)"
proof -
  obtain k where "bit_ceil n = 2 ^ k" using bit_ceil_pow2 by blast
  then show ?thesis by (simp add: is_pow2_def)
qed

lemma bit_ceil_between:
  assumes "2 ^ k < n" and "n \<le> 2 ^ Suc k"
  shows "bit_ceil n = 2 ^ Suc k"
proof -
  obtain j where j: "bit_ceil n = 2 ^ j" using bit_ceil_pow2 by blast
  have "(2::nat) ^ j \<le> 2 ^ Suc k" using bit_ceil_least [OF assms(2)] j by simp
  then have "j \<le> Suc k" by (simp only: power_increasing_iff one_less_numeral_iff semiring_norm)
  moreover have "(2::nat) ^ k < 2 ^ j" using bit_ceil_ge [of n] assms(1) j by linarith
  then have "k < j" by simp
  ultimately have "j = Suc k" by simp
  with j show ?thesis by simp
qed

lemma bit_ceil_mono_2: "2 \<le> n \<Longrightarrow> 2 \<le> bit_ceil n"
  using bit_ceil_ge [of n] by simp

text \<open>A power of two plus one rounds up to the next power of two.\<close>

lemma bit_ceil_Suc_power: "0 < k \<Longrightarrow> bit_ceil (Suc (2 ^ k)) = 2 ^ Suc k"
proof -
  assume k: "0 < k"
  have one: "(1::nat) \<le> 2 ^ k" by simp
  obtain j where j: "bit_ceil (Suc (2 ^ k)) = 2 ^ j" using bit_ceil_pow2 by blast
  have "(2::nat) ^ k < 2 ^ j"
    using bit_ceil_ge [of "Suc (2 ^ k)"] unfolding j by (simp only: Suc_le_eq)
  then have "k < j" by simp
  moreover have "bit_ceil (Suc (2 ^ k)) \<le> 2 ^ Suc k"
    by (rule bit_ceil_least) (use one in \<open>simp add: mult_2 del: one_le_power\<close>)
  then have "j \<le> Suc k" using j by (simp del: power_Suc)
  ultimately have "j = Suc k" by simp
  with j show ?thesis by simp
qed

subsection \<open>Spans\<close>

text \<open>
  A \<open>std::span<std::byte>\<close> is a base address and a length. \<open>subspan(offset, count)\<close> has the
  precondition that the range lies inside the span; violating it is undefined.
\<close>

record span =
  sp_data :: nat
  sp_size :: nat

definition subspan :: "span \<Rightarrow> nat \<Rightarrow> nat \<Rightarrow> span outcome" where
  "subspan s off n =
     (if off \<le> sp_size s \<and> n \<le> sp_size s - off
      then Ret \<lparr>sp_data = sp_data s + off, sp_size = n\<rparr> else Undefined Span_bounds)"

definition span_bytes :: "span \<Rightarrow> nat set" where
  "span_bytes s = {sp_data s ..< sp_data s + sp_size s}"

lemma subspan_Ret:
  "off + n \<le> sp_size s \<Longrightarrow> subspan s off n = Ret \<lparr>sp_data = sp_data s + off, sp_size = n\<rparr>"
  by (simp add: subspan_def)

lemma subspan_Undefined: "sp_size s < off + n \<Longrightarrow> subspan s off n = Undefined Span_bounds"
  by (auto simp: subspan_def)

text \<open>Slots of equal size cut from one span: in range below the count, disjoint when distinct.\<close>

lemma slot_in_range: "i < (n::nat) \<Longrightarrow> i * b + b \<le> b * n"
  using mult_le_mono2 [of "Suc i" n b] by (simp add: mult.commute add.commute)

lemma slots_disjoint:
  assumes "i \<noteq> (j::nat)"
  shows "{d + i * b ..< d + i * b + b} \<inter> {d + j * b ..< d + j * b + b} = {}"
proof -
  have sep: "i * b + b \<le> j * b" if "i < j" for i j :: nat
    using slot_in_range [OF that, of b] by (simp add: mult.commute)
  show ?thesis
  proof (cases "i < j")
    case True
    with sep [of i j] show ?thesis by auto
  next
    case False
    with assms sep [of j i] show ?thesis by auto
  qed
qed

text \<open>If every slot was cut from the storage, the size computation did not overflow.\<close>

lemma size_mul_no_overflow:
  assumes fit: "\<And>i. i < n \<Longrightarrow> size_mul i b + b \<le> size_mul b n" and "0 < b"
  shows "b * n < size_t_mod"
proof (rule ccontr)
  assume a: "\<not> b * n < size_t_mod"
  define t where "t = size_mul b n"
  have lt: "t < size_t_mod" by (simp add: t_def size_mul_def size_t_mod_def)
  then have "t < b * n" using a by simp
  then have i: "t div b < n" by (simp add: div_less_iff_less_mult \<open>0 < b\<close> mult.commute)
  have "t div b * b < size_t_mod" by (rule le_less_trans [OF div_times_less_eq_dividend lt])
  then have "size_mul (t div b) b = t div b * b" by (simp add: size_mul_def)
  then have "t div b * b + b \<le> t" using fit [OF i] by (simp add: t_def)
  moreover have "t < t div b * b + b"
    using dividend_less_div_times [OF \<open>0 < b\<close>, of t] by simp
  ultimately show False by simp
qed

subsection \<open>\<open>__kernel_timespec\<close>\<close>

text \<open>
  The sources split a signed 64-bit nanosecond count with \<open>/\<close> and \<open>%\<close>, which truncate
  towards zero in C++ (\<open>sdiv\<close> and \<open>smod\<close>).
\<close>

record timespec =
  tv_sec :: int
  tv_nsec :: int

definition to_timespec :: "int \<Rightarrow> timespec" where
  "to_timespec ns = \<lparr>tv_sec = ns sdiv 1000000000, tv_nsec = ns smod 1000000000\<rparr>"

lemma to_timespec_nonneg:
  assumes "0 \<le> ns"
  shows "tv_sec (to_timespec ns) * 1000000000 + tv_nsec (to_timespec ns) = ns"
    and "0 \<le> tv_nsec (to_timespec ns)" and "tv_nsec (to_timespec ns) < 1000000000"
    and "0 \<le> tv_sec (to_timespec ns)"
  using assms by (simp_all add: to_timespec_def signed_divide_int_def signed_modulo_int_def sgn_if)

subsection \<open>Lists and words\<close>

lemma unat_word_of_nat_small:
  "n < 2 ^ LENGTH('a) \<Longrightarrow> unat (word_of_nat n :: 'a::len word) = n"
  by (simp add: unsigned_of_nat take_bit_nat_eq_self)

lemma uint_word_of_nat_le: "uint (word_of_nat n :: 'a::len word) \<le> int n"
proof -
  have "take_bit LENGTH('a) n \<le> n" by (rule take_bit_nat_less_eq_self)
  then show ?thesis by (simp only: unsigned_of_nat of_nat_le_iff)
qed

lemma inj_on_word_of_nat:
  "inj_on (word_of_nat :: nat \<Rightarrow> 'a::len word) {0 ..< 2 ^ LENGTH('a)}"
  by (rule inj_on_inverseI [where g = unat]) (simp add: unat_word_of_nat_small)

lemma sint_unat_small:
  assumes "unat (x :: u32) < 2 ^ 31"
  shows "sint x = int (unat x)"
proof -
  have "int (unat x) < int (2 ^ 31)" by (rule iffD2 [OF of_nat_less_iff assms])
  then have "uint x < 2 ^ 31" by (simp only: uint_nat of_nat_power of_nat_numeral)
  moreover have "- (2 ^ 31) \<le> uint x" by (rule order_trans [OF _ uint_ge_0]) simp
  ultimately have "signed_take_bit 31 (uint x) = uint x" by (intro signed_take_bit_int_eq_self)
  then show ?thesis using sint_uint [of x] by simp
qed

lemma distinct_map_word_of_nat:
  "n \<le> 2 ^ LENGTH('a) \<Longrightarrow> distinct (map (word_of_nat :: nat \<Rightarrow> 'a::len word) [0..<n])"
  by (auto simp: distinct_map intro: inj_on_subset [OF inj_on_word_of_nat])

lemma set_map_word_of_nat_unat:
  "x \<in> set (map (word_of_nat :: nat \<Rightarrow> 'a::len word) [0..<n]) \<Longrightarrow> n \<le> 2 ^ LENGTH('a) \<Longrightarrow>
   unat x < n"
  by (auto simp: unat_word_of_nat_small)

subsection \<open>Finite maps used as ownership tables\<close>

text \<open>
  Objects live in a store by address; \<open>held_by f m\<close> is the table of what the live objects
  hold, where \<open>f\<close> reads one object.
\<close>

definition held_by :: "('h \<Rightarrow> 'x option) \<Rightarrow> ('o \<Rightarrow> 'h option) \<Rightarrow> 'o \<Rightarrow> 'x option" where
  "held_by f m a = Option.bind (m a) f"

lemma held_by_upd [simp]: "held_by f (m(a := v)) = (held_by f m)(a := Option.bind v f)"
  by (auto simp: held_by_def)

lemma held_by_None: "m a = None \<Longrightarrow> held_by f m a = None"
  by (simp add: held_by_def)

lemma held_by_Some: "m a = Some t \<Longrightarrow> held_by f m a = f t"
  by (simp add: held_by_def)

lemma held_by_eq_Some: "held_by f m a = Some x \<longleftrightarrow> (\<exists>t. m a = Some t \<and> f t = Some x)"
  by (simp add: held_by_def bind_eq_Some_conv)

lemma held_by_empty [simp]: "held_by f (\<lambda>_. None) = (\<lambda>_. None)"
  by (simp add: held_by_def fun_eq_iff)

lemma ran_upd_None:
  assumes "m a = Some x" and "\<And>b. m b = Some x \<Longrightarrow> b = a"
  shows "ran (m(a := None)) = ran m - {x}"
proof (intro set_eqI iffI)
  fix y assume "y \<in> ran (m(a := None))"
  then obtain b where "b \<noteq> a" "m b = Some y" by (auto simp: ran_def split: if_splits)
  then show "y \<in> ran m - {x}" using assms(2) by (auto simp: ran_def)
next
  fix y assume "y \<in> ran m - {x}"
  then obtain b where "m b = Some y" "y \<noteq> x" by (auto simp: ran_def)
  then have "(m(a := None)) b = Some y" using assms(1) by auto
  then show "y \<in> ran (m(a := None))" by (rule ranI)
qed

lemma inj_on_upd_None: "inj_on m (dom m) \<Longrightarrow> inj_on (m(a := None)) (dom (m(a := None)))"
  by (auto simp: inj_on_def)

lemma inj_on_upd_new:
  assumes "inj_on m (dom m)" and "x \<notin> ran m"
  shows "inj_on (m(a \<mapsto> x)) (dom (m(a \<mapsto> x)))"
  using assms by (auto simp: inj_on_def ran_def)

lemma inj_on_dom_unique: "inj_on m (dom m) \<Longrightarrow> m a = Some x \<Longrightarrow> m b = Some x \<Longrightarrow> a = b"
  by (simp add: inj_on_def domI)

lemma fun_upd_idem_None: "m a = None \<Longrightarrow> m(a := None) = m"
  by auto

text \<open>Moving an entry of an ownership table from one key to another.\<close>

lemma ran_transfer:
  assumes "m src = Some x" and "m dst = None" and "\<And>b. m b = Some x \<Longrightarrow> b = src"
  shows "ran (m(src := None, dst \<mapsto> x)) = ran m"
proof -
  have "(m(src := None)) dst = None" using assms(2) by simp
  then have "ran (m(src := None, dst \<mapsto> x)) = insert x (ran (m(src := None)))"
    by (rule ran_map_upd)
  also have "\<dots> = ran m" using ran_upd_None [of m src x, OF assms(1,3)] assms(1) by (auto intro: ranI)
  finally show ?thesis .
qed

lemma inj_on_transfer:
  assumes "inj_on m (dom m)" and "m src = Some x"
  shows "inj_on (m(src := None, dst \<mapsto> x)) (dom (m(src := None, dst \<mapsto> x)))"
proof (rule inj_on_upd_new [OF inj_on_upd_None [OF assms(1)]])
  show "x \<notin> ran (m(src := None))"
    using ran_upd_None [of m src x] inj_on_dom_unique [OF assms(1) _ assms(2)] assms(2) by blast
qed

text \<open>Sums and counts over a list of which one element is replaced.\<close>

lemma sum_list_map_update:
  "i < length xs \<Longrightarrow> sum_list (map g (xs[i := y])) + g (xs ! i) = sum_list (map g xs) + (g y :: nat)"
  by (induction xs arbitrary: i) (auto simp: nth_Cons' less_Suc_eq_0_disj split: nat.splits)

lemma length_filter_sum: "length (filter P xs) = sum_list (map (\<lambda>x. if P x then 1 else 0) xs)"
  by (induction xs) simp_all

lemma length_filter_update:
  "i < length xs \<Longrightarrow> length (filter P (xs[i := y])) + (if P (xs ! i) then 1 else 0) = length (filter P xs) + (if P y then 1 else 0)"
  unfolding length_filter_sum by (rule sum_list_map_update)

text \<open>A sum over the indices below \<open>n\<close> when one of its terms changes.\<close>

lemma sum_change:
  fixes f g :: "nat \<Rightarrow> 'a :: comm_monoid_add"
  assumes "i < n" and "\<And>j. j \<noteq> i \<Longrightarrow> g j = f j"
  shows "(\<Sum>j<n. g j) + f i = (\<Sum>j<n. f j) + g i"
proof -
  have i: "i \<in> {..<n}" using assms(1) by simp
  have "(\<Sum>j\<in>{..<n} - {i}. g j) = (\<Sum>j\<in>{..<n} - {i}. f j)" by (rule sum.cong) (auto simp: assms(2))
  then show ?thesis using sum.remove [OF _ i, of f] sum.remove [OF _ i, of g] by (simp add: ac_simps)
qed

end
