(* ===== verification/Task.thy ===== *)
theory Task
  imports Prelude
begin

text \<open>
  The move-only type-erased callable of \<open>include/fiberexec/task.hpp\<close>. A task object is its
  64-byte buffer and its vtable pointer; a callable lives either inside the buffer (small
  buffer path) or on the heap with the buffer holding the pointer. The world holds the live
  task objects by address, the heap cells, and a history of the callables created,
  destroyed and invoked, so that leaks, double destruction and use after move are visible.
\<close>

subsection \<open>Data\<close>

text \<open>What the constructor asks of the callable's type \<open>Fn\<close>, and the callable's identity.\<close>

record closure =
  c_id :: nat
  c_sizeof :: nat
  c_alignof :: nat
  c_nothrow_move :: bool

datatype vtable = Sbo_vtable | Heap_vtable

datatype buf_content = Raw | Inline closure | Ptr nat

record task =
  buf :: buf_content
  vtable :: "vtable option"

record world =
  tasks :: "nat \<Rightarrow> task option"
  heap :: "nat \<Rightarrow> closure option"
  next_cell :: nat
  created :: "nat list"
  destroyed :: "nat list"
  invoked :: "nat list"

definition kBufSize :: nat where "kBufSize = 64"
definition kBufAlign :: nat where "kBufAlign = 16"

definition empty_task :: task where
  "empty_task = \<lparr>buf = Raw, vtable = None\<rparr>"

subsection \<open>Operations\<close>

definition uses_sbo :: "closure \<Rightarrow> bool" where
  "uses_sbo f \<longleftrightarrow> c_sizeof f \<le> kBufSize \<and> c_alignof f \<le> kBufAlign \<and> c_nothrow_move f"

definition task_default :: "nat \<Rightarrow> world \<Rightarrow> world" where
  "task_default a w = w\<lparr>tasks := (tasks w)(a \<mapsto> empty_task)\<rparr>"

definition task_ctor :: "nat \<Rightarrow> closure \<Rightarrow> world \<Rightarrow> world" where
  "task_ctor a f w =
     (if uses_sbo f
      then w\<lparr>tasks := (tasks w)(a \<mapsto> \<lparr>buf = Inline f, vtable = Some Sbo_vtable\<rparr>),
             created := created w @ [c_id f]\<rparr>
      else w\<lparr>heap := (heap w)(next_cell w \<mapsto> f), next_cell := Suc (next_cell w),
             tasks := (tasks w)(a \<mapsto> \<lparr>buf = Ptr (next_cell w), vtable = Some Heap_vtable\<rparr>),
             created := created w @ [c_id f]\<rparr>)"

text \<open>
  \<open>vtable_->move(src, dst)\<close>: the small-buffer entry moves the callable and destroys the
  moved-from shell; the heap entry copies the pointer and leaves the source buffer as it is.
  The result is the new content of the source and of the destination buffer.
\<close>

fun vtable_move :: "vtable \<Rightarrow> buf_content \<Rightarrow> buf_content \<times> buf_content" where
  "vtable_move Sbo_vtable src = (Raw, src)"
| "vtable_move Heap_vtable src = (src, src)"

text \<open>\<open>vtable_->destroy(p)\<close>: run the callable's destructor, releasing its heap cell if it has one.\<close>

fun vtable_destroy :: "vtable \<Rightarrow> buf_content \<Rightarrow> world \<Rightarrow> world outcome" where
  "vtable_destroy Sbo_vtable (Inline f) w = Ret (w\<lparr>destroyed := destroyed w @ [c_id f]\<rparr>)"
| "vtable_destroy Heap_vtable (Ptr p) w =
     (case heap w p of
        Some f \<Rightarrow> Ret (w\<lparr>heap := (heap w)(p := None), destroyed := destroyed w @ [c_id f]\<rparr>)
      | None \<Rightarrow> Undefined Dangling_handler)"
| "vtable_destroy _ _ w = Undefined Dangling_handler"

fun vtable_invoke :: "vtable \<Rightarrow> buf_content \<Rightarrow> world \<Rightarrow> world outcome" where
  "vtable_invoke Sbo_vtable (Inline f) w = Ret (w\<lparr>invoked := invoked w @ [c_id f]\<rparr>)"
| "vtable_invoke Heap_vtable (Ptr p) w =
     (case heap w p of
        Some f \<Rightarrow> Ret (w\<lparr>invoked := invoked w @ [c_id f]\<rparr>)
      | None \<Rightarrow> Undefined Dangling_handler)"
| "vtable_invoke _ _ w = Undefined Dangling_handler"

definition task_destroy :: "nat \<Rightarrow> world \<Rightarrow> world outcome" where
  "task_destroy a w =
     (case tasks w a of
        None \<Rightarrow> Undefined Dangling_handler
      | Some t \<Rightarrow>
          (case vtable t of
             None \<Rightarrow> Ret w
           | Some vt \<Rightarrow> map_outcome_state
               (\<lambda>w'. w'\<lparr>tasks := (tasks w')(a \<mapsto> t\<lparr>buf := Raw, vtable := None\<rparr>)\<rparr>)
               (vtable_destroy vt (buf t) w)))"

text \<open>The part the move constructor and the move assignment share: take \<open>src\<close>'s callable.\<close>

definition task_take :: "nat \<Rightarrow> nat \<Rightarrow> world \<Rightarrow> world outcome" where
  "task_take dst src w =
     (case tasks w src of
        None \<Rightarrow> Undefined Dangling_handler
      | Some o' \<Rightarrow>
          (case vtable o' of
             None \<Rightarrow> Ret (w\<lparr>tasks := (tasks w)(dst \<mapsto> empty_task)\<rparr>)
           | Some vt \<Rightarrow> (case vtable_move vt (buf o') of (sb, db) \<Rightarrow>
               Ret (w\<lparr>tasks := (tasks w)(src \<mapsto> \<lparr>buf = sb, vtable = None\<rparr>,
                                         dst \<mapsto> \<lparr>buf = db, vtable = Some vt\<rparr>)\<rparr>))))"

definition task_move_ctor :: "nat \<Rightarrow> nat \<Rightarrow> world \<Rightarrow> world outcome" where
  "task_move_ctor dst src w = task_take dst src w"

definition task_move_assign :: "nat \<Rightarrow> nat \<Rightarrow> world \<Rightarrow> world outcome" where
  "task_move_assign dst src w =
     (if dst = src then Ret w else bind_outcome (task_destroy dst w) (task_take dst src))"

definition task_dtor :: "nat \<Rightarrow> world \<Rightarrow> world outcome" where
  "task_dtor a w = map_outcome_state (\<lambda>w'. w'\<lparr>tasks := (tasks w')(a := None)\<rparr>) (task_destroy a w)"

definition task_call :: "nat \<Rightarrow> world \<Rightarrow> world outcome" where
  "task_call a w =
     (case tasks w a of
        None \<Rightarrow> Undefined Dangling_handler
      | Some t \<Rightarrow> (case vtable t of None \<Rightarrow> Undefined Null_deref | Some vt \<Rightarrow> vtable_invoke vt (buf t) w))"

definition task_bool :: "nat \<Rightarrow> world \<Rightarrow> bool" where
  "task_bool a w \<longleftrightarrow> (case tasks w a of None \<Rightarrow> False | Some t \<Rightarrow> vtable t \<noteq> None)"

lemmas [fx_defs] = task_default_def task_ctor_def task_destroy_def task_take_def
  task_move_ctor_def task_move_assign_def task_dtor_def task_call_def task_bool_def

subsection \<open>Steps and reachable worlds\<close>

text \<open>
  The program creates task objects at unused addresses, moves callables between live
  objects and destroys objects. A callable's constructor gives it a fresh identity.
\<close>

definition world0 :: world where
  "world0 = \<lparr>tasks = (\<lambda>_. None), heap = (\<lambda>_. None), next_cell = 0,
             created = [], destroyed = [], invoked = []\<rparr>"

inductive task_step :: "world \<Rightarrow> world outcome \<Rightarrow> bool" where
  ts_default: "tasks w a = None \<Longrightarrow> task_step w (Ret (task_default a w))"
| ts_ctor: "tasks w a = None \<Longrightarrow> c_id f \<notin> set (created w) \<Longrightarrow> task_step w (Ret (task_ctor a f w))"
| ts_move_ctor: "tasks w dst = None \<Longrightarrow> tasks w src \<noteq> None \<Longrightarrow> task_step w (task_move_ctor dst src w)"
| ts_move_assign: "tasks w dst \<noteq> None \<Longrightarrow> tasks w src \<noteq> None \<Longrightarrow>
     task_step w (task_move_assign dst src w)"
| ts_dtor: "tasks w a \<noteq> None \<Longrightarrow> task_step w (task_dtor a w)"
| ts_call: "task_bool a w \<Longrightarrow> task_step w (task_call a w)"

inductive task_reach :: "world outcome \<Rightarrow> bool" where
  tr_start: "task_reach (Ret world0)"
| tr_step: "task_reach (Ret w) \<Longrightarrow> task_step w r \<Longrightarrow> task_reach r"

subsection \<open>The invariant\<close>

text \<open>Where a task object's callable is, and which callable it would run.\<close>

definition heap_ptr :: "task \<Rightarrow> nat option" where
  "heap_ptr t = (case (vtable t, buf t) of (Some Heap_vtable, Ptr p) \<Rightarrow> Some p | _ \<Rightarrow> None)"

definition task_closure :: "(nat \<Rightarrow> closure option) \<Rightarrow> task \<Rightarrow> closure option" where
  "task_closure H t =
     (case (vtable t, buf t) of (Some Sbo_vtable, Inline f) \<Rightarrow> Some f
      | _ \<Rightarrow> (case heap_ptr t of Some p \<Rightarrow> H p | None \<Rightarrow> None))"

definition held :: "(nat \<Rightarrow> task option) \<Rightarrow> (nat \<Rightarrow> closure option) \<Rightarrow> nat \<Rightarrow> closure option" where
  "held T H = held_by (task_closure H) T"

definition ptrs :: "(nat \<Rightarrow> task option) \<Rightarrow> nat \<Rightarrow> nat option" where
  "ptrs T = held_by heap_ptr T"

definition holds_closure :: "world \<Rightarrow> nat \<Rightarrow> closure option" where
  "holds_closure w = held (tasks w) (heap w)"

text \<open>
  Well-formedness: an object with a vtable has a callable; no two objects point to the same
  heap cell; the allocated cells are exactly those some object points to.
\<close>

definition task_wf :: "(nat \<Rightarrow> task option) \<Rightarrow> (nat \<Rightarrow> closure option) \<Rightarrow> nat \<Rightarrow> bool" where
  "task_wf T H n \<longleftrightarrow>
     (\<forall>a t. T a = Some t \<longrightarrow> vtable t \<noteq> None \<longrightarrow> task_closure H t \<noteq> None)
   \<and> inj_on (ptrs T) (dom (ptrs T)) \<and> dom H = ran (ptrs T) \<and> (\<forall>p \<in> dom H. p < n)"

text \<open>
  Lifetimes, over the callables the objects hold (\<open>h\<close>), those created and those destroyed:
  nothing is destroyed twice, no callable is held by two objects or held after its
  destruction, and every callable created is held or has been destroyed.
\<close>

definition lifetimes :: "(nat \<Rightarrow> closure option) \<Rightarrow> nat list \<Rightarrow> nat list \<Rightarrow> bool" where
  "lifetimes h cr de \<longleftrightarrow> distinct de
   \<and> (\<forall>a b f g. h a = Some f \<longrightarrow> h b = Some g \<longrightarrow> c_id f = c_id g \<longrightarrow> a = b)
   \<and> (\<forall>a f. h a = Some f \<longrightarrow> c_id f \<notin> set de)
   \<and> set cr = set de \<union> {c_id f | f. \<exists>a. h a = Some f}"

definition task_inv :: "world \<Rightarrow> bool" where
  "task_inv w \<longleftrightarrow> task_wf (tasks w) (heap w) (next_cell w)
     \<and> lifetimes (holds_closure w) (created w) (destroyed w)"

lemma lifetimes_new:
  assumes "lifetimes h cr de" and "h a = None" and "c_id f \<notin> set cr"
  shows "lifetimes (h(a \<mapsto> f)) (cr @ [c_id f]) de"
proof -
  have "{c_id g | g. \<exists>b. (h(a \<mapsto> f)) b = Some g} = insert (c_id f) {c_id g | g. \<exists>b. h b = Some g}"
    using assms(2) by (auto split: if_splits) (metis option.distinct(1))
  then show ?thesis using assms by (auto simp: lifetimes_def split: if_splits)
qed

lemma lifetimes_drop:
  assumes "lifetimes h cr de" and "h a = Some f"
  shows "lifetimes (h(a := None)) cr (de @ [c_id f])"
proof -
  have "{c_id g | g. \<exists>b. h b = Some g} = insert (c_id f) {c_id g | g. \<exists>b. (h(a := None)) b = Some g}"
    using assms(2) by (auto split: if_splits) (metis option.inject)
  then show ?thesis using assms by (auto simp: lifetimes_def split: if_splits)
qed

lemma lifetimes_move:
  assumes "lifetimes h cr de" and "h dst = None" and "dst \<noteq> src"
  shows "lifetimes (h(src := None, dst := h src)) cr de"
proof -
  have "{c_id g | g. \<exists>b. (h(src := None, dst := h src)) b = Some g} = {c_id g | g. \<exists>b. h b = Some g}"
    using assms(2,3) by (auto split: if_splits) (metis option.distinct(1))
  then show ?thesis using assms by (auto simp: lifetimes_def split: if_splits)
qed

subsection \<open>How updates change the held callables and the heap pointers\<close>

lemma held_upd [simp]: "held (T(a := v)) H = (held T H)(a := Option.bind v (task_closure H))"
  by (simp add: held_def)

lemma ptrs_upd [simp]: "ptrs (T(a := v)) = (ptrs T)(a := Option.bind v heap_ptr)"
  by (simp add: ptrs_def)

lemma task_closure_heap_upd [simp]:
  "heap_ptr t \<noteq> Some p \<Longrightarrow> task_closure (H(p := v)) t = task_closure H t"
  by (auto simp: task_closure_def split: option.splits vtable.splits buf_content.splits)

lemma held_heap_upd: "p \<notin> ran (ptrs T) \<Longrightarrow> held T (H(p := v)) = held T H"
proof
  fix a assume "p \<notin> ran (ptrs T)"
  then have "T a = Some t \<Longrightarrow> heap_ptr t \<noteq> Some p" for t
    by (metis held_by_Some ptrs_def ranI)
  then show "held T (H(p := v)) a = held T H a" by (cases "T a") (auto simp: held_def held_by_def)
qed

lemma heap_ptr_empty [simp]: "vtable t = None \<Longrightarrow> heap_ptr t = None"
  by (simp add: heap_ptr_def)

lemma task_closure_empty [simp]: "vtable t = None \<Longrightarrow> task_closure H t = None"
  by (simp add: task_closure_def)

lemma heap_ptr_Some: "heap_ptr t = Some p \<longleftrightarrow> vtable t = Some Heap_vtable \<and> buf t = Ptr p"
  by (auto simp: heap_ptr_def split: option.splits vtable.splits buf_content.splits)

lemma task_closure_ptr: "heap_ptr t = Some p \<Longrightarrow> task_closure H t = H p"
  by (auto simp: task_closure_def heap_ptr_def split: option.splits vtable.splits buf_content.splits)

lemma task_closure_cases:
  assumes "task_closure H t = Some f"
  obtains (sbo) "vtable t = Some Sbo_vtable" "buf t = Inline f" "heap_ptr t = None"
    | (heap) p where "vtable t = Some Heap_vtable" "buf t = Ptr p" "heap_ptr t = Some p" "H p = Some f"
  using assms
  by (auto simp: task_closure_def heap_ptr_def split: option.splits vtable.splits buf_content.splits)

subsection \<open>Each operation keeps the invariant\<close>

lemma task_wf_empty:
  "task_wf T H n \<Longrightarrow> T a = None \<Longrightarrow> vtable t = None \<Longrightarrow> task_wf (T(a \<mapsto> t)) H n"
proof -
  assume a: "task_wf T H n" "T a = None" "vtable t = None"
  then have "ptrs (T(a \<mapsto> t)) = ptrs T" by (auto simp: ptrs_def held_by_def)
  with a show ?thesis unfolding task_wf_def by (auto split: if_splits)
qed

lemma task_wf_sbo:
  assumes "task_wf T H n" and "ptrs T a = None"
  shows "task_wf (T(a \<mapsto> \<lparr>buf = Inline f, vtable = Some Sbo_vtable\<rparr>)) H n"
proof -
  let ?t = "\<lparr>buf = Inline f, vtable = Some Sbo_vtable\<rparr>"
  have "ptrs (T(a \<mapsto> ?t)) = ptrs T" using assms(2) by (auto simp: heap_ptr_def)
  then show ?thesis
    using assms unfolding task_wf_def by (auto simp: task_closure_def split: if_splits)
qed

lemma task_wf_heap:
  assumes "task_wf T H n" and "ptrs T a = None"
  shows "task_wf (T(a \<mapsto> \<lparr>buf = Ptr n, vtable = Some Heap_vtable\<rparr>)) (H(n \<mapsto> f)) (Suc n)"
proof -
  let ?t = "\<lparr>buf = Ptr n, vtable = Some Heap_vtable\<rparr>"
  have nin: "n \<notin> ran (ptrs T)" using assms(1) by (auto simp: task_wf_def)
  have p: "ptrs (T(a \<mapsto> ?t)) = (ptrs T)(a \<mapsto> n)" by (auto simp: heap_ptr_def)
  have inj: "inj_on ((ptrs T)(a \<mapsto> n)) (dom ((ptrs T)(a \<mapsto> n)))"
    using assms(1) nin by (intro inj_on_upd_new) (simp_all add: task_wf_def)
  have clos: "T b = Some t \<Longrightarrow> vtable t \<noteq> None \<Longrightarrow> task_closure (H(n \<mapsto> f)) t \<noteq> None" for b t
  proof -
    assume b: "T b = Some t" and "vtable t \<noteq> None"
    then have "task_closure H t \<noteq> None" using assms(1) by (auto simp: task_wf_def)
    moreover have "heap_ptr t \<noteq> Some n"
    proof
      assume "heap_ptr t = Some n"
      with b have "ptrs T b = Some n" by (simp add: ptrs_def held_by_def)
      with nin show False by (auto simp: ran_def)
    qed
    ultimately show ?thesis by simp
  qed
  have new: "task_closure (H(n \<mapsto> f)) ?t = Some f" by (simp add: task_closure_def heap_ptr_def)
  have "ran ((ptrs T)(a \<mapsto> n)) = insert n (ran (ptrs T))" using assms(2) by simp
  then show ?thesis using assms clos new inj unfolding task_wf_def p
    by (auto simp: less_Suc_eq split: if_splits)
qed

lemma ctor_inv:
  assumes "task_inv w" and "tasks w a = None" and "c_id f \<notin> set (created w)"
  shows "task_inv (task_ctor a f w)"
    and "holds_closure (task_ctor a f w) = (holds_closure w)(a \<mapsto> f)"
proof -
  have wf: "task_wf (tasks w) (heap w) (next_cell w)" using assms(1) by (simp add: task_inv_def)
  have na: "ptrs (tasks w) a = None" and ha: "holds_closure w a = None"
    using assms(2) by (simp_all add: ptrs_def holds_closure_def held_def held_by_def)
  have nin: "next_cell w \<notin> ran (ptrs (tasks w))" using wf by (auto simp: task_wf_def)
  show h: "holds_closure (task_ctor a f w) = (holds_closure w)(a \<mapsto> f)"
    using held_heap_upd [OF nin]
    by (auto simp: task_ctor_def holds_closure_def task_closure_def heap_ptr_def)
  have "lifetimes ((holds_closure w)(a \<mapsto> f)) (created w @ [c_id f]) (destroyed w)"
    using assms ha by (intro lifetimes_new) (auto simp: task_inv_def)
  then show "task_inv (task_ctor a f w)"
    unfolding task_inv_def h using task_wf_sbo [OF wf na] task_wf_heap [OF wf na]
    by (auto simp: task_ctor_def)
qed

text \<open>Destroying an object's callable: always defined, empties the object, frees its cell.\<close>

lemma destroy_inv:
  assumes "task_inv w" and "tasks w a = Some t"
  obtains w' where "task_destroy a w = Ret w'" and "task_inv w'"
    and "\<exists>t'. tasks w' = (tasks w)(a \<mapsto> t') \<and> vtable t' = None"
    and "holds_closure w' = (holds_closure w)(a := None)" and "created w' = created w"
    and "destroyed w' = destroyed w @ (case holds_closure w a of None \<Rightarrow> [] | Some f \<Rightarrow> [c_id f])"
proof (cases "vtable t")
  case None
  then have n: "holds_closure w a = None" using assms(2) by (simp add: holds_closure_def held_def held_by_def)
  then have h: "holds_closure w = (holds_closure w)(a := None)" by auto
  have t: "tasks w = (tasks w)(a \<mapsto> t)" using assms(2) by auto
  show ?thesis
  proof (rule that)
    show "task_destroy a w = Ret w" using assms(2) None by (simp add: task_destroy_def)
    show "\<exists>t'. tasks w = (tasks w)(a \<mapsto> t') \<and> vtable t' = None" using t None by blast
  qed (use assms n h in simp_all)
next
  case (Some vt)
  have wf: "task_wf (tasks w) (heap w) (next_cell w)"
    and lt: "lifetimes (holds_closure w) (created w) (destroyed w)"
    using assms(1) by (simp_all add: task_inv_def)
  have "task_closure (heap w) t \<noteq> None" using wf assms(2) Some by (auto simp: task_wf_def)
  then obtain f where f: "task_closure (heap w) t = Some f" by blast
  have hf: "holds_closure w a = Some f" using assms(2) f by (simp add: holds_closure_def held_def held_by_def)
  let ?T = "(tasks w)(a \<mapsto> t\<lparr>buf := Raw, vtable := None\<rparr>)"
  have e: "\<exists>t'. ?T = (tasks w)(a \<mapsto> t') \<and> vtable t' = None"
    by (rule exI [of _ "t\<lparr>buf := Raw, vtable := None\<rparr>"]) simp
  from f show ?thesis
  proof (cases rule: task_closure_cases)
    case sbo
    let ?w = "w\<lparr>destroyed := destroyed w @ [c_id f], tasks := ?T\<rparr>"
    have p: "ptrs ?T = ptrs (tasks w)" using assms(2) sbo by (auto simp: ptrs_def held_by_def)
    have "task_wf ?T (heap w) (next_cell w)"
      using wf unfolding task_wf_def p by (auto split: if_splits)
    moreover have h: "holds_closure ?w = (holds_closure w)(a := None)" by (simp add: holds_closure_def)
    ultimately have "task_inv ?w" using lifetimes_drop [OF lt hf] by (simp add: task_inv_def)
    with h show ?thesis using that [of ?w] assms(2) sbo e hf by (simp add: task_destroy_def)
  next
    case (heap p)
    let ?w = "w\<lparr>heap := (heap w)(p := None), destroyed := destroyed w @ [c_id f], tasks := ?T\<rparr>"
    have pa: "ptrs (tasks w) a = Some p" using assms(2) heap by (simp add: ptrs_def held_by_def)
    have p: "ptrs ?T = (ptrs (tasks w))(a := None)" by simp
    have uniq: "ptrs (tasks w) b = Some p \<Longrightarrow> b = a" for b
      using wf pa inj_on_dom_unique [of "ptrs (tasks w)"] by (simp add: task_wf_def)
    have ranp: "ran ((ptrs (tasks w))(a := None)) = ran (ptrs (tasks w)) - {p}"
      by (rule ran_upd_None [of "ptrs (tasks w)", OF pa uniq])
    have nin: "p \<notin> ran (ptrs ?T)" unfolding p ranp by simp
    have clos: "?T b = Some u \<Longrightarrow> vtable u \<noteq> None \<Longrightarrow> task_closure ((heap w)(p := None)) u \<noteq> None" for b u
    proof -
      assume b: "?T b = Some u" and v: "vtable u \<noteq> None"
      then have "b \<noteq> a" and tb: "tasks w b = Some u" by (auto split: if_splits)
      then have "heap_ptr u \<noteq> Some p" using uniq [of b] by (auto simp: ptrs_def held_by_def)
      then show ?thesis using wf tb v by (auto simp: task_wf_def)
    qed
    have "task_wf ?T ((heap w)(p := None)) (next_cell w)"
      using wf clos inj_on_upd_None [of "ptrs (tasks w)" a] unfolding task_wf_def p ranp by auto
    moreover have h: "holds_closure ?w = (holds_closure w)(a := None)"
      using held_heap_upd [OF nin, of "heap w" None] by (simp add: holds_closure_def)
    ultimately have "task_inv ?w" using lifetimes_drop [OF lt hf] by (simp add: task_inv_def)
    with h show ?thesis using that [of ?w] assms(2) heap e hf by (simp add: task_destroy_def)
  qed
qed

text \<open>Taking another object's callable into an object that has none.\<close>

lemma take_inv:
  assumes "task_inv w" and "tasks w src = Some u" and "dst \<noteq> src"
    and empty: "tasks w dst = None \<or> (\<exists>t. tasks w dst = Some t \<and> vtable t = None)"
  obtains w' where "task_take dst src w = Ret w'" and "task_inv w'"
    and "holds_closure w' = (holds_closure w)(src := None, dst := holds_closure w src)"
    and "\<forall>t. tasks w' src = Some t \<longrightarrow> vtable t = None" and "created w' = created w"
    and "heap w' = heap w" and "destroyed w' = destroyed w"
proof -
  have wf: "task_wf (tasks w) (heap w) (next_cell w)"
    and lt: "lifetimes (holds_closure w) (created w) (destroyed w)"
    using assms(1) by (simp_all add: task_inv_def)
  have pd: "ptrs (tasks w) dst = None" and hd: "holds_closure w dst = None"
    using empty by (auto simp: ptrs_def holds_closure_def held_def held_by_def)
  note lt' = lifetimes_move [OF lt hd assms(3)]
  show ?thesis
  proof (cases "vtable u")
    case None
    let ?w = "w\<lparr>tasks := (tasks w)(dst \<mapsto> empty_task)\<rparr>"
    have p: "ptrs ((tasks w)(dst \<mapsto> empty_task)) = ptrs (tasks w)"
      using pd by (auto simp: empty_task_def)
    have hs: "holds_closure w src = None" using assms(2) None by (simp add: holds_closure_def held_def held_by_def)
    have h: "holds_closure ?w = (holds_closure w)(src := None, dst := holds_closure w src)"
      using hs hd by (auto simp: holds_closure_def empty_task_def fun_eq_iff)
    have "task_wf ((tasks w)(dst \<mapsto> empty_task)) (heap w) (next_cell w)"
      using wf unfolding task_wf_def p by (auto simp: empty_task_def split: if_splits)
    then have "task_inv ?w" using lt' h by (simp add: task_inv_def)
    then show ?thesis using that [of ?w] assms(2,3) None h by (simp add: task_take_def)
  next
    case (Some vt)
    have "task_closure (heap w) u \<noteq> None" using wf assms(2) Some by (auto simp: task_wf_def)
    then obtain f where f: "task_closure (heap w) u = Some f" by blast
    obtain sb db where mv: "vtable_move vt (buf u) = (sb, db)" by fastforce
    have db: "db = buf u" using mv by (cases vt) auto
    let ?s = "\<lparr>buf = sb, vtable = None\<rparr>" and ?d = "\<lparr>buf = db, vtable = Some vt\<rparr>"
    let ?T = "(tasks w)(src \<mapsto> ?s, dst \<mapsto> ?d)"
    let ?w = "w\<lparr>tasks := ?T\<rparr>"
    have hp: "heap_ptr ?d = heap_ptr u" using Some db by (simp add: heap_ptr_def)
    have same: "task_closure (heap w) ?d = Some f"
      using f
    proof (cases rule: task_closure_cases)
      case sbo
      then show ?thesis using Some db by (simp add: task_closure_def)
    next
      case (heap p)
      then show ?thesis using hp task_closure_ptr [of ?d p] by simp
    qed
    have hs: "holds_closure w src = Some f" using assms(2) f by (simp add: holds_closure_def held_def held_by_def)
    have h: "holds_closure ?w = (holds_closure w)(src := None, dst := holds_closure w src)"
      unfolding hs using same by (simp add: holds_closure_def)
    have ps: "ptrs (tasks w) src = heap_ptr u" using assms(2) by (simp add: ptrs_def held_by_def)
    have p: "ptrs ?T = (ptrs (tasks w))(src := None, dst := ptrs (tasks w) src)"
      using hp ps by simp
    have inj: "inj_on (ptrs (tasks w)) (dom (ptrs (tasks w)))" using wf by (simp add: task_wf_def)
    have "inj_on (ptrs ?T) (dom (ptrs ?T)) \<and> ran (ptrs ?T) = ran (ptrs (tasks w))"
    proof (cases "ptrs (tasks w) src")
      case None
      then have "ptrs ?T = ptrs (tasks w)" unfolding p using pd by auto
      then show ?thesis using inj by simp
    next
      case (Some q)
      show ?thesis unfolding p Some
        using inj_on_transfer [OF inj Some] ran_transfer [of "ptrs (tasks w)", OF Some pd]
          inj_on_dom_unique [OF inj _ Some] by blast
    qed
    moreover have "?T a = Some t \<Longrightarrow> vtable t \<noteq> None \<Longrightarrow> task_closure (heap w) t \<noteq> None" for a t
      using wf same by (auto simp: task_wf_def split: if_splits)
    ultimately have "task_wf ?T (heap w) (next_cell w)" using wf by (auto simp: task_wf_def)
    then have "task_inv ?w" using lt' h by (simp add: task_inv_def)
    then show ?thesis using that [of ?w] assms(2,3) Some mv h by (simp add: task_take_def)
  qed
qed

lemma call_inv:
  assumes "task_inv w" and "holds_closure w a = Some f"
  shows "task_call a w = Ret (w\<lparr>invoked := invoked w @ [c_id f]\<rparr>)"
proof -
  obtain t where t: "tasks w a = Some t" and c: "task_closure (heap w) t = Some f"
    using assms(2) by (auto simp: holds_closure_def held_def held_by_def bind_eq_Some_conv)
  from c show ?thesis by (cases rule: task_closure_cases) (simp_all add: task_call_def t)
qed

lemma task_bool_holds: "task_inv w \<Longrightarrow> task_bool a w \<longleftrightarrow> holds_closure w a \<noteq> None"
  by (cases "tasks w a") (auto simp: task_inv_def task_wf_def task_bool_def holds_closure_def held_def held_by_def
      elim: task_closure_cases)

lemma dtor_inv:
  assumes "task_inv w" and "tasks w a \<noteq> None"
  obtains w' where "task_dtor a w = Ret w'" and "task_inv w'"
proof -
  obtain t where t: "tasks w a = Some t" using assms(2) by blast
  from destroy_inv [OF assms(1) t] obtain w1 t'
    where w1: "task_destroy a w = Ret w1" "task_inv w1" "tasks w1 = (tasks w)(a \<mapsto> t')" "vtable t' = None"
      and h1: "holds_closure w1 = (holds_closure w)(a := None)" by metis
  let ?w = "w1\<lparr>tasks := (tasks w1)(a := None)\<rparr>"
  have "ptrs (tasks w1) a = None" using w1(3,4) by (simp add: ptrs_def held_by_def)
  then have p: "ptrs ((tasks w1)(a := None)) = ptrs (tasks w1)" by auto
  have "task_wf ((tasks w1)(a := None)) (heap w1) (next_cell w1)"
    using w1(2) unfolding task_inv_def task_wf_def p by (auto split: if_splits)
  moreover have "holds_closure ?w = holds_closure w1" using h1 by (auto simp: holds_closure_def fun_eq_iff)
  ultimately have "task_inv ?w" using w1(2) by (simp add: task_inv_def)
  then show ?thesis using that w1(1) by (simp add: task_dtor_def)
qed

lemma move_assign_inv:
  assumes "task_inv w" and "tasks w dst \<noteq> None" and "tasks w src \<noteq> None" and "dst \<noteq> src"
  obtains w' where "task_move_assign dst src w = Ret w'" and "task_inv w'"
    and "holds_closure w' = (holds_closure w)(src := None, dst := holds_closure w src)"
    and "destroyed w' = destroyed w @ (case holds_closure w dst of None \<Rightarrow> [] | Some f \<Rightarrow> [c_id f])"
proof -
  obtain t where "tasks w dst = Some t" using assms(2) by blast
  from destroy_inv [OF assms(1) this] obtain w1 t'
    where w1: "task_destroy dst w = Ret w1" "task_inv w1" "tasks w1 = (tasks w)(dst \<mapsto> t')" "vtable t' = None"
      and h1: "holds_closure w1 = (holds_closure w)(dst := None)"
      and d1: "destroyed w1 = destroyed w @ (case holds_closure w dst of None \<Rightarrow> [] | Some f \<Rightarrow> [c_id f])"
    by metis
  obtain u where u: "tasks w1 src = Some u" using assms(3,4) w1(3) by auto
  have "tasks w1 dst = None \<or> (\<exists>t. tasks w1 dst = Some t \<and> vtable t = None)" using w1(3,4) by simp
  from take_inv [OF w1(2) u assms(4) this] obtain w2 where w2: "task_take dst src w1 = Ret w2" "task_inv w2"
      "holds_closure w2 = (holds_closure w1)(src := None, dst := holds_closure w1 src)"
      "destroyed w2 = destroyed w1" by metis
  show ?thesis
  proof (rule that)
    show "task_move_assign dst src w = Ret w2" using w1(1) w2(1) assms(4) by (simp add: task_move_assign_def)
    show "holds_closure w2 = (holds_closure w)(src := None, dst := holds_closure w src)"
      using w2(3) h1 assms(4) by auto
  qed (use w2 d1 in simp_all)
qed

lemma task_step_inv:
  assumes "task_step w r" and "task_inv w"
  shows "\<exists>w'. r = Ret w' \<and> task_inv w'"
  using assms
proof (induction rule: task_step.induct)
  case (ts_default w a)
  have "holds_closure (task_default a w) = holds_closure w"
    using ts_default by (auto simp: task_default_def holds_closure_def empty_task_def held_def held_by_def fun_eq_iff)
  then show ?case using ts_default task_wf_empty [of "tasks w" "heap w" "next_cell w" a empty_task]
    by (auto simp: task_inv_def task_default_def empty_task_def)
next
  case (ts_ctor w a f)
  then show ?case using ctor_inv(1) by blast
next
  case (ts_move_ctor w dst src)
  then obtain u where u: "tasks w src = Some u" by blast
  have ne: "dst \<noteq> src" using ts_move_ctor.hyps by auto
  from take_inv [OF ts_move_ctor.prems u ne] ts_move_ctor.hyps(1) show ?case
    by (metis task_move_ctor_def)
next
  case (ts_move_assign w dst src)
  then show ?case using move_assign_inv [of w dst src] by (cases "dst = src") (auto simp: task_move_assign_def)
next
  case (ts_dtor w a)
  then show ?case using dtor_inv by blast
next
  case (ts_call a w)
  then obtain f where f: "holds_closure w a = Some f" using task_bool_holds by blast
  have "task_inv (w\<lparr>invoked := invoked w @ [c_id f]\<rparr>)"
    using ts_call.prems by (simp add: task_inv_def holds_closure_def)
  then show ?case using call_inv [OF ts_call.prems f] by simp
qed

lemma task_inv_world0: "task_inv world0"
proof -
  have "ptrs (\<lambda>_. None) = (\<lambda>_. None)" by (simp add: ptrs_def fun_eq_iff)
  then show ?thesis
    by (auto simp: task_inv_def world0_def task_wf_def lifetimes_def holds_closure_def held_def held_by_def)
qed

lemma task_reach_inv: "task_reach r \<Longrightarrow> \<exists>w. r = Ret w \<and> task_inv w"
proof (induction rule: task_reach.induct)
  case tr_start
  show ?case using task_inv_world0 by blast
next
  case (tr_step w r)
  then show ?case using task_step_inv by blast
qed

subsection \<open>Properties\<close>

text \<open>
  C38. Lifetime safety of type-erased tasks. In every world reachable by constructing,
  moving, calling and destroying task objects, no operation was undefined (no call or
  destruction through a dangling or missing callable), no callable was destroyed twice, no
  destroyed callable is still held, every callable created is either held by exactly one
  task object or was destroyed (no leak), and the allocated heap cells are exactly those
  the live task objects point to.
\<close>

theorem task_lifetime_safety:
  assumes "task_reach r"
  shows "\<exists>w. r = Ret w \<and> distinct (destroyed w)
    \<and> (\<forall>a f. holds_closure w a = Some f \<longrightarrow> c_id f \<notin> set (destroyed w))
    \<and> (\<forall>a b f g. holds_closure w a = Some f \<longrightarrow> holds_closure w b = Some g \<longrightarrow> c_id f = c_id g \<longrightarrow> a = b)
    \<and> set (created w) = set (destroyed w) \<union> {c_id f | f. \<exists>a. holds_closure w a = Some f}
    \<and> dom (heap w) = ran (ptrs (tasks w))"
proof -
  obtain w where "r = Ret w" and "task_inv w" using task_reach_inv [OF assms] by blast
  then show ?thesis
    unfolding task_inv_def lifetimes_def task_wf_def by (intro exI [of _ w] conjI) (elim conjE; assumption)+
qed

text \<open>A run that exercises both storage paths: a large callable moved over a small one.\<close>

definition big_closure :: closure where
  "big_closure = \<lparr>c_id = 1, c_sizeof = 80, c_alignof = 8, c_nothrow_move = True\<rparr>"

definition small_closure :: closure where
  "small_closure = \<lparr>c_id = 2, c_sizeof = 8, c_alignof = 8, c_nothrow_move = True\<rparr>"

definition demo_world :: world where
  "demo_world = task_ctor 11 small_closure (task_ctor 10 big_closure world0)"

lemma demo_world_reach: "task_reach (Ret demo_world)"
proof -
  have r1: "task_reach (Ret (task_ctor 10 big_closure world0))"
    by (rule tr_step [OF tr_start ts_ctor]) (simp_all add: world0_def)
  show ?thesis unfolding demo_world_def
    by (rule tr_step [OF r1 ts_ctor])
      (simp_all add: task_ctor_def world0_def big_closure_def small_closure_def)
qed

lemma demo_world_live: "tasks demo_world 10 \<noteq> None" "tasks demo_world 11 \<noteq> None"
  by (simp_all add: demo_world_def task_ctor_def)

theorem task_lifetime_safety_witness:
  "\<exists>w. task_move_assign 11 10 demo_world = Ret w \<and> distinct (destroyed w) \<and> dom (heap w) = ran (ptrs (tasks w))"
proof -
  have "task_reach (task_move_assign 11 10 demo_world)"
    by (rule tr_step [OF demo_world_reach ts_move_assign [OF demo_world_live(2,1)]])
  from task_lifetime_safety [OF this] show ?thesis by (elim exE conjE) (intro exI conjI)
qed

text \<open>
  Move assignment transfers the callable. From a consistent world, move-assigning a
  live task object to a different live one is defined; the source becomes empty, the
  destination is non-empty exactly when the source was, calling the destination runs the
  source's callable, and the destination's previous callable, if any, is the only one
  destroyed. Self-assignment changes nothing.
\<close>

lemma task_move_assign_transfers:
  assumes "task_inv w" and "tasks w dst \<noteq> None" and "tasks w src \<noteq> None"
  shows "task_move_assign dst dst w = Ret w \<and>
    (dst \<noteq> src \<longrightarrow> (\<exists>w'. task_move_assign dst src w = Ret w' \<and> task_inv w'
      \<and> \<not> task_bool src w' \<and> task_bool dst w' = task_bool src w
      \<and> (\<forall>f. holds_closure w src = Some f \<longrightarrow>
            task_call dst w' = Ret (w'\<lparr>invoked := invoked w' @ [c_id f]\<rparr>))
      \<and> destroyed w' = destroyed w @ (case holds_closure w dst of None \<Rightarrow> [] | Some f \<Rightarrow> [c_id f])))"
proof -
  have "\<exists>w'. task_move_assign dst src w = Ret w' \<and> task_inv w'
      \<and> \<not> task_bool src w' \<and> task_bool dst w' = task_bool src w
      \<and> (\<forall>f. holds_closure w src = Some f \<longrightarrow>
            task_call dst w' = Ret (w'\<lparr>invoked := invoked w' @ [c_id f]\<rparr>))
      \<and> destroyed w' = destroyed w @ (case holds_closure w dst of None \<Rightarrow> [] | Some f \<Rightarrow> [c_id f])"
    if ne: "dst \<noteq> src"
  proof -
    from move_assign_inv [OF assms ne] obtain w' where w': "task_move_assign dst src w = Ret w'" "task_inv w'"
      "holds_closure w' = (holds_closure w)(src := None, dst := holds_closure w src)"
      "destroyed w' = destroyed w @ (case holds_closure w dst of None \<Rightarrow> [] | Some f \<Rightarrow> [c_id f])" by metis
    then show ?thesis
      using ne task_bool_holds [OF w'(2)] task_bool_holds [OF assms(1)] call_inv [OF w'(2), of dst]
      by (intro exI [of _ w']) auto
  qed
  then show ?thesis by (simp add: task_move_assign_def)
qed

end
