(* ===== verification/Ownership.thy ===== *)
theory Ownership
  imports Prelude
begin

text \<open>
  Three classes of the sources are move-only RAII handles on a numbered resource of a pool:
  \<open>fixed_buffer_pool::fixed_buffer\<close>, \<open>fd_slot\<close> and \<open>multishot_recv::received_buffer\<close>. This
  theory holds the specification they share. A state of the specification lists the
  identifiers that lie in the pool and says which live handle object holds which
  identifier; its steps are taking an identifier out of the pool, giving it back, moving it
  from one handle to another, and moving identifiers about within the pool. The locale \<open>raii_pool\<close> is the contract between a
  component and this specification: its steps are simulated by specification steps. What
  every such component then has is proved once, in the locale.
\<close>

record ('id, 'o) own =
  o_free :: "'id list"
  o_held :: "'o \<Rightarrow> 'id option"

inductive own_step :: "('id, 'o) own \<Rightarrow> ('id, 'o) own \<Rightarrow> bool" where
  own_take: "x \<in> set (o_free s) \<Longrightarrow> mset fr = mset (o_free s) - {#x#} \<Longrightarrow> o_held s ob = None \<Longrightarrow>
     own_step s \<lparr>o_free = fr, o_held = (o_held s)(ob \<mapsto> x)\<rparr>"
| own_give: "o_held s ob = Some x \<Longrightarrow> mset fr = add_mset x (mset (o_free s)) \<Longrightarrow>
     own_step s \<lparr>o_free = fr, o_held = (o_held s)(ob := None)\<rparr>"
| own_transfer: "o_held s src = Some x \<Longrightarrow> o_held s dst = None \<Longrightarrow>
     own_step s \<lparr>o_free = o_free s, o_held = (o_held s)(src := None, dst \<mapsto> x)\<rparr>"
| own_shuffle: "mset fr = mset (o_free s) \<Longrightarrow> own_step s \<lparr>o_free = fr, o_held = o_held s\<rparr>"

inductive_cases own_stepE: "own_step s t"

text \<open>Every identifier of \<open>U\<close> is in the pool once or held by exactly one handle.\<close>

definition partitioned :: "'id set \<Rightarrow> ('id, 'o) own \<Rightarrow> bool" where
  "partitioned U s \<longleftrightarrow> distinct (o_free s) \<and> inj_on (o_held s) (dom (o_held s))
     \<and> set (o_free s) \<inter> ran (o_held s) = {} \<and> set (o_free s) \<union> ran (o_held s) = U"

lemma partitioned_exclusive:
  "partitioned U s \<Longrightarrow> o_held s a = Some x \<Longrightarrow> o_held s b = Some x \<Longrightarrow> a = b"
  by (simp add: partitioned_def inj_on_def domI)

lemma partitioned_held_in: "partitioned U s \<Longrightarrow> o_held s a = Some x \<Longrightarrow> x \<in> U"
  by (auto simp: partitioned_def ran_def)

lemma partitioned_free_in: "partitioned U s \<Longrightarrow> x \<in> set (o_free s) \<Longrightarrow> x \<in> U"
  by (auto simp: partitioned_def)

lemma partitioned_held_not_free:
  "partitioned U s \<Longrightarrow> o_held s a = Some x \<Longrightarrow> x \<notin> set (o_free s)"
  by (auto simp: partitioned_def ran_def)

lemma partitioned_count:
  assumes "partitioned U s" and "finite U"
  shows "length (o_free s) + card (dom (o_held s)) = card U" and "finite (dom (o_held s))"
proof -
  let ?h = "o_held s"
  have fin: "finite (ran ?h)" and inj: "inj_on ?h (dom ?h)"
    using assms by (auto simp: partitioned_def)
  have img: "?h ` dom ?h = Some ` ran ?h" by (force simp: ran_def image_def)
  have "finite (?h ` dom ?h)" using fin by (simp add: img)
  then show fd: "finite (dom ?h)" using inj by (rule finite_imageD)
  have "card (dom ?h) = card (ran ?h)"
    using card_image [OF inj] by (simp add: img card_image)
  moreover have "length (o_free s) = card (set (o_free s))"
    using assms by (simp add: partitioned_def distinct_card)
  moreover have "card U = card (set (o_free s)) + card (ran ?h)"
    using assms fin by (auto simp: partitioned_def card_Un_disjoint)
  ultimately show "length (o_free s) + card (dom ?h) = card U" by simp
qed

lemma partitioned_give_room:
  assumes "partitioned U s" and "finite U" and "o_held s a = Some x"
  shows "length (o_free s) < card U"
proof -
  have "0 < card (dom (o_held s))"
    using assms partitioned_count(2) [OF assms(1,2)] by (auto simp: card_gt_0_iff)
  then show ?thesis using partitioned_count(1) [OF assms(1,2)] by simp
qed

lemma distinct_mset_eq: "mset xs = mset ys \<Longrightarrow> distinct xs \<longleftrightarrow> distinct ys"
  by (rule mset_eq_imp_distinct_iff)

lemma mset_minus_distinct:
  assumes "mset fr = mset xs - {#x#}" and "distinct xs"
  shows "distinct fr" and "set fr = set xs - {x}"
proof -
  have eq: "mset fr = mset (remove1 x xs)" using assms(1) by simp
  show "distinct fr" using distinct_mset_eq [OF eq] assms(2) by simp
  show "set fr = set xs - {x}"
    using mset_eq_setD [OF eq] assms(2) by (simp add: set_remove1_eq)
qed

lemma mset_add_distinct:
  assumes "mset fr = add_mset x (mset xs)" and "distinct xs" and "x \<notin> set xs"
  shows "distinct fr" and "set fr = insert x (set xs)"
proof -
  have eq: "mset fr = mset (x # xs)" using assms(1) by simp
  show "distinct fr" using distinct_mset_eq [OF eq] assms(2,3) by simp
  show "set fr = insert x (set xs)" using mset_eq_setD [OF eq] by simp
qed

lemma own_step_partitioned:
  assumes "own_step s t" and "partitioned U s"
  shows "partitioned U t"
  using assms
proof (induction rule: own_step.induct)
  case (own_take x s fr ob)
  then have d: "distinct (o_free s)" by (simp add: partitioned_def)
  note fr = mset_minus_distinct [OF own_take.hyps(2) d]
  have "ran ((o_held s)(ob \<mapsto> x)) = insert x (ran (o_held s))"
    using own_take.hyps(3) by simp
  moreover have "inj_on ((o_held s)(ob \<mapsto> x)) (dom ((o_held s)(ob \<mapsto> x)))"
    using own_take by (intro inj_on_upd_new) (auto simp: partitioned_def)
  ultimately show ?case using own_take fr by (auto simp: partitioned_def)
next
  case (own_give s ob x fr)
  then have d: "distinct (o_free s)" and nin: "x \<notin> set (o_free s)"
    by (auto simp: partitioned_def ran_def)
  note fr = mset_add_distinct [OF own_give.hyps(2) d nin]
  have r: "ran ((o_held s)(ob := None)) = ran (o_held s) - {x}"
    by (rule ran_upd_None [of "o_held s", OF own_give.hyps(1)])
      (rule partitioned_exclusive [OF own_give.prems _ own_give.hyps(1)])
  have "inj_on ((o_held s)(ob := None)) (dom ((o_held s)(ob := None)))"
    using own_give by (intro inj_on_upd_None) (simp add: partitioned_def)
  moreover have "x \<in> ran (o_held s)" using own_give by (auto simp: ran_def)
  ultimately show ?case using own_give fr r by (auto simp: partitioned_def)
next
  case (own_transfer s src x dst)
  let ?h = "(o_held s)(src := None, dst \<mapsto> x)"
  have "ran ?h = ran (o_held s)"
    by (rule ran_transfer [of "o_held s", OF own_transfer.hyps])
      (rule partitioned_exclusive [OF own_transfer.prems _ own_transfer.hyps(1)])
  moreover have "inj_on ?h (dom ?h)"
    using own_transfer by (intro inj_on_transfer) (simp_all add: partitioned_def)
  ultimately show ?case using own_transfer by (simp add: partitioned_def)
next
  case (own_shuffle fr s)
  then show ?case using mset_eq_setD [OF own_shuffle.hyps] distinct_mset_eq [OF own_shuffle.hyps]
    by (simp add: partitioned_def)
qed

lemma own_steps_partitioned: "own_step\<^sup>*\<^sup>* s t \<Longrightarrow> partitioned U s \<Longrightarrow> partitioned U t"
  by (induction rule: rtranclp_induct) (auto intro: own_step_partitioned)

text \<open>
  The specification counterparts of the operations on handles: what a constructor from the
  pool, a destructor, a move constructor and a move assignment do to the two tables.
\<close>

definition opt_list :: "'a option \<Rightarrow> 'a list" where
  "opt_list v = (case v of None \<Rightarrow> [] | Some x \<Rightarrow> [x])"

lemma opt_list_simps [simp]: "opt_list None = []" "opt_list (Some x) = [x]"
  by (simp_all add: opt_list_def)

lemma own_acquire:
  assumes "m a = None"
  shows "own_step\<^sup>*\<^sup>* \<lparr>o_free = x # fr, o_held = m\<rparr> \<lparr>o_free = fr, o_held = m(a \<mapsto> x)\<rparr>"
  using own_take [of x "\<lparr>o_free = x # fr, o_held = m\<rparr>" fr a] assms by auto

lemma own_acquire_any:
  assumes "m a = None" and "mset fr' = add_mset x (mset fr)"
  shows "own_step\<^sup>*\<^sup>* \<lparr>o_free = fr', o_held = m\<rparr> \<lparr>o_free = fr, o_held = m(a \<mapsto> x)\<rparr>"
proof -
  have "x \<in> set fr'" using mset_eq_setD [of fr' "x # fr"] assms(2) by simp
  then show ?thesis using own_take [of x "\<lparr>o_free = fr', o_held = m\<rparr>" fr a] assms by auto
qed

lemma own_reorder:
  "mset fr = mset fr' \<Longrightarrow> own_step\<^sup>*\<^sup>* \<lparr>o_free = fr', o_held = m\<rparr> \<lparr>o_free = fr, o_held = m\<rparr>"
  using own_shuffle [of fr "\<lparr>o_free = fr', o_held = m\<rparr>"] by auto

lemma own_release:
  "own_step\<^sup>*\<^sup>* \<lparr>o_free = fr, o_held = m\<rparr> \<lparr>o_free = fr @ opt_list (m a), o_held = m(a := None)\<rparr>"
proof (cases "m a")
  case None
  then have "m(a := None) = m" by auto
  with None show ?thesis by simp
next
  case (Some x)
  then show ?thesis using own_give [of "\<lparr>o_free = fr, o_held = m\<rparr>" a x "fr @ [x]"] by auto
qed

lemma own_move:
  assumes "m dst = None"
  shows "own_step\<^sup>*\<^sup>* \<lparr>o_free = fr, o_held = m\<rparr> \<lparr>o_free = fr, o_held = m(src := None, dst := m src)\<rparr>"
proof (cases "m src")
  case None
  with assms have "m(src := None, dst := m src) = m" by auto
  then show ?thesis by simp
next
  case (Some x)
  then show ?thesis using own_transfer [of "\<lparr>o_free = fr, o_held = m\<rparr>" src x dst] assms by auto
qed

lemma own_assign:
  assumes "dst \<noteq> src"
  shows "own_step\<^sup>*\<^sup>* \<lparr>o_free = fr, o_held = m\<rparr>
    \<lparr>o_free = fr @ opt_list (m dst), o_held = m(src := None, dst := m src)\<rparr>"
proof -
  have "(m(dst := None))(src := None, dst := (m(dst := None)) src) = m(src := None, dst := m src)"
    using assms by auto
  then show ?thesis
    using own_release [of fr m dst] own_move [of "m(dst := None)" dst "fr @ opt_list (m dst)" src]
    by (metis fun_upd_same rtranclp_trans)
qed

lemma own_release_reorder:
  assumes "mset fr' = mset fr + mset (opt_list (m a))"
  shows "own_step\<^sup>*\<^sup>* \<lparr>o_free = fr, o_held = m\<rparr> \<lparr>o_free = fr', o_held = m(a := None)\<rparr>"
  using rtranclp_trans [OF own_release own_reorder] assms by (metis mset_append)

lemma own_assign_reorder:
  assumes "dst \<noteq> src" and "mset fr' = mset fr + mset (opt_list (m dst))"
  shows "own_step\<^sup>*\<^sup>* \<lparr>o_free = fr, o_held = m\<rparr> \<lparr>o_free = fr', o_held = m(src := None, dst := m src)\<rparr>"
  using rtranclp_trans [OF own_assign own_reorder] assms by (metis mset_append)

subsection \<open>The contract of a component with RAII handles\<close>

locale raii_pool =
  fixes cstep :: "'s \<Rightarrow> 's \<Rightarrow> bool"
    and own_of :: "'s \<Rightarrow> ('id, 'o) own"
    and ids :: "'s \<Rightarrow> 'id set"
    and ok :: "'s \<Rightarrow> bool"
  assumes sim: "ok s \<Longrightarrow> partitioned (ids s) (own_of s) \<Longrightarrow> cstep s t \<Longrightarrow>
                own_step\<^sup>*\<^sup>* (own_of s) (own_of t)"
    and keeps: "ok s \<Longrightarrow> partitioned (ids s) (own_of s) \<Longrightarrow> cstep s t \<Longrightarrow> ok t \<and> ids t = ids s"
begin

lemma step_partitioned:
  assumes "ok s" and "partitioned (ids s) (own_of s)" and "cstep s t"
  shows "ok t \<and> ids t = ids s \<and> partitioned (ids t) (own_of t)"
  using keeps [OF assms] own_steps_partitioned [OF sim [OF assms] assms(2)] by simp

lemma run_partitioned:
  assumes "cstep\<^sup>*\<^sup>* s t" and "ok s" and "partitioned (ids s) (own_of s)"
  shows "ok t \<and> ids t = ids s \<and> partitioned (ids s) (own_of t)"
  using assms(1)
proof (induction rule: rtranclp_induct)
  case base
  then show ?case using assms by simp
next
  case (step u t)
  then show ?case using step_partitioned [of u t] by auto
qed

lemma run_exclusive:
  assumes "cstep\<^sup>*\<^sup>* s t" and "ok s" and "partitioned (ids s) (own_of s)"
    and "o_held (own_of t) a = Some x" and "o_held (own_of t) b = Some x"
  shows "a = b"
  using run_partitioned [OF assms(1-3)] assms(4,5) partitioned_exclusive by metis

lemma run_conserved:
  assumes "cstep\<^sup>*\<^sup>* s t" and "ok s" and "partitioned (ids s) (own_of s)" and "finite (ids s)"
  shows "length (o_free (own_of t)) + card (dom (o_held (own_of t))) = card (ids s)"
  using run_partitioned [OF assms(1-3)] assms(4) partitioned_count(1) by blast

end

end
