(* ===== verification/Channel.thy ===== *)
theory Channel
  imports Prelude
begin

text \<open>
  The bounded channel of \<open>include/fiberexec/channel.hpp\<close>: a thin wrapper around
  \<open>boost::fibers::buffered_channel\<close> that rounds the capacity and translates the status
  codes. The Boost channel itself is a parameter of every definition, a record \<open>bc\<close> of its
  operations; the locale \<open>boost_buffered_channel\<close> states its documented behaviour over the
  queued items and the ring size. A blocking operation that cannot proceed is the outcome
  \<open>Suspended\<close>.

  The abstract specification is \<open>fifo\<close>, a bounded queue with a closed flag. The wrapper
  refines it operation by operation (locale \<open>bounded_channel\<close>, reached from the Boost
  contract by \<open>sublocale\<close>), and the two free lists of the library are clients of that
  interface.
\<close>

subsection \<open>Status codes and the Boost interface\<close>

datatype channel_op_status = Ch_success | Ch_empty | Ch_full | Ch_closed | Ch_timeout

datatype boost_op_status = Bc_success | Bc_empty | Bc_full | Bc_closed | Bc_timeout

record ('c, 'a) boost_channel =
  bc_new :: "nat \<Rightarrow> 'c outcome"
  bc_push :: "'c \<Rightarrow> 'a \<Rightarrow> (boost_op_status \<times> 'c) outcome"
  bc_try_push :: "'c \<Rightarrow> 'a \<Rightarrow> boost_op_status \<times> 'c"
  bc_pop :: "'c \<Rightarrow> (boost_op_status \<times> 'a option \<times> 'c) outcome"
  bc_value_pop :: "'c \<Rightarrow> ('a \<times> 'c) outcome"
  bc_try_pop :: "'c \<Rightarrow> boost_op_status \<times> 'a option \<times> 'c"
  bc_close :: "'c \<Rightarrow> 'c"
  bc_is_closed :: "'c \<Rightarrow> bool"

subsection \<open>The wrapper\<close>

fun cvt :: "boost_op_status \<Rightarrow> channel_op_status" where
  "cvt Bc_success = Ch_success"
| "cvt Bc_empty = Ch_empty"
| "cvt Bc_full = Ch_full"
| "cvt Bc_closed = Ch_closed"
| "cvt Bc_timeout = Ch_timeout"

definition channel_new :: "('c, 'a) boost_channel \<Rightarrow> nat \<Rightarrow> 'c outcome" where
  "channel_new bc capacity =
     (let n = size_add capacity 1
      in if n \<le> 2 ^ 63 then bc_new bc (bit_ceil n) else Undefined Bit_ceil_range)"

definition channel_push ::
  "('c, 'a) boost_channel \<Rightarrow> 'c \<Rightarrow> 'a \<Rightarrow> (channel_op_status \<times> 'c) outcome" where
  "channel_push bc ch v = map_outcome_state (\<lambda>(s, ch'). (cvt s, ch')) (bc_push bc ch v)"

definition channel_try_push ::
  "('c, 'a) boost_channel \<Rightarrow> 'c \<Rightarrow> 'a \<Rightarrow> channel_op_status \<times> 'c" where
  "channel_try_push bc ch v = (case bc_try_push bc ch v of (s, ch') \<Rightarrow> (cvt s, ch'))"

definition channel_pop ::
  "('c, 'a) boost_channel \<Rightarrow> 'c \<Rightarrow> (channel_op_status \<times> 'a option \<times> 'c) outcome" where
  "channel_pop bc ch = map_outcome_state (\<lambda>(s, v, ch'). (cvt s, v, ch')) (bc_pop bc ch)"

definition channel_value_pop :: "('c, 'a) boost_channel \<Rightarrow> 'c \<Rightarrow> ('a \<times> 'c) outcome" where
  "channel_value_pop bc ch = bc_value_pop bc ch"

definition channel_try_pop ::
  "('c, 'a) boost_channel \<Rightarrow> 'c \<Rightarrow> channel_op_status \<times> 'a option \<times> 'c" where
  "channel_try_pop bc ch = (case bc_try_pop bc ch of (s, v, ch') \<Rightarrow> (cvt s, v, ch'))"

definition channel_close :: "('c, 'a) boost_channel \<Rightarrow> 'c \<Rightarrow> 'c" where
  "channel_close bc ch = bc_close bc ch"

definition channel_is_closed :: "('c, 'a) boost_channel \<Rightarrow> 'c \<Rightarrow> bool" where
  "channel_is_closed bc ch = bc_is_closed bc ch"

lemmas channel_defs = channel_push_def channel_try_push_def channel_pop_def
  channel_value_pop_def channel_try_pop_def channel_close_def channel_is_closed_def

subsection \<open>The documented behaviour of the Boost channel\<close>

text \<open>
  A Boost channel of ring size \<open>n\<close> (a power of two, at least 2) holds \<open>n - 1\<close> items: one slot
  is reserved to tell full from empty.
\<close>

locale boost_buffered_channel =
  fixes bc :: "('c, 'a) boost_channel"
    and items :: "'c \<Rightarrow> 'a list"
    and ring_size :: "'c \<Rightarrow> nat"
  assumes new_ok: "2 \<le> n \<Longrightarrow> is_pow2 n \<Longrightarrow>
      \<exists>ch. bc_new bc n = Ret ch \<and> items ch = [] \<and> ring_size ch = n \<and> \<not> bc_is_closed bc ch"
    and new_bad: "n < 2 \<or> \<not> is_pow2 n \<Longrightarrow> \<exists>w. bc_new bc n = Throw (System_error EINVAL w)"
    and push_closed: "bc_is_closed bc ch \<Longrightarrow> bc_push bc ch v = Ret (Bc_closed, ch)"
    and push_room: "\<not> bc_is_closed bc ch \<Longrightarrow> length (items ch) < ring_size ch - 1 \<Longrightarrow>
      \<exists>ch'. bc_push bc ch v = Ret (Bc_success, ch') \<and> items ch' = items ch @ [v]
        \<and> ring_size ch' = ring_size ch \<and> \<not> bc_is_closed bc ch'"
    and push_full: "\<not> bc_is_closed bc ch \<Longrightarrow> \<not> length (items ch) < ring_size ch - 1 \<Longrightarrow>
      bc_push bc ch v = Suspended"
    and try_push_closed: "bc_is_closed bc ch \<Longrightarrow> bc_try_push bc ch v = (Bc_closed, ch)"
    and try_push_room: "\<not> bc_is_closed bc ch \<Longrightarrow> length (items ch) < ring_size ch - 1 \<Longrightarrow>
      \<exists>ch'. bc_try_push bc ch v = (Bc_success, ch') \<and> items ch' = items ch @ [v]
        \<and> ring_size ch' = ring_size ch \<and> \<not> bc_is_closed bc ch'"
    and try_push_full: "\<not> bc_is_closed bc ch \<Longrightarrow> \<not> length (items ch) < ring_size ch - 1 \<Longrightarrow>
      bc_try_push bc ch v = (Bc_full, ch)"
    and pop_item: "items ch = x # xs \<Longrightarrow>
      \<exists>ch'. bc_pop bc ch = Ret (Bc_success, Some x, ch') \<and> items ch' = xs
        \<and> ring_size ch' = ring_size ch \<and> bc_is_closed bc ch' = bc_is_closed bc ch"
    and pop_closed: "items ch = [] \<Longrightarrow> bc_is_closed bc ch \<Longrightarrow> bc_pop bc ch = Ret (Bc_closed, None, ch)"
    and pop_empty: "items ch = [] \<Longrightarrow> \<not> bc_is_closed bc ch \<Longrightarrow> bc_pop bc ch = Suspended"
    and value_pop_item: "items ch = x # xs \<Longrightarrow>
      \<exists>ch'. bc_value_pop bc ch = Ret (x, ch') \<and> items ch' = xs
        \<and> ring_size ch' = ring_size ch \<and> bc_is_closed bc ch' = bc_is_closed bc ch"
    and value_pop_closed: "items ch = [] \<Longrightarrow> bc_is_closed bc ch \<Longrightarrow>
      \<exists>e w. bc_value_pop bc ch = Throw (System_error e w)"
    and value_pop_empty: "items ch = [] \<Longrightarrow> \<not> bc_is_closed bc ch \<Longrightarrow> bc_value_pop bc ch = Suspended"
    and try_pop_item: "items ch = x # xs \<Longrightarrow>
      \<exists>ch'. bc_try_pop bc ch = (Bc_success, Some x, ch') \<and> items ch' = xs
        \<and> ring_size ch' = ring_size ch \<and> bc_is_closed bc ch' = bc_is_closed bc ch"
    and try_pop_closed: "items ch = [] \<Longrightarrow> bc_is_closed bc ch \<Longrightarrow>
      bc_try_pop bc ch = (Bc_closed, None, ch)"
    and try_pop_empty: "items ch = [] \<Longrightarrow> \<not> bc_is_closed bc ch \<Longrightarrow>
      bc_try_pop bc ch = (Bc_empty, None, ch)"
    and close_closed: "bc_is_closed bc (bc_close bc ch)"
    and close_items: "items (bc_close bc ch) = items ch"
    and close_size: "ring_size (bc_close bc ch) = ring_size ch"

subsection \<open>The abstract specification: a bounded queue\<close>

record 'a fifo =
  f_items :: "'a list"
  f_limit :: nat
  f_closed :: bool

datatype 'a chan_op = Op_push 'a | Op_try_push 'a | Op_pop | Op_try_pop | Op_close

fun fifo_exec :: "'a fifo \<Rightarrow> 'a chan_op \<Rightarrow> (channel_op_status \<times> 'a option \<times> 'a fifo) outcome" where
  "fifo_exec q (Op_push v) =
     (if f_closed q then Ret (Ch_closed, None, q)
      else if length (f_items q) < f_limit q then Ret (Ch_success, None, q\<lparr>f_items := f_items q @ [v]\<rparr>)
      else Suspended)"
| "fifo_exec q (Op_try_push v) =
     (if f_closed q then Ret (Ch_closed, None, q)
      else if length (f_items q) < f_limit q then Ret (Ch_success, None, q\<lparr>f_items := f_items q @ [v]\<rparr>)
      else Ret (Ch_full, None, q))"
| "fifo_exec q Op_pop =
     (case f_items q of
        x # xs \<Rightarrow> Ret (Ch_success, Some x, q\<lparr>f_items := xs\<rparr>)
      | [] \<Rightarrow> if f_closed q then Ret (Ch_closed, None, q) else Suspended)"
| "fifo_exec q Op_try_pop =
     (case f_items q of
        x # xs \<Rightarrow> Ret (Ch_success, Some x, q\<lparr>f_items := xs\<rparr>)
      | [] \<Rightarrow> Ret (if f_closed q then Ch_closed else Ch_empty, None, q))"
| "fifo_exec q Op_close = Ret (Ch_success, None, q\<lparr>f_closed := True\<rparr>)"

fun channel_exec ::
  "('c, 'a) boost_channel \<Rightarrow> 'c \<Rightarrow> 'a chan_op \<Rightarrow> (channel_op_status \<times> 'a option \<times> 'c) outcome" where
  "channel_exec bc ch (Op_push v) = map_outcome_state (\<lambda>(s, ch'). (s, None, ch')) (channel_push bc ch v)"
| "channel_exec bc ch (Op_try_push v) = (case channel_try_push bc ch v of (s, ch') \<Rightarrow> Ret (s, None, ch'))"
| "channel_exec bc ch Op_pop = channel_pop bc ch"
| "channel_exec bc ch Op_try_pop = Ret (channel_try_pop bc ch)"
| "channel_exec bc ch Op_close = Ret (Ch_success, None, channel_close bc ch)"

text \<open>
  A run of operations by one fiber: the observations (status and popped value) up to the
  end, or up to the operation that suspends.
\<close>

fun run_ops ::
  "('q \<Rightarrow> 'a chan_op \<Rightarrow> (channel_op_status \<times> 'a option \<times> 'q) outcome) \<Rightarrow> 'q \<Rightarrow> 'a chan_op list \<Rightarrow>
   (channel_op_status \<times> 'a option) list \<times> bool" where
  "run_ops ex q [] = ([], True)"
| "run_ops ex q (a # as) =
     (case ex q a of
        Ret (s, v, q') \<Rightarrow> (case run_ops ex q' as of (os, fin) \<Rightarrow> ((s, v) # os, fin))
      | _ \<Rightarrow> ([], False))"

subsection \<open>The interface the library's clients use\<close>

text \<open>
  The operations are those of \<open>channel<T>\<close>; \<open>view\<close> reads a channel as a bounded queue. Each
  operation does on the channel what the specification does on its view.
\<close>

definition refines_out ::
  "('c \<Rightarrow> 'q) \<Rightarrow> (channel_op_status \<times> 'a option \<times> 'c) outcome \<Rightarrow>
   (channel_op_status \<times> 'a option \<times> 'q) outcome \<Rightarrow> bool" where
  "refines_out view cr ar \<longleftrightarrow> map_outcome_state (\<lambda>(s, v, ch). (s, v, view ch)) cr = ar"

locale bounded_channel =
  fixes push :: "'c \<Rightarrow> 'a \<Rightarrow> (channel_op_status \<times> 'c) outcome"
    and try_push :: "'c \<Rightarrow> 'a \<Rightarrow> channel_op_status \<times> 'c"
    and pop :: "'c \<Rightarrow> (channel_op_status \<times> 'a option \<times> 'c) outcome"
    and close :: "'c \<Rightarrow> 'c"
    and view :: "'c \<Rightarrow> 'a fifo"
  assumes push_refines:
      "refines_out view (map_outcome_state (\<lambda>(s, ch'). (s, None, ch')) (push ch v))
        (fifo_exec (view ch) (Op_push v))"
    and try_push_refines:
      "refines_out view (case try_push ch v of (s, ch') \<Rightarrow> Ret (s, None, ch'))
        (fifo_exec (view ch) (Op_try_push v))"
    and pop_refines: "refines_out view (pop ch) (fifo_exec (view ch) Op_pop)"
    and close_refines:
      "refines_out view (Ret (Ch_success, None, close ch)) (fifo_exec (view ch) Op_close)"
begin

lemma push_succeeds:
  assumes "\<not> f_closed (view ch)" and "length (f_items (view ch)) < f_limit (view ch)"
  obtains ch' where "push ch v = Ret (Ch_success, ch')"
    and "view ch' = (view ch)\<lparr>f_items := f_items (view ch) @ [v]\<rparr>"
  using push_refines [of ch v] assms
  by (auto simp: refines_out_def outcome_simps)

lemma push_blocks:
  assumes "\<not> f_closed (view ch)" and "\<not> length (f_items (view ch)) < f_limit (view ch)"
  shows "push ch v = Suspended"
  using push_refines [of ch v] assms
  by (cases "push ch v") (auto simp: refines_out_def)

lemma push_after_close:
  assumes "f_closed (view ch)"
  obtains ch' where "push ch v = Ret (Ch_closed, ch')" and "view ch' = view ch"
  using push_refines [of ch v] assms
  by (auto simp: refines_out_def outcome_simps)

lemma try_push_succeeds:
  assumes "\<not> f_closed (view ch)" and "length (f_items (view ch)) < f_limit (view ch)"
  obtains ch' where "try_push ch v = (Ch_success, ch')"
    and "view ch' = (view ch)\<lparr>f_items := f_items (view ch) @ [v]\<rparr>"
  using try_push_refines [of ch v] assms
  by (cases "try_push ch v") (auto simp: refines_out_def)

lemma pop_succeeds:
  assumes "f_items (view ch) = x # xs"
  obtains ch' where "pop ch = Ret (Ch_success, Some x, ch')"
    and "view ch' = (view ch)\<lparr>f_items := xs\<rparr>"
  using pop_refines [of ch] assms
  by (auto simp: refines_out_def outcome_simps)

lemma pop_blocks:
  assumes "f_items (view ch) = []" and "\<not> f_closed (view ch)"
  shows "pop ch = Suspended"
  using pop_refines [of ch] assms
  by (cases "pop ch") (auto simp: refines_out_def)

lemma pop_after_close:
  assumes "f_items (view ch) = []" and "f_closed (view ch)"
  obtains ch' where "pop ch = Ret (Ch_closed, None, ch')" and "view ch' = view ch"
  using pop_refines [of ch] assms
  by (auto simp: refines_out_def outcome_simps)

text \<open>What a returned call did, by cases on the view.\<close>

lemma push_returned:
  assumes "push ch v = Ret (st, ch')" and "\<not> f_closed (view ch)"
  shows "st = Ch_success \<and> length (f_items (view ch)) < f_limit (view ch) \<and> view ch' = (view ch)\<lparr>f_items := f_items (view ch) @ [v]\<rparr>"
  using assms push_blocks [of ch v] push_succeeds [of ch v]
  by (cases "length (f_items (view ch)) < f_limit (view ch)") fastforce+

lemma pop_returned:
  assumes "pop ch = Ret (st, v, ch')"
  shows "(\<exists>x xs. f_items (view ch) = x # xs \<and> st = Ch_success \<and> v = Some x \<and> view ch' = (view ch)\<lparr>f_items := xs\<rparr>)
    \<or> (f_items (view ch) = [] \<and> f_closed (view ch) \<and> st = Ch_closed \<and> v = None \<and> view ch' = view ch)"
proof (cases "f_items (view ch)")
  case Nil
  then show ?thesis using assms pop_blocks [of ch] pop_after_close [of ch] by (cases "f_closed (view ch)") fastforce+
next
  case (Cons x xs)
  then show ?thesis using assms pop_succeeds [OF Cons] by fastforce
qed

lemma close_view: "view (close ch) = (view ch)\<lparr>f_closed := True\<rparr>"
  using close_refines [of ch] by (simp add: refines_out_def)

end

text \<open>How a Boost channel is read as a bounded queue.\<close>

definition channel_view ::
  "('c, 'a) boost_channel \<Rightarrow> ('c \<Rightarrow> 'a list) \<Rightarrow> ('c \<Rightarrow> nat) \<Rightarrow> 'c \<Rightarrow> 'a fifo" where
  "channel_view bc items ring_size ch =
     \<lparr>f_items = items ch, f_limit = ring_size ch - 1, f_closed = bc_is_closed bc ch\<rparr>"

context boost_buffered_channel
begin

lemma exec_refines:
  "refines_out (channel_view bc items ring_size) (channel_exec bc ch a)
     (fifo_exec (channel_view bc items ring_size ch) a)"
proof (cases a)
  case (Op_push v)
  then show ?thesis
    using push_closed [of ch v] push_room [of ch v] push_full [of ch v]
    by (cases "bc_is_closed bc ch"; cases "length (items ch) < ring_size ch - 1")
      (auto simp: refines_out_def channel_defs channel_view_def)
next
  case (Op_try_push v)
  then show ?thesis
    using try_push_closed [of ch v] try_push_room [of ch v] try_push_full [of ch v]
    by (cases "bc_is_closed bc ch"; cases "length (items ch) < ring_size ch - 1")
      (auto simp: refines_out_def channel_defs channel_view_def)
next
  case Op_pop
  then show ?thesis
    using pop_closed [of ch] pop_empty [of ch] pop_item [of ch]
    by (cases "items ch"; cases "bc_is_closed bc ch")
      (auto simp: refines_out_def channel_defs channel_view_def)
next
  case Op_try_pop
  then show ?thesis
    using try_pop_closed [of ch] try_pop_empty [of ch] try_pop_item [of ch]
    by (cases "items ch"; cases "bc_is_closed bc ch")
      (auto simp: refines_out_def channel_defs channel_view_def)
next
  case Op_close
  then show ?thesis
    by (simp add: refines_out_def channel_defs channel_view_def close_closed close_items close_size)
qed

end

sublocale boost_buffered_channel \<subseteq>
  ch: bounded_channel "channel_push bc" "channel_try_push bc" "channel_pop bc" "channel_close bc"
    "channel_view bc items ring_size"
proof unfold_locales
  fix ch v
  show "refines_out (channel_view bc items ring_size)
      (map_outcome_state (\<lambda>(s, ch'). (s, None, ch')) (channel_push bc ch v))
      (fifo_exec (channel_view bc items ring_size ch) (Op_push v))"
    using exec_refines [of ch "Op_push v"] by simp
  show "refines_out (channel_view bc items ring_size)
      (case channel_try_push bc ch v of (s, ch') \<Rightarrow> Ret (s, None, ch'))
      (fifo_exec (channel_view bc items ring_size ch) (Op_try_push v))"
    using exec_refines [of ch "Op_try_push v"] by simp
  show "refines_out (channel_view bc items ring_size) (channel_pop bc ch)
      (fifo_exec (channel_view bc items ring_size ch) Op_pop)"
    using exec_refines [of ch Op_pop] by simp
  show "refines_out (channel_view bc items ring_size) (Ret (Ch_success, None, channel_close bc ch))
      (fifo_exec (channel_view bc items ring_size ch) Op_close)"
    using exec_refines [of ch Op_close] by simp
qed

context boost_buffered_channel
begin

lemma is_bounded_channel:
  "bounded_channel (channel_push bc) (channel_try_push bc) (channel_pop bc) (channel_close bc)
     (channel_view bc items ring_size)"
  by (rule ch.bounded_channel_axioms)

lemma new_channel:
  assumes "1 \<le> capacity" and "capacity < 2 ^ 63"
  obtains ch where "channel_new bc capacity = Ret ch"
    and "channel_view bc items ring_size ch =
      \<lparr>f_items = [], f_limit = bit_ceil (Suc capacity) - 1, f_closed = False\<rparr>"
proof -
  have small: "capacity + 1 < size_t_mod"
    using assms by (simp add: size_t_mod_def)
  have "2 \<le> bit_ceil (Suc capacity)" using assms by (intro bit_ceil_mono_2) simp
  then obtain ch where "bc_new bc (bit_ceil (Suc capacity)) = Ret ch" "items ch = []"
      "ring_size ch = bit_ceil (Suc capacity)" "\<not> bc_is_closed bc ch"
    using new_ok [of "bit_ceil (Suc capacity)"] by auto
  moreover have "channel_new bc capacity = bc_new bc (bit_ceil (Suc capacity))"
    using assms small by (simp add: channel_new_def size_add_def)
  ultimately show ?thesis using that by (simp add: channel_view_def)
qed

lemma new_channel_zero: "\<exists>w. channel_new bc 0 = Throw (System_error EINVAL w)"
proof -
  have "bit_ceil 1 = 1" using bit_ceil_power [of 0] by simp
  then show ?thesis using new_bad [of 1]
    by (simp add: channel_new_def size_add_def size_t_mod_def)
qed

lemma run_refines:
  "run_ops (channel_exec bc) ch as = run_ops fifo_exec (channel_view bc items ring_size ch) as"
proof (induction as arbitrary: ch)
  case Nil
  then show ?case by simp
next
  case (Cons a as)
  show ?case using exec_refines [of ch a, unfolded refines_out_def, symmetric]
    by (cases "channel_exec bc ch a") (auto simp: Cons.IH)
qed

text \<open>
  \<open>value_pop()\<close> takes the same item as \<open>pop(v)\<close>; where \<open>pop\<close> reports a closed channel it
  throws.
\<close>

lemma value_pop_agrees:
  "(case channel_value_pop bc ch of
      Ret (x, ch') \<Rightarrow> (\<exists>ch''. channel_pop bc ch = Ret (Ch_success, Some x, ch'')
        \<and> channel_view bc items ring_size ch'' = channel_view bc items ring_size ch')
    | Throw e \<Rightarrow> (\<exists>n w. e = System_error n w) \<and> channel_pop bc ch = Ret (Ch_closed, None, ch)
    | Suspended \<Rightarrow> channel_pop bc ch = Suspended
    | Undefined u \<Rightarrow> False)"
proof (cases "items ch")
  case Nil
  then show ?thesis
    using value_pop_closed [of ch] value_pop_empty [of ch] pop_closed [of ch] pop_empty [of ch]
    by (cases "bc_is_closed bc ch") (auto simp: channel_defs)
next
  case (Cons x xs)
  then show ?thesis
    using value_pop_item [of ch x xs] pop_item [of ch x xs]
    by (auto simp: channel_defs channel_view_def)
qed

end

subsection \<open>A reference channel\<close>

text \<open>
  The smallest implementation of the documented behaviour, on which the Boost contract is
  interpreted; witnesses evaluate on it.
\<close>

record 'a ref_chan =
  rc_items :: "'a list"
  rc_size :: nat
  rc_closed :: bool

definition ref_boost :: "('a ref_chan, 'a) boost_channel" where
  "ref_boost = \<lparr>
     bc_new = (\<lambda>n. if 2 \<le> n \<and> is_pow2 n then Ret \<lparr>rc_items = [], rc_size = n, rc_closed = False\<rparr>
                   else Throw (System_error EINVAL ''boost fiber: buffer capacity is invalid'')),
     bc_push = (\<lambda>c v. if rc_closed c then Ret (Bc_closed, c)
                   else if length (rc_items c) < rc_size c - 1
                   then Ret (Bc_success, c\<lparr>rc_items := rc_items c @ [v]\<rparr>) else Suspended),
     bc_try_push = (\<lambda>c v. if rc_closed c then (Bc_closed, c)
                   else if length (rc_items c) < rc_size c - 1
                   then (Bc_success, c\<lparr>rc_items := rc_items c @ [v]\<rparr>) else (Bc_full, c)),
     bc_pop = (\<lambda>c. case rc_items c of x # xs \<Rightarrow> Ret (Bc_success, Some x, c\<lparr>rc_items := xs\<rparr>)
                   | [] \<Rightarrow> if rc_closed c then Ret (Bc_closed, None, c) else Suspended),
     bc_value_pop = (\<lambda>c. case rc_items c of x # xs \<Rightarrow> Ret (x, c\<lparr>rc_items := xs\<rparr>)
                   | [] \<Rightarrow> if rc_closed c then Throw (System_error 1 ''boost fiber: channel is closed'')
                          else Suspended),
     bc_try_pop = (\<lambda>c. case rc_items c of x # xs \<Rightarrow> (Bc_success, Some x, c\<lparr>rc_items := xs\<rparr>)
                   | [] \<Rightarrow> if rc_closed c then (Bc_closed, None, c) else (Bc_empty, None, c)),
     bc_close = (\<lambda>c. c\<lparr>rc_closed := True\<rparr>),
     bc_is_closed = rc_closed\<rparr>"

lemmas ref_boost_simps = ref_boost_def [THEN arg_cong [where f = bc_new], simplified]
  ref_boost_def [THEN arg_cong [where f = bc_push], simplified]
  ref_boost_def [THEN arg_cong [where f = bc_try_push], simplified]
  ref_boost_def [THEN arg_cong [where f = bc_pop], simplified]
  ref_boost_def [THEN arg_cong [where f = bc_value_pop], simplified]
  ref_boost_def [THEN arg_cong [where f = bc_try_pop], simplified]
  ref_boost_def [THEN arg_cong [where f = bc_close], simplified]
  ref_boost_def [THEN arg_cong [where f = bc_is_closed], simplified]

interpretation ref_bc: boost_buffered_channel ref_boost rc_items rc_size
  by unfold_locales (auto simp: ref_boost_def split: list.splits)

subsection \<open>Properties\<close>

text \<open>
  Capacity of a channel. Over any Boost channel with the documented behaviour,
  constructing \<open>channel(capacity)\<close> with a capacity from 1 to \<open>2 ^ 63 - 1\<close> succeeds with an
  empty open channel that takes \<open>bit_ceil(capacity + 1) - 1\<close> items before a push suspends;
  that limit is at least the requested capacity and at most twice it. A capacity of 0 is
  rejected by the Boost constructor with an invalid-argument system error.
\<close>

lemma channel_capacity:
  assumes "boost_buffered_channel bc items ring_size" and "capacity < 2 ^ 63"
  shows "if capacity = 0
    then \<exists>w. channel_new bc capacity = Throw (System_error EINVAL w)
    else \<exists>ch lim. channel_new bc capacity = Ret ch
      \<and> channel_view bc items ring_size ch = \<lparr>f_items = [], f_limit = lim, f_closed = False\<rparr>
      \<and> capacity \<le> lim \<and> lim \<le> 2 * capacity"
proof (cases "capacity = 0")
  case True
  then show ?thesis using boost_buffered_channel.new_channel_zero [OF assms(1)] by simp
next
  case False
  then have "1 \<le> capacity" by simp
  from boost_buffered_channel.new_channel [OF assms(1) this assms(2)]
  obtain ch where "channel_new bc capacity = Ret ch" and "channel_view bc items ring_size ch =
      \<lparr>f_items = [], f_limit = bit_ceil (Suc capacity) - 1, f_closed = False\<rparr>" by blast
  moreover have "capacity \<le> bit_ceil (Suc capacity) - 1"
    using bit_ceil_ge [of "Suc capacity"] by simp
  moreover have "bit_ceil (Suc capacity) - 1 \<le> 2 * capacity"
    using bit_ceil_less [of "Suc capacity"] False by simp
  ultimately show ?thesis using False by simp
qed

text \<open>
  C39. The channel is a bounded FIFO queue. Over any Boost channel with the documented
  behaviour, every sequence of push, try\_push, pop, try\_pop and close on a fresh
  \<open>channel(capacity)\<close> gives exactly the statuses and values of the abstract bounded queue,
  up to the same suspending operation: items come out in the order they went in, once
  each; a full channel suspends push and refuses try\_push; after close pushes return
  closed and pops drain the remaining items and then return closed.
\<close>

theorem channel_refines_fifo:
  assumes "boost_buffered_channel bc items ring_size" and "1 \<le> capacity" and "capacity < 2 ^ 63"
  shows "\<exists>ch. channel_new bc capacity = Ret ch \<and>
    run_ops (channel_exec bc) ch ops =
    run_ops fifo_exec \<lparr>f_items = [], f_limit = bit_ceil (Suc capacity) - 1, f_closed = False\<rparr> ops"
  using boost_buffered_channel.new_channel [OF assms]
    boost_buffered_channel.run_refines [OF assms(1)] by metis

theorem channel_refines_fifo_witness:
  "\<exists>ch. channel_new ref_boost 1 = Ret ch \<and>
    run_ops (channel_exec ref_boost) ch [Op_push (7::nat), Op_try_push 8, Op_close, Op_try_push 9, Op_pop, Op_pop] =
    ([(Ch_success, None), (Ch_full, None), (Ch_success, None), (Ch_closed, None), (Ch_success, Some 7), (Ch_closed, None)], True)"
proof -
  have lim: "bit_ceil (Suc 1) - 1 = 1" using bit_ceil_power [of 1] by (simp add: numeral_2_eq_2)
  show ?thesis
    using channel_refines_fifo [OF ref_bc.boost_buffered_channel_axioms, of 1
      "[Op_push (7::nat), Op_try_push 8, Op_close, Op_try_push 9, Op_pop, Op_pop]"]
    unfolding lim by simp
qed

end
