(* ===== verification/Uring.thy ===== *)
theory Uring
  imports Prelude
begin

text \<open>
  The io\_uring vocabulary of the sources: submission and completion queue entries, the ring
  as the library sees it, the unified file-descriptor argument of
  \<open>include/fiberexec/fd_ref.hpp\<close>, stop tokens and promises.

  liburing and the kernel are not part of the sources. What their calls answer is a
  parameter of the definitions: the record \<open>liburing\<close> says whether \<open>io_uring_get_sqe\<close>
  returns a free entry and what \<open>io_uring_submit\<close> returns, as functions of the ring. The
  ring itself keeps what the library did with it: \<open>sq\<close> are the entries acquired since the
  last successful submit, \<open>inflight\<close> those handed to the kernel whose final completion has
  not been seen, \<open>cq\<close> the completions waiting to be drained. An \<open>io_uring_sqe*\<close> is an index
  into \<open>sq\<close>; the null pointer is \<open>None\<close>.
\<close>

subsection \<open>Requests, entries, rings\<close>

text \<open>One constructor per \<open>io_uring_prep_*\<close> call of the sources, with the arguments passed.\<close>

datatype request =
    Rq_none
  | Rq_read int nat u32 u64
  | Rq_write int nat u32 u64
  | Rq_accept int nat nat int
  | Rq_openat int string int nat
  | Rq_close int
  | Rq_connect int nat nat
  | Rq_recv int nat nat int
  | Rq_send int nat nat int
  | Rq_fsync int
  | Rq_timeout timespec
  | Rq_link_timeout timespec
  | Rq_cancel u64
  | Rq_send_zc_fixed int nat nat int u16
  | Rq_recv_multishot int
  | Rq_accept_multishot int nat nat int

record sqe =
  sqe_req :: request
  sqe_flags :: u8
  sqe_buf_group :: u16
  sqe_user_data :: u64

record cqe =
  cqe_user_data :: u64
  cqe_res :: int
  cqe_flags :: u32

record uring =
  sq :: "sqe list"
  inflight :: "sqe list"
  cq :: "cqe list"

record liburing =
  lu_sqe_available :: "uring \<Rightarrow> bool"
  lu_submit_ret :: "uring \<Rightarrow> int"

definition blank_sqe :: sqe where
  "blank_sqe = \<lparr>sqe_req = Rq_none, sqe_flags = 0, sqe_buf_group = 0, sqe_user_data = 0\<rparr>"

definition empty_uring :: uring where
  "empty_uring = \<lparr>sq = [], inflight = [], cq = []\<rparr>"

definition io_uring_get_sqe :: "liburing \<Rightarrow> uring \<Rightarrow> nat option \<times> uring" where
  "io_uring_get_sqe lu r =
     (if lu_sqe_available lu r then (Some (length (sq r)), r\<lparr>sq := sq r @ [blank_sqe]\<rparr>) else (None, r))"

text \<open>Writing through an \<open>io_uring_sqe*\<close>: undefined when the pointer is null.\<close>

definition edit_sqe :: "nat option \<Rightarrow> (sqe \<Rightarrow> sqe) \<Rightarrow> uring \<Rightarrow> uring outcome" where
  "edit_sqe p f r =
     (case p of None \<Rightarrow> Undefined Null_deref | Some i \<Rightarrow> Ret (r\<lparr>sq := (sq r)[i := f (sq r ! i)]\<rparr>))"

text \<open>
  \<open>io_uring_submit\<close>: a negative result leaves the acquired entries where they are, otherwise
  all of them are handed to the kernel in order.
\<close>

definition io_uring_submit :: "liburing \<Rightarrow> uring \<Rightarrow> int \<times> uring" where
  "io_uring_submit lu r =
     (if lu_submit_ret lu r < 0 then (lu_submit_ret lu r, r)
      else (lu_submit_ret lu r, r\<lparr>inflight := inflight r @ sq r, sq := []\<rparr>))"

text \<open>The documented behaviour of a submission queue with \<open>n\<close> entries that never fails to submit.\<close>

definition sq_of_size :: "nat \<Rightarrow> liburing" where
  "sq_of_size n = \<lparr>lu_sqe_available = (\<lambda>r. length (sq r) < n), lu_submit_ret = (\<lambda>r. int (length (sq r)))\<rparr>"

lemma edit_sqe_fresh:
  "edit_sqe (Some (length (sq r))) f (r\<lparr>sq := sq r @ [e]\<rparr>) = Ret (r\<lparr>sq := sq r @ [f e]\<rparr>)"
  by (simp add: edit_sqe_def)

lemma edit_sqe_last [simp]:
  "edit_sqe (Some (length xs)) f (r\<lparr>sq := xs @ [e]\<rparr>) = Ret (r\<lparr>sq := xs @ [f e]\<rparr>)"
  by (simp add: edit_sqe_def)

lemma edit_sqe_None [simp]: "edit_sqe None f r = Undefined Null_deref"
  by (simp add: edit_sqe_def)

subsection \<open>Tags and cancellation\<close>

text \<open>
  The three sentinel values of \<open>user_data\<close> that are not handler addresses, and
  \<open>detail::submit_cancel\<close>, which gives up silently without a ring or a free entry.
\<close>

definition k_work_tag :: u64 where "k_work_tag = 0"
definition k_notify_tag :: u64 where "k_notify_tag = 1"
definition k_cancel_tag :: u64 where "k_cancel_tag = 2"

lemmas tag_defs = k_work_tag_def k_notify_tag_def k_cancel_tag_def

definition cancel_sqe :: "u64 \<Rightarrow> sqe \<Rightarrow> sqe" where
  "cancel_sqe target s = s\<lparr>sqe_req := Rq_cancel target, sqe_user_data := k_cancel_tag\<rparr>"

definition submit_cancel :: "liburing \<Rightarrow> u64 \<Rightarrow> uring option \<Rightarrow> uring option outcome" where
  "submit_cancel lu handler tl_ring =
     (case tl_ring of
        None \<Rightarrow> Ret None
      | Some r \<Rightarrow> (case io_uring_get_sqe lu r of
          (None, r1) \<Rightarrow> Ret (Some r1)
        | (Some i, r1) \<Rightarrow> bind_outcome (edit_sqe (Some i) (cancel_sqe handler) r1) (\<lambda>r2.
            Ret (Some (snd (io_uring_submit lu r2))))))"

text \<open>Acquiring an entry, filling it and submitting, when the queue has room.\<close>

lemma get_edit_submit:
  assumes "lu_sqe_available lu r"
  shows "io_uring_get_sqe lu r = (Some (length (sq r)), r\<lparr>sq := sq r @ [blank_sqe]\<rparr>)"
    and "edit_sqe (Some (length (sq r))) f (r\<lparr>sq := sq r @ [blank_sqe]\<rparr>) = Ret (r\<lparr>sq := sq r @ [f blank_sqe]\<rparr>)"
  using assms by (simp_all add: io_uring_get_sqe_def)

lemma get_sqe_full: "\<not> lu_sqe_available lu r \<Longrightarrow> io_uring_get_sqe lu r = (None, r)"
  by (simp add: io_uring_get_sqe_def)

lemma submit_ok:
  "0 \<le> lu_submit_ret lu r \<Longrightarrow> io_uring_submit lu r = (lu_submit_ret lu r, r\<lparr>inflight := inflight r @ sq r, sq := []\<rparr>)"
  by (simp add: io_uring_submit_def)

lemma submit_fails: "lu_submit_ret lu r < 0 \<Longrightarrow> io_uring_submit lu r = (lu_submit_ret lu r, r)"
  by (simp add: io_uring_submit_def)

subsection \<open>\<open>fd_ref\<close>\<close>

record fixed_fd =
  fixed_index :: int

record fd_ref =
  fd_index :: int
  fd_fixed :: bool

definition fd_ref_of_int :: "int \<Rightarrow> fd_ref" where
  "fd_ref_of_int fd = \<lparr>fd_index = fd, fd_fixed = False\<rparr>"

definition fd_ref_of_fixed :: "fixed_fd \<Rightarrow> fd_ref" where
  "fd_ref_of_fixed fd = \<lparr>fd_index = fixed_index fd, fd_fixed = True\<rparr>"

text \<open>The flag every descriptor-taking operation sets: \<open>if (fd.fixed) sqe->flags |= IOSQE_FIXED_FILE\<close>.\<close>

definition fixed_file_flag :: "fd_ref \<Rightarrow> u8 \<Rightarrow> u8" where
  "fixed_file_flag fd flags = (if fd_fixed fd then flags OR IOSQE_FIXED_FILE else flags)"

subsection \<open>Stop tokens and promises\<close>

text \<open>What a \<open>std::stop_token\<close> answers at one moment; the default-constructed token has no state.\<close>

record stop_token =
  stop_possible :: bool
  stop_requested :: bool

definition no_token :: stop_token where
  "no_token = \<lparr>stop_possible = False, stop_requested = False\<rparr>"

text \<open>
  A \<open>boost::fibers::promise\<close>: the value once set, and the fiber blocked in \<open>future.get()\<close>.
  Setting a second value throws \<open>promise_already_satisfied\<close>; every \<open>set_value\<close> of the sources
  is called from a \<open>noexcept\<close> function, where that terminates the program.
\<close>

record 'a promise =
  p_value :: "'a option"
  p_fiber :: "nat option"

definition promise_set_value :: "'a promise \<Rightarrow> 'a \<Rightarrow> 'a promise outcome" where
  "promise_set_value p v =
     (case p_value p of None \<Rightarrow> Ret (p\<lparr>p_value := Some v\<rparr>) | Some _ \<Rightarrow> Undefined Promise_satisfied)"

end
