(* ===== verification/Fixed_Buffer_Pool.thy ===== *)
theory Fixed_Buffer_Pool
  imports Ownership Channel Uring
begin

text \<open>
  \<open>include/fiberexec/fixed_buffer_pool.hpp\<close> and \<open>src/fixed_buffer_pool.cpp\<close>: the pool of
  registered buffers with its channel of free indices, the move-only handle
  \<open>fixed_buffer\<close>, and the two-phase completion handler of a zero-copy send.

  \<open>io_uring_register_buffers\<close> is a parameter (\<open>reg\<close>, its return value for the
  iovecs and their 32-bit count); the Boost channel under the free list is the parameter \<open>bc\<close>. The heap address of
  the storage vector is the parameter \<open>base\<close>. Handle objects live in a store by address, so
  that self-assignment and moved-from handles are represented.
\<close>

subsection \<open>The pool\<close>

record 'c fixed_buffer_pool =
  fb_ring :: bool
  buf_size :: nat
  buf_count :: nat
  storage :: span
  free_list :: 'c
  registered :: "span list"

definition vector_max_size :: nat where "vector_max_size = 2 ^ 63 - 1"
definition sizeof_iovec :: nat where "sizeof_iovec = 16"

text \<open>The loop that cuts the storage into one iovec per buffer.\<close>

fun fbp_iovecs :: "span \<Rightarrow> nat \<Rightarrow> nat list \<Rightarrow> span list outcome" where
  "fbp_iovecs st bsz [] = Ret []"
| "fbp_iovecs st bsz (i # is) =
     bind_outcome (subspan st (size_mul i bsz) bsz) (\<lambda>sl.
       bind_outcome (fbp_iovecs st bsz is) (\<lambda>rest. Ret (sl # rest)))"

text \<open>The loop that fills the free list; the status of each push is discarded.\<close>

fun fbp_fill :: "('c, u16) boost_channel \<Rightarrow> 'c \<Rightarrow> u16 list \<Rightarrow> 'c outcome" where
  "fbp_fill bc ch [] = Ret ch"
| "fbp_fill bc ch (i # is) = bind_outcome (channel_push bc ch i) (\<lambda>(_, ch'). fbp_fill bc ch' is)"

definition fixed_buffer_pool_ctor ::
  "('c, u16) boost_channel \<Rightarrow> (span list \<Rightarrow> u32 \<Rightarrow> int) \<Rightarrow> bool \<Rightarrow> nat \<Rightarrow> nat \<Rightarrow> nat \<Rightarrow>
   'c fixed_buffer_pool outcome" where
  "fixed_buffer_pool_ctor bc reg has_ring base bsz bcnt =
     (if 2 ^ 63 < bcnt then Undefined Bit_ceil_range else
      let count = max (bit_ceil bcnt) 2; total = size_mul bsz count in
      if vector_max_size < total then Throw Length_error else
      let st = \<lparr>sp_data = base, sp_size = total\<rparr> in
      bind_outcome (channel_new bc count) (\<lambda>ch.
        if bsz = 0 \<or> count = 0
        then Throw (Invalid_argument ''fixed_buffer_pool: buf_size and buf_count must be non-zero'')
        else if \<not> has_ring
        then Throw (Runtime_error ''fixed_buffer_pool constructed outside of a fiberexec worker thread'')
        else if vector_max_size div sizeof_iovec < count then Throw Length_error
        else bind_outcome (fbp_iovecs st bsz [0..<count]) (\<lambda>iovecs.
          if reg iovecs (word_of_nat count) < 0
          then Throw (System_error (- reg iovecs (word_of_nat count)) ''io_uring_register_buffers'')
          else bind_outcome (fbp_fill bc ch (map word_of_nat [0..<count mod 2 ^ 16])) (\<lambda>ch'.
            Ret \<lparr>fb_ring = True, buf_size = bsz, buf_count = count, storage = st, free_list = ch',
                 registered = iovecs\<rparr>))))"

definition fixed_buffer_pool_dtor ::
  "('c, u16) boost_channel \<Rightarrow> 'c fixed_buffer_pool \<Rightarrow> 'c fixed_buffer_pool" where
  "fixed_buffer_pool_dtor bc p =
     (let p' = p\<lparr>free_list := channel_close bc (free_list p)\<rparr>
      in if fb_ring p' then p'\<lparr>registered := []\<rparr> else p')"

definition return_buffer ::
  "('c, u16) boost_channel \<Rightarrow> u16 \<Rightarrow> 'c fixed_buffer_pool \<Rightarrow> 'c fixed_buffer_pool outcome" where
  "return_buffer bc idx p =
     bind_outcome (channel_push bc (free_list p) idx) (\<lambda>(_, ch). Ret (p\<lparr>free_list := ch\<rparr>))"

definition borrow ::
  "('c, u16) boost_channel \<Rightarrow> 'c fixed_buffer_pool \<Rightarrow> (u16 \<times> 'c fixed_buffer_pool) outcome" where
  "borrow bc p =
     bind_outcome (channel_pop bc (free_list p)) (\<lambda>(status, v, ch).
       if status \<noteq> Ch_success then Throw (Runtime_error ''fixed_buffer_pool: pool closed'')
       else Ret (case v of Some idx \<Rightarrow> idx | None \<Rightarrow> 0, p\<lparr>free_list := ch\<rparr>))"

subsection \<open>The handle \<open>fixed_buffer\<close>\<close>

record fixed_buffer =
  fb_pool :: bool
  fb_idx :: u16

text \<open>
  The world of one worker thread: its pool and the live handle objects by address. A null
  \<open>pool_\<close> is \<open>False\<close>.
\<close>

record 'c fb_world =
  fb_the_pool :: "'c fixed_buffer_pool"
  fb_objs :: "nat \<Rightarrow> fixed_buffer option"

definition fixed_buffer_new :: "u16 \<Rightarrow> fixed_buffer" where
  "fixed_buffer_new idx = \<lparr>fb_pool = True, fb_idx = idx\<rparr>"

definition borrow_fixed_buffer ::
  "('c, u16) boost_channel \<Rightarrow> nat \<Rightarrow> bool \<Rightarrow> 'c fb_world \<Rightarrow> 'c fb_world outcome" where
  "borrow_fixed_buffer bc a configured w =
     (if \<not> configured
      then Throw (Runtime_error ''borrow_fixed_buffer called without fixed_buffer_size/fixed_buffer_count configured in context_options'')
      else bind_outcome (borrow bc (fb_the_pool w)) (\<lambda>(idx, p).
        Ret (w\<lparr>fb_the_pool := p, fb_objs := (fb_objs w)(a \<mapsto> fixed_buffer_new idx)\<rparr>)))"

definition fixed_buffer_move_ctor :: "nat \<Rightarrow> nat \<Rightarrow> 'c fb_world \<Rightarrow> 'c fb_world outcome" where
  "fixed_buffer_move_ctor dst src w =
     (case fb_objs w src of
        None \<Rightarrow> Undefined Dangling_handler
      | Some oth \<Rightarrow> Ret (w\<lparr>fb_objs := (fb_objs w)(src \<mapsto> oth\<lparr>fb_pool := False\<rparr>, dst \<mapsto> oth)\<rparr>))"

text \<open>The release both the destructor and the assignment perform on their own index.\<close>

definition fixed_buffer_release ::
  "('c, u16) boost_channel \<Rightarrow> fixed_buffer \<Rightarrow> 'c fb_world \<Rightarrow> 'c fb_world outcome" where
  "fixed_buffer_release bc b w =
     (if fb_pool b
      then bind_outcome (return_buffer bc (fb_idx b) (fb_the_pool w)) (\<lambda>p. Ret (w\<lparr>fb_the_pool := p\<rparr>))
      else Ret w)"

definition fixed_buffer_move_assign ::
  "('c, u16) boost_channel \<Rightarrow> nat \<Rightarrow> nat \<Rightarrow> 'c fb_world \<Rightarrow> 'c fb_world outcome" where
  "fixed_buffer_move_assign bc dst src w =
     (if dst = src then Ret w else
      (case (fb_objs w dst, fb_objs w src) of
         (Some me, Some oth) \<Rightarrow>
           bind_outcome (fixed_buffer_release bc me w) (\<lambda>w1.
             Ret (w1\<lparr>fb_objs := (fb_objs w1)(src \<mapsto> oth\<lparr>fb_pool := False\<rparr>, dst \<mapsto> oth)\<rparr>))
       | _ \<Rightarrow> Undefined Dangling_handler))"

definition fixed_buffer_dtor ::
  "('c, u16) boost_channel \<Rightarrow> nat \<Rightarrow> 'c fb_world \<Rightarrow> 'c fb_world outcome" where
  "fixed_buffer_dtor bc a w =
     (case fb_objs w a of
        None \<Rightarrow> Undefined Dangling_handler
      | Some b \<Rightarrow> bind_outcome (fixed_buffer_release bc b w) (\<lambda>w1.
          Ret (w1\<lparr>fb_objs := (fb_objs w1)(a := None)\<rparr>)))"

definition fixed_buffer_data :: "'c fixed_buffer_pool \<Rightarrow> fixed_buffer \<Rightarrow> span outcome" where
  "fixed_buffer_data p b =
     (if fb_pool b then subspan (storage p) (size_mul (unat (fb_idx b)) (buf_size p)) (buf_size p)
      else Undefined Null_deref)"

definition buf_index :: "fixed_buffer \<Rightarrow> u16" where
  "buf_index b = fb_idx b"

subsection \<open>The completion handler of a zero-copy send\<close>

record send_zc_handler =
  zc_promise :: "unit promise"
  zc_result :: int

definition send_zc_new :: "nat \<Rightarrow> send_zc_handler" where
  "send_zc_new fiber = \<lparr>zc_promise = \<lparr>p_value = None, p_fiber = Some fiber\<rparr>, zc_result = 0\<rparr>"

definition send_zc_fulfil :: "send_zc_handler \<Rightarrow> send_zc_handler outcome" where
  "send_zc_fulfil h =
     map_outcome_state (\<lambda>p. h\<lparr>zc_promise := p\<rparr>) (promise_set_value (zc_promise h) ())"

definition send_zc_complete :: "send_zc_handler \<Rightarrow> int \<Rightarrow> u32 \<Rightarrow> send_zc_handler outcome" where
  "send_zc_complete h res flags =
     (if flags AND IORING_CQE_F_NOTIF \<noteq> 0 then send_zc_fulfil h
      else let h' = h\<lparr>zc_result := res\<rparr>
           in if flags AND IORING_CQE_F_MORE = 0 then send_zc_fulfil h' else Ret h')"

text \<open>\<open>wait()\<close>: blocks until the promise is set, then reads the result.\<close>

definition send_zc_wait :: "send_zc_handler \<Rightarrow> int outcome" where
  "send_zc_wait h = (case p_value (zc_promise h) of None \<Rightarrow> Suspended | Some _ \<Rightarrow> Ret (zc_result h))"

subsection \<open>Steps of the handle objects\<close>

text \<open>
  What the fibers of one worker do with buffers: borrow into a new handle, move-construct a
  new handle, move-assign between live handles, destroy a handle.
\<close>

inductive fb_step :: "('c, u16) boost_channel \<Rightarrow> 'c fb_world \<Rightarrow> 'c fb_world outcome \<Rightarrow> bool"
  for bc :: "('c, u16) boost_channel" where
  fs_borrow: "fb_objs w a = None \<Longrightarrow> fb_step bc w (borrow_fixed_buffer bc a True w)"
| fs_move_ctor: "fb_objs w dst = None \<Longrightarrow> fb_objs w src \<noteq> None \<Longrightarrow>
     fb_step bc w (fixed_buffer_move_ctor dst src w)"
| fs_move_assign: "fb_objs w dst \<noteq> None \<Longrightarrow> fb_objs w src \<noteq> None \<Longrightarrow>
     fb_step bc w (fixed_buffer_move_assign bc dst src w)"
| fs_dtor: "fb_objs w a \<noteq> None \<Longrightarrow> fb_step bc w (fixed_buffer_dtor bc a w)"

definition fb_cstep :: "('c, u16) boost_channel \<Rightarrow> 'c fb_world \<Rightarrow> 'c fb_world \<Rightarrow> bool" where
  "fb_cstep bc w w' \<longleftrightarrow> fb_step bc w (Ret w')"

definition buffer_of :: "fixed_buffer \<Rightarrow> u16 option" where
  "buffer_of b = (if fb_pool b then Some (fb_idx b) else None)"

definition fb_own :: "('c \<Rightarrow> u16 fifo) \<Rightarrow> 'c fb_world \<Rightarrow> (u16, nat) own" where
  "fb_own view w = \<lparr>o_free = f_items (view (free_list (fb_the_pool w))),
                    o_held = held_by buffer_of (fb_objs w)\<rparr>"

definition fb_ids :: "'c fb_world \<Rightarrow> u16 set" where
  "fb_ids w = set (map word_of_nat [0..<buf_count (fb_the_pool w)])"

text \<open>The pool is open, its free list has room for every index, and indices fit 16 bits.\<close>

definition fb_ok :: "('c \<Rightarrow> u16 fifo) \<Rightarrow> 'c fb_world \<Rightarrow> bool" where
  "fb_ok view w \<longleftrightarrow> \<not> f_closed (view (free_list (fb_the_pool w)))
     \<and> buf_count (fb_the_pool w) \<le> f_limit (view (free_list (fb_the_pool w)))
     \<and> buf_count (fb_the_pool w) \<le> 2 ^ 16"

lemma card_fb_ids: "buf_count (fb_the_pool w) \<le> 2 ^ 16 \<Longrightarrow> card (fb_ids w) = buf_count (fb_the_pool w)"
  using distinct_card [OF distinct_map_word_of_nat [of "buf_count (fb_the_pool w)", where 'a = 16]]
  by (simp add: fb_ids_def)

lemma finite_fb_ids [simp]: "finite (fb_ids w)"
  by (simp add: fb_ids_def)

text \<open>The pool as a client of the channel interface.\<close>

locale fb_channel =
  bounded_channel "channel_push bc" "channel_try_push bc" "channel_pop bc" "channel_close bc" view
  for bc :: "('c, u16) boost_channel" and view :: "'c \<Rightarrow> u16 fifo"
begin

lemma fill_all:
  assumes "\<not> f_closed (view c)" and "length (f_items (view c)) + length is \<le> f_limit (view c)"
  shows "\<exists>c'. fbp_fill bc c is = Ret c' \<and> view c' = (view c)\<lparr>f_items := f_items (view c) @ is\<rparr>"
  using assms
proof (induction "is" arbitrary: c)
  case Nil
  then show ?case by simp
next
  case (Cons i "is")
  then have "length (f_items (view c)) < f_limit (view c)" by simp
  from push_succeeds [OF Cons.prems(1) this, of i] obtain c1
    where c1: "channel_push bc c i = Ret (Ch_success, c1)"
      "view c1 = (view c)\<lparr>f_items := f_items (view c) @ [i]\<rparr>" by blast
  with Cons.IH [of c1] Cons.prems show ?case by auto
qed

text \<open>Giving back an index never suspends while the channel has room for all indices.\<close>

lemma release_room:
  assumes "fb_ok view w" and "partitioned (fb_ids w) (fb_own view w)" and "fb_objs w a = Some b"
  obtains c where "fixed_buffer_release bc b w = Ret (w\<lparr>fb_the_pool := (fb_the_pool w)\<lparr>free_list := c\<rparr>\<rparr>)"
    and "view c = (view (free_list (fb_the_pool w)))\<lparr>f_items :=
      f_items (view (free_list (fb_the_pool w))) @ opt_list (held_by buffer_of (fb_objs w) a)\<rparr>"
proof (cases "fb_pool b")
  case False
  then show ?thesis using that [of "free_list (fb_the_pool w)"] assms(3)
    by (simp add: fixed_buffer_release_def held_by_def buffer_of_def)
next
  case True
  let ?p = "fb_the_pool w"
  have h: "held_by buffer_of (fb_objs w) a = Some (fb_idx b)"
    using assms(3) True by (simp add: held_by_def buffer_of_def)
  have "length (f_items (view (free_list ?p))) < buf_count ?p"
    using partitioned_give_room [OF assms(2) finite_fb_ids, of a "fb_idx b"] h card_fb_ids [of w] assms(1)
    by (simp add: fb_own_def fb_ok_def)
  then have "\<not> f_closed (view (free_list ?p))" and "length (f_items (view (free_list ?p))) < f_limit (view (free_list ?p))"
    using assms(1) by (simp_all add: fb_ok_def)
  from push_succeeds [OF this, of "fb_idx b"] obtain c
    where "channel_push bc (free_list ?p) (fb_idx b) = Ret (Ch_success, c)"
      "view c = (view (free_list ?p))\<lparr>f_items := f_items (view (free_list ?p)) @ [fb_idx b]\<rparr>" by blast
  then show ?thesis using that [of c] True h
    by (simp add: fixed_buffer_release_def return_buffer_def)
qed

lemma fb_step_effect:
  assumes "fb_ok view w" and "partitioned (fb_ids w) (fb_own view w)" and "fb_step bc w r"
  shows "(r = Suspended \<and> f_items (view (free_list (fb_the_pool w))) = []) \<or>
    (\<exists>c objs. r = Ret (w\<lparr>fb_the_pool := (fb_the_pool w)\<lparr>free_list := c\<rparr>, fb_objs := objs\<rparr>)
      \<and> f_closed (view c) = f_closed (view (free_list (fb_the_pool w)))
      \<and> f_limit (view c) = f_limit (view (free_list (fb_the_pool w)))
      \<and> own_step\<^sup>*\<^sup>* (fb_own view w) \<lparr>o_free = f_items (view c), o_held = held_by buffer_of objs\<rparr>)"
  using assms(3)
proof cases
  case (fs_borrow a)
  show ?thesis
  proof (cases "f_items (view (free_list (fb_the_pool w)))")
    case Nil
    then show ?thesis using fs_borrow pop_blocks [of "free_list (fb_the_pool w)"] assms(1)
      by (simp add: borrow_fixed_buffer_def borrow_def fb_ok_def)
  next
    case (Cons x xs)
    from pop_succeeds [OF Cons] obtain c where c: "channel_pop bc (free_list (fb_the_pool w)) = Ret (Ch_success, Some x, c)"
        "view c = (view (free_list (fb_the_pool w)))\<lparr>f_items := xs\<rparr>" by blast
    have "own_step\<^sup>*\<^sup>* (fb_own view w) \<lparr>o_free = xs, o_held = (held_by buffer_of (fb_objs w))(a \<mapsto> x)\<rparr>"
      using own_acquire [of "held_by buffer_of (fb_objs w)" a x xs] fs_borrow Cons
      by (simp add: fb_own_def held_by_None)
    then show ?thesis using fs_borrow c
      by (auto simp: borrow_fixed_buffer_def borrow_def fixed_buffer_new_def buffer_of_def
          intro!: exI [of _ c])
  qed
next
  case (fs_move_ctor dst src)
  then obtain oth where oth: "fb_objs w src = Some oth" by blast
  have "own_step\<^sup>*\<^sup>* (fb_own view w) \<lparr>o_free = o_free (fb_own view w),
      o_held = (held_by buffer_of (fb_objs w))(src := None, dst := held_by buffer_of (fb_objs w) src)\<rparr>"
    using own_move [of "held_by buffer_of (fb_objs w)" dst _ src] fs_move_ctor
    by (simp add: fb_own_def held_by_None)
  then show ?thesis using fs_move_ctor oth
    by (auto simp: fixed_buffer_move_ctor_def fb_own_def buffer_of_def held_by_Some
        intro!: exI [of _ "free_list (fb_the_pool w)"])
next
  case (fs_move_assign dst src)
  show ?thesis
  proof (cases "dst = src")
    case True
    then show ?thesis using fs_move_assign
      by (auto simp: fixed_buffer_move_assign_def fb_own_def
          intro!: exI [of _ "free_list (fb_the_pool w)"] exI [of _ "fb_objs w"])
  next
    case False
    from fs_move_assign obtain me oth where objs: "fb_objs w dst = Some me" "fb_objs w src = Some oth" by blast
    from release_room [OF assms(1,2) objs(1)] obtain c
      where c: "fixed_buffer_release bc me w = Ret (w\<lparr>fb_the_pool := (fb_the_pool w)\<lparr>free_list := c\<rparr>\<rparr>)"
        "view c = (view (free_list (fb_the_pool w)))\<lparr>f_items :=
           f_items (view (free_list (fb_the_pool w))) @ opt_list (held_by buffer_of (fb_objs w) dst)\<rparr>" by blast
    show ?thesis
      using own_assign [OF False, of "f_items (view (free_list (fb_the_pool w)))" "held_by buffer_of (fb_objs w)"]
        fs_move_assign False objs c
      by (auto simp: fixed_buffer_move_assign_def fb_own_def buffer_of_def held_by_Some intro!: exI [of _ c])
  qed
next
  case (fs_dtor a)
  then obtain b where b: "fb_objs w a = Some b" by blast
  from release_room [OF assms(1,2) b] obtain c
    where c: "fixed_buffer_release bc b w = Ret (w\<lparr>fb_the_pool := (fb_the_pool w)\<lparr>free_list := c\<rparr>\<rparr>)"
      "view c = (view (free_list (fb_the_pool w)))\<lparr>f_items :=
         f_items (view (free_list (fb_the_pool w))) @ opt_list (held_by buffer_of (fb_objs w) a)\<rparr>" by blast
  show ?thesis
    using own_release [of "f_items (view (free_list (fb_the_pool w)))" "held_by buffer_of (fb_objs w)" a]
      fs_dtor b c
    by (auto simp: fixed_buffer_dtor_def fb_own_def intro!: exI [of _ c])
qed

end

sublocale fb_channel \<subseteq> fb: raii_pool "fb_cstep bc" "fb_own view" fb_ids "fb_ok view"
proof unfold_locales
  fix s t :: "'c fb_world"
  assume a: "fb_ok view s" "partitioned (fb_ids s) (fb_own view s)" "fb_cstep bc s t"
  from fb_step_effect [OF a(1,2) a(3) [unfolded fb_cstep_def]]
  obtain c objs where t: "t = s\<lparr>fb_the_pool := (fb_the_pool s)\<lparr>free_list := c\<rparr>, fb_objs := objs\<rparr>"
    and v: "f_closed (view c) = f_closed (view (free_list (fb_the_pool s)))"
      "f_limit (view c) = f_limit (view (free_list (fb_the_pool s)))"
    and own: "own_step\<^sup>*\<^sup>* (fb_own view s) \<lparr>o_free = f_items (view c), o_held = held_by buffer_of objs\<rparr>"
    by auto
  show "own_step\<^sup>*\<^sup>* (fb_own view s) (fb_own view t)" using own t by (simp add: fb_own_def)
  show "fb_ok view t \<and> fb_ids t = fb_ids s" using a(1) t v by (simp add: fb_ok_def fb_ids_def)
qed

context fb_channel
begin

lemma fb_run:
  assumes "(fb_cstep bc)\<^sup>*\<^sup>* w0 w" and "fb_ok view w0" and "partitioned (fb_ids w0) (fb_own view w0)"
  shows "fb_ok view w \<and> partitioned (fb_ids w) (fb_own view w) \<and> (\<exists>c. fb_the_pool w = (fb_the_pool w0)\<lparr>free_list := c\<rparr>)"
  using assms(1)
proof (induction rule: rtranclp_induct)
  case base
  show ?case using assms(2,3) by (simp add: exI [of _ "free_list (fb_the_pool w0)"])
next
  case (step u t)
  then obtain c where u: "fb_ok view u" "partitioned (fb_ids u) (fb_own view u)"
    "fb_the_pool u = (fb_the_pool w0)\<lparr>free_list := c\<rparr>" by blast
  from fb_step_effect [OF u(1,2), of "Ret t"] step.hyps(2)
  have "\<exists>c'. fb_the_pool t = (fb_the_pool u)\<lparr>free_list := c'\<rparr>" by (auto simp: fb_cstep_def)
  then have "\<exists>c'. fb_the_pool t = (fb_the_pool w0)\<lparr>free_list := c'\<rparr>" by (auto simp: u(3))
  with fb.step_partitioned [OF u(1,2) step.hyps(2)] show ?case by blast
qed

end

interpretation ref_fb: fb_channel ref_boost "channel_view ref_boost rc_items rc_size"
  by (simp add: fb_channel_def ref_bc.ch.bounded_channel_axioms)

subsection \<open>What a successful construction gives\<close>

lemma fbp_iovecs_fit:
  "fbp_iovecs st bsz is = Ret xs \<Longrightarrow> i \<in> set is \<Longrightarrow> size_mul i bsz + bsz \<le> sp_size st"
  by (induction "is" arbitrary: xs) (auto simp: outcome_simps subspan_def split: if_splits)

lemma fbp_iovecs_slots:
  assumes "\<And>i. i \<in> set is \<Longrightarrow> i * bsz + bsz \<le> sp_size st" and "sp_size st < size_t_mod"
  shows "fbp_iovecs st bsz is = Ret (map (\<lambda>i. \<lparr>sp_data = sp_data st + i * bsz, sp_size = bsz\<rparr>) is)"
  using assms
proof (induction "is")
  case Nil
  then show ?case by simp
next
  case (Cons i "is")
  from Cons.prems(1) [of i] Cons.prems(2) have "size_mul i bsz = i * bsz"
    by (simp add: size_mul_def)
  with Cons show ?case by (simp add: subspan_Ret)
qed

lemma ctor_cases:
  assumes "fixed_buffer_pool_ctor bc reg has_ring base bsz bcnt = Ret p"
  obtains ch ch' where "0 < bsz" and "bcnt \<le> 2 ^ 63"
    and "channel_new bc (max (bit_ceil bcnt) 2) = Ret ch"
    and "fbp_fill bc ch (map word_of_nat [0..<max (bit_ceil bcnt) 2 mod 2 ^ 16]) = Ret ch'"
    and "bsz * max (bit_ceil bcnt) 2 < size_t_mod"
    and "p = \<lparr>fb_ring = True, buf_size = bsz, buf_count = max (bit_ceil bcnt) 2,
              storage = \<lparr>sp_data = base, sp_size = bsz * max (bit_ceil bcnt) 2\<rparr>, free_list = ch',
              registered = map (\<lambda>i. \<lparr>sp_data = base + i * bsz, sp_size = bsz\<rparr>) [0..<max (bit_ceil bcnt) 2]\<rparr>"
proof -
  let ?n = "max (bit_ceil bcnt) 2"
  let ?st = "\<lparr>sp_data = base, sp_size = size_mul bsz ?n\<rparr>"
  from assms obtain ch ch' io where c: "0 < bsz" "bcnt \<le> 2 ^ 63" "channel_new bc ?n = Ret ch"
      "fbp_fill bc ch (map word_of_nat [0..<?n mod 2 ^ 16]) = Ret ch'"
      "fbp_iovecs ?st bsz [0..<?n] = Ret io"
      and p: "p = \<lparr>fb_ring = True, buf_size = bsz, buf_count = ?n, storage = ?st, free_list = ch', registered = io\<rparr>"
    unfolding fixed_buffer_pool_ctor_def Let_def
    by (auto simp: outcome_simps not_le not_less split: if_splits)
  have "size_mul i bsz + bsz \<le> size_mul bsz ?n" if "i < ?n" for i
    using fbp_iovecs_fit [OF c(5), of i] that by simp
  from size_mul_no_overflow [OF this c(1)] have no: "bsz * ?n < size_t_mod" .
  then have sz: "size_mul bsz ?n = bsz * ?n" by (simp add: size_mul_def)
  have "fbp_iovecs ?st bsz [0..<?n] = Ret (map (\<lambda>i. \<lparr>sp_data = base + i * bsz, sp_size = bsz\<rparr>) [0..<?n])"
    using fbp_iovecs_slots [of "[0..<?n]" bsz ?st] slot_in_range no sz by simp
  with that c p no sz show ?thesis by simp
qed

text \<open>The world right after construction: all indices free, no handle.\<close>

lemma ctor_layout:
  assumes "fixed_buffer_pool_ctor bc reg has_ring base bsz bcnt = Ret p"
  shows "storage p = \<lparr>sp_data = base, sp_size = buf_size p * buf_count p\<rparr>"
    and "buf_size p = bsz" and "buf_size p * buf_count p < size_t_mod"
  by (rule ctor_cases [OF assms], simp)+

definition fb_start :: "'c fixed_buffer_pool \<Rightarrow> 'c fb_world" where
  "fb_start p = \<lparr>fb_the_pool = p, fb_objs = (\<lambda>_. None)\<rparr>"

lemma fb_channel_of_boost:
  "boost_buffered_channel bc items ring_size \<Longrightarrow> fb_channel bc (channel_view bc items ring_size)"
  unfolding fb_channel_def by (rule boost_buffered_channel.is_bounded_channel)

lemma ctor_start:
  assumes "boost_buffered_channel bc items ring_size" and "bcnt \<le> 2 ^ 15"
    and "fixed_buffer_pool_ctor bc reg has_ring base bsz bcnt = Ret p"
  shows "fb_ok (channel_view bc items ring_size) (fb_start p)"
    and "partitioned (fb_ids (fb_start p)) (fb_own (channel_view bc items ring_size) (fb_start p))"
    and "f_items (channel_view bc items ring_size (free_list p)) = map word_of_nat [0..<buf_count p]"
proof -
  define n where "n = max (bit_ceil bcnt) 2"
  define v where "v = channel_view bc items ring_size"
  from ctor_cases [OF assms(3)] obtain c c' where c: "channel_new bc n = Ret c"
      "fbp_fill bc c (map word_of_nat [0..<n mod 2 ^ 16]) = Ret c'" and p: "free_list p = c'" "buf_count p = n"
    unfolding n_def by (metis fixed_buffer_pool.select_convs(3,5))
  have n: "n \<le> 2 ^ 15" "1 \<le> n" using bit_ceil_least [OF assms(2)] by (simp_all add: n_def)
  then have small: "n < 2 ^ 63" "n mod 2 ^ 16 = n" by simp_all
  from boost_buffered_channel.new_channel [OF assms(1) n(2) small(1)]
  have vc: "v c = \<lparr>f_items = [], f_limit = bit_ceil (Suc n) - 1, f_closed = False\<rparr>"
    using c(1) by (metis outcome.inject(1) v_def)
  have lim: "n \<le> bit_ceil (Suc n) - 1" using bit_ceil_ge [of "Suc n"] by simp
  have "fb_channel bc v" unfolding v_def by (rule fb_channel_of_boost [OF assms(1)])
  from fb_channel.fill_all [OF this, of c "map word_of_nat [0..<n]"] vc lim c(2) p(1)
  have vp: "v (free_list p) = \<lparr>f_items = map word_of_nat [0..<n], f_limit = bit_ceil (Suc n) - 1, f_closed = False\<rparr>"
    unfolding small(2) by auto
  show "f_items (channel_view bc items ring_size (free_list p)) = map word_of_nat [0..<buf_count p]"
    using vp p(2) by (simp add: v_def)
  show "fb_ok (channel_view bc items ring_size) (fb_start p)"
    using vp p(2) n(1) lim unfolding v_def [symmetric] by (simp add: fb_ok_def fb_start_def)
  have "distinct (map word_of_nat [0..<n] :: u16 list)"
    using n(1) by (intro distinct_map_word_of_nat) simp
  then show "partitioned (fb_ids (fb_start p)) (fb_own (channel_view bc items ring_size) (fb_start p))"
    using vp p(2) unfolding v_def [symmetric]
    by (simp add: partitioned_def fb_own_def fb_ids_def fb_start_def)
qed

subsection \<open>Properties\<close>

lemma fb_data_slot:
  assumes "storage p = \<lparr>sp_data = base, sp_size = buf_size p * buf_count p\<rparr>"
    and "buf_size p * buf_count p < size_t_mod" and "fb_pool b" and "unat (fb_idx b) < buf_count p"
  shows "fixed_buffer_data p b = Ret \<lparr>sp_data = base + unat (fb_idx b) * buf_size p, sp_size = buf_size p\<rparr>"
proof -
  have le: "unat (fb_idx b) * buf_size p + buf_size p \<le> buf_size p * buf_count p"
    using slot_in_range [OF assms(4)] .
  then have "size_mul (unat (fb_idx b)) (buf_size p) = unat (fb_idx b) * buf_size p"
    using assms(2) by (simp add: size_mul_def)
  with le assms show ?thesis by (simp add: fixed_buffer_data_def subspan_Ret)
qed

lemma fb_spans_disjoint:
  assumes "storage p = \<lparr>sp_data = base, sp_size = buf_size p * buf_count p\<rparr>"
    and "buf_size p * buf_count p < size_t_mod"
    and "fb_pool x" and "unat (fb_idx x) < buf_count p" and "fb_pool y" and "unat (fb_idx y) < buf_count p"
    and "fb_idx x \<noteq> fb_idx y"
  shows "\<exists>sx sy. fixed_buffer_data p x = Ret sx \<and> fixed_buffer_data p y = Ret sy
    \<and> sp_size sx = buf_size p \<and> sp_size sy = buf_size p
    \<and> span_bytes sx \<inter> span_bytes sy = {} \<and> span_bytes sx \<union> span_bytes sy \<subseteq> span_bytes (storage p)"
proof -
  have "unat (fb_idx x) \<noteq> unat (fb_idx y)" using assms(7) by (simp add: word_unat_eq_iff)
  from slots_disjoint [OF this, of base "buf_size p"]
  show ?thesis
    using fb_data_slot [OF assms(1-4)] fb_data_slot [OF assms(1,2,5,6)] assms(1)
      slot_in_range [OF assms(4), of "buf_size p"] slot_in_range [OF assms(6), of "buf_size p"]
    by (cases "buf_size p = 0") (auto simp: span_bytes_def)
qed

definition in_use :: "'c fb_world \<Rightarrow> nat" where
  "in_use w = card (dom (held_by buffer_of (fb_objs w)))"

text \<open>What holds after any sequence of handle operations on a constructed pool.\<close>

lemma fb_run_facts:
  assumes "boost_buffered_channel bc items ring_size" and "bcnt \<le> 2 ^ 15"
    and "fixed_buffer_pool_ctor bc reg has_ring base bsz bcnt = Ret p"
    and "(fb_cstep bc)\<^sup>*\<^sup>* (fb_start p) w"
  defines "v \<equiv> channel_view bc items ring_size"
  shows "fb_ok v w" and "partitioned (fb_ids w) (fb_own v w)"
    and "\<exists>c. fb_the_pool w = p\<lparr>free_list := c\<rparr>"
    and "length (items (free_list (fb_the_pool w))) + in_use w = buf_count p"
proof -
  note start = ctor_start [OF assms(1-3), folded v_def]
  have fbc: "fb_channel bc v" unfolding v_def by (rule fb_channel_of_boost [OF assms(1)])
  note run = fb_channel.fb_run [OF fbc assms(4) start(1,2)]
  show ok: "fb_ok v w" and part: "partitioned (fb_ids w) (fb_own v w)" using run by auto
  show pool: "\<exists>c. fb_the_pool w = p\<lparr>free_list := c\<rparr>" using run by (simp add: fb_start_def)
  then have "buf_count (fb_the_pool w) = buf_count p" by auto
  moreover have "buf_count (fb_the_pool w) \<le> 2 ^ 16" using ok by (simp add: fb_ok_def)
  ultimately have "card (fb_ids w) = buf_count p" using card_fb_ids [of w] by simp
  then show "length (items (free_list (fb_the_pool w))) + in_use w = buf_count p"
    using partitioned_count(1) [OF part finite_fb_ids]
    by (simp add: fb_own_def v_def channel_view_def in_use_def)
qed

lemma fb_ids_bound:
  assumes "x \<in> fb_ids w" and "buf_count (fb_the_pool w) \<le> 2 ^ 16"
  shows "unat x < buf_count (fb_the_pool w)"
  using assms set_map_word_of_nat_unat [where 'a = 16] by (auto simp: fb_ids_def)

text \<open>
  C31. Exclusive ownership of fixed buffers. Take a pool built by the constructor for at most
  \<open>2 ^ 15\<close> requested buffers over a Boost channel with the documented behaviour, and any
  sequence of borrowing, move-constructing, move-assigning and destroying handles. Then the
  pool's count is conserved (free indices plus handles that own one); every further
  operation returns, except a borrow while all buffers are in use, which suspends: giving a
  buffer back never blocks and nothing is undefined; and two different owning handles have
  different indices and non-overlapping data spans inside the storage.
\<close>

theorem fixed_buffer_pool_safety:
  assumes "boost_buffered_channel bc items ring_size" and "bcnt \<le> 2 ^ 15"
    and "fixed_buffer_pool_ctor bc reg has_ring base bsz bcnt = Ret p"
    and "(fb_cstep bc)\<^sup>*\<^sup>* (fb_start p) w"
  shows "length (items (free_list (fb_the_pool w))) + in_use w = buf_count p \<and>
    (\<forall>r. fb_step bc w r \<longrightarrow> (\<exists>w'. r = Ret w') \<or> (r = Suspended \<and> in_use w = buf_count p)) \<and>
    (\<forall>a b x y. fb_objs w a = Some x \<and> fb_objs w b = Some y \<and> fb_pool x \<and> fb_pool y \<and> a \<noteq> b \<longrightarrow>
       fb_idx x \<noteq> fb_idx y \<and>
       (\<exists>sx sy. fixed_buffer_data (fb_the_pool w) x = Ret sx \<and> fixed_buffer_data (fb_the_pool w) y = Ret sy
          \<and> sp_size sx = bsz \<and> sp_size sy = bsz \<and> span_bytes sx \<inter> span_bytes sy = {}
          \<and> span_bytes sx \<union> span_bytes sy \<subseteq> span_bytes (storage p)))"
proof (intro conjI allI impI; (elim conjE)?)
  note run = fb_run_facts [OF assms(1-4)]
  show cons: "length (items (free_list (fb_the_pool w))) + in_use w = buf_count p" by (rule run(4))
  show "(\<exists>w'. r = Ret w') \<or> (r = Suspended \<and> in_use w = buf_count p)" if "fb_step bc w r" for r
    using fb_channel.fb_step_effect [OF fb_channel_of_boost [OF assms(1)] run(1,2) that] cons
    by (elim disjE conjE exE) (simp_all add: channel_view_def)
  fix a b x y
  assume xy: "fb_objs w a = Some x" "fb_objs w b = Some y" "fb_pool x" "fb_pool y" "a \<noteq> b"
  let ?o = "fb_own (channel_view bc items ring_size) w"
  have held: "o_held ?o a = Some (fb_idx x)" "o_held ?o b = Some (fb_idx y)"
    using xy by (simp_all add: fb_own_def held_by_def buffer_of_def)
  show ne: "fb_idx x \<noteq> fb_idx y" using partitioned_exclusive [OF run(2) held(1)] held(2) xy(5) by metis
  have le: "buf_count (fb_the_pool w) \<le> 2 ^ 16" using run(1) by (simp add: fb_ok_def)
  note lt = fb_ids_bound [OF partitioned_held_in [OF run(2) held(1)] le]
    fb_ids_bound [OF partitioned_held_in [OF run(2) held(2)] le]
  obtain c where c: "fb_the_pool w = p\<lparr>free_list := c\<rparr>" using run(3) by blast
  from ctor_layout [OF assms(3)] c have "storage (fb_the_pool w) = \<lparr>sp_data = base, sp_size = buf_size (fb_the_pool w) * buf_count (fb_the_pool w)\<rparr>"
    "buf_size (fb_the_pool w) * buf_count (fb_the_pool w) < size_t_mod"
    "buf_size (fb_the_pool w) = bsz" "storage (fb_the_pool w) = storage p" by simp_all
  from fb_spans_disjoint [OF this(1,2) xy(3) lt(1) xy(4) lt(2) ne] this(3,4)
  show "\<exists>sx sy. fixed_buffer_data (fb_the_pool w) x = Ret sx \<and> fixed_buffer_data (fb_the_pool w) y = Ret sy
          \<and> sp_size sx = bsz \<and> sp_size sy = bsz \<and> span_bytes sx \<inter> span_bytes sy = {}
          \<and> span_bytes sx \<union> span_bytes sy \<subseteq> span_bytes (storage p)" by simp
qed


text \<open>A two-buffer pool over the reference channel, evaluated.\<close>

lemma example_pool:
  "\<exists>p. fixed_buffer_pool_ctor ref_boost (\<lambda>_ _. 0) True 4096 8 2 = Ret p
     \<and> free_list p = \<lparr>rc_items = [0, 1], rc_size = 4, rc_closed = False\<rparr> \<and> buf_count p = 2"
proof -
  have bc: "bit_ceil 2 = 2" "bit_ceil 3 = 4" "bit_ceil 4 = 4"
    using bit_ceil_power [of 1] bit_ceil_Suc_power [of 1] bit_ceil_power [of 2] by simp_all
  then have "is_pow2 4" by (simp add: is_pow2_def)
  then show ?thesis
    by (simp add: fixed_buffer_pool_ctor_def bc channel_new_def ref_boost_simps size_mul_def size_add_def size_t_mod_def
        vector_max_size_def sizeof_iovec_def Let_def upt_rec subspan_def outcome_simps channel_push_def)
qed

lemma borrow_ref_step:
  assumes "fb_objs w a = None" and "free_list (fb_the_pool w) = \<lparr>rc_items = i # is, rc_size = n, rc_closed = c\<rparr>"
  shows "fb_cstep ref_boost w (w\<lparr>fb_the_pool := (fb_the_pool w)\<lparr>free_list := \<lparr>rc_items = is, rc_size = n, rc_closed = c\<rparr>\<rparr>,
     fb_objs := (fb_objs w)(a \<mapsto> fixed_buffer_new i)\<rparr>)"
  using fs_borrow [of w a ref_boost] assms
  by (simp add: fb_cstep_def borrow_fixed_buffer_def borrow_def channel_pop_def ref_boost_simps outcome_simps)

theorem fixed_buffer_pool_safety_witness:
  "\<exists>p w. fixed_buffer_pool_ctor ref_boost (\<lambda>_ _. 0) True 4096 8 2 = Ret p
     \<and> (fb_cstep ref_boost)\<^sup>*\<^sup>* (fb_start p) w \<and> in_use w = 2
     \<and> (\<forall>r. fb_step ref_boost w r \<longrightarrow> (\<exists>u. r = Ret u) \<or> r = Suspended)
     \<and> (\<exists>x y sx sy. fb_objs w 10 = Some x \<and> fb_objs w 20 = Some y \<and> fb_idx x \<noteq> fb_idx y
          \<and> fixed_buffer_data (fb_the_pool w) x = Ret sx \<and> fixed_buffer_data (fb_the_pool w) y = Ret sy
          \<and> span_bytes sx \<inter> span_bytes sy = {})"
proof -
  obtain p where p: "fixed_buffer_pool_ctor ref_boost (\<lambda>_ _. 0) True 4096 8 2 = Ret p"
      "free_list p = \<lparr>rc_items = [0, 1], rc_size = 4, rc_closed = False\<rparr>" "buf_count p = 2"
    using example_pool by blast
  define w1 where "w1 = \<lparr>fb_the_pool = p\<lparr>free_list := \<lparr>rc_items = [1], rc_size = 4, rc_closed = False\<rparr>\<rparr>,
     fb_objs = [10 \<mapsto> fixed_buffer_new 0]\<rparr>"
  define w where "w = \<lparr>fb_the_pool = p\<lparr>free_list := \<lparr>rc_items = [], rc_size = 4, rc_closed = False\<rparr>\<rparr>,
     fb_objs = [10 \<mapsto> fixed_buffer_new 0, 20 \<mapsto> fixed_buffer_new 1]\<rparr>"
  have "fb_cstep ref_boost (fb_start p) w1" and "fb_cstep ref_boost w1 w"
    using borrow_ref_step [of "fb_start p" 10 0 "[1]" 4 False] borrow_ref_step [of w1 20 1 "[]" 4 False] p(2)
    by (simp_all add: fb_start_def w1_def w_def)
  then have run: "(fb_cstep ref_boost)\<^sup>*\<^sup>* (fb_start p) w" by auto
  note safe = fixed_buffer_pool_safety [OF ref_bc.boost_buffered_channel_axioms _ p(1) run]
  have "in_use w = 2" using safe p(3) by (simp add: w_def)
  moreover have "fb_objs w 10 = Some (fixed_buffer_new 0)" "fb_objs w 20 = Some (fixed_buffer_new 1)"
    by (simp_all add: w_def)
  moreover have "\<exists>sx sy. fixed_buffer_data (fb_the_pool w) (fixed_buffer_new 0) = Ret sx
      \<and> fixed_buffer_data (fb_the_pool w) (fixed_buffer_new 1) = Ret sy \<and> span_bytes sx \<inter> span_bytes sy = {}"
    using safe [THEN conjunct2, THEN conjunct2, rule_format, of 10 "fixed_buffer_new 0" 20 "fixed_buffer_new 1"]
    by (auto simp: w_def fixed_buffer_new_def)
  ultimately show ?thesis using p(1) run safe by (auto simp: fixed_buffer_new_def)
qed


text \<open>The constructor evaluated on every branch, for counts that the channel can hold.\<close>

definition fbp_slots :: "nat \<Rightarrow> nat \<Rightarrow> nat \<Rightarrow> span list" where
  "fbp_slots base bsz n = map (\<lambda>i. \<lparr>sp_data = base + i * bsz, sp_size = bsz\<rparr>) [0..<n]"

lemma ctor_eval:
  assumes "boost_buffered_channel bc items ring_size" and "bcnt \<le> 2 ^ 16"
    and "n = max (bit_ceil bcnt) 2" and "bsz * n \<le> vector_max_size"
  shows "\<exists>ch. items ch = map word_of_nat [0..<n mod 2 ^ 16] \<and> \<not> bc_is_closed bc ch \<and>
    fixed_buffer_pool_ctor bc reg has_ring base bsz bcnt =
     (if bsz = 0 then Throw (Invalid_argument ''fixed_buffer_pool: buf_size and buf_count must be non-zero'')
      else if \<not> has_ring then Throw (Runtime_error ''fixed_buffer_pool constructed outside of a fiberexec worker thread'')
      else if reg (fbp_slots base bsz n) (word_of_nat n) < 0
      then Throw (System_error (- reg (fbp_slots base bsz n) (word_of_nat n)) ''io_uring_register_buffers'')
      else Ret \<lparr>fb_ring = True, buf_size = bsz, buf_count = n, storage = \<lparr>sp_data = base, sp_size = bsz * n\<rparr>,
                free_list = ch, registered = fbp_slots base bsz n\<rparr>)"
proof -
  let ?v = "channel_view bc items ring_size"
  have "n \<le> 2 ^ 16" "2 \<le> n" using bit_ceil_least [OF assms(2)] assms(3) by simp_all
  then have n: "1 \<le> n" "n < 2 ^ 63" "n \<le> vector_max_size div sizeof_iovec" "n \<noteq> 0"
    by (simp_all add: vector_max_size_def sizeof_iovec_def)
  have sm: "bsz * n < size_t_mod" using assms(4) by (simp add: vector_max_size_def size_t_mod_def)
  then have sz: "size_mul bsz n = bsz * n" by (simp add: size_mul_def)
  obtain c where c: "channel_new bc n = Ret c"
      "?v c = \<lparr>f_items = [], f_limit = bit_ceil (Suc n) - 1, f_closed = False\<rparr>"
    by (rule boost_buffered_channel.new_channel [OF assms(1) n(1,2)])
  have room: "n mod 2 ^ 16 \<le> bit_ceil (Suc n) - 1"
    using bit_ceil_ge [of "Suc n"] mod_less_eq_dividend [of n "2 ^ 16"] by linarith
  from fb_channel.fill_all [OF fb_channel_of_boost [OF assms(1)], of c "map word_of_nat [0..<n mod 2 ^ 16]"]
  obtain c' where c': "fbp_fill bc c (map word_of_nat [0..<n mod 2 ^ 16]) = Ret c'"
      "items c' = map word_of_nat [0..<n mod 2 ^ 16]" "\<not> bc_is_closed bc c'"
    using c(2) room by (auto simp: channel_view_def)
  have io: "fbp_iovecs \<lparr>sp_data = base, sp_size = bsz * n\<rparr> bsz [0..<n] = Ret (fbp_slots base bsz n)"
    using fbp_iovecs_slots [of "[0..<n]" bsz "\<lparr>sp_data = base, sp_size = bsz * n\<rparr>"] slot_in_range sm
    by (simp add: fbp_slots_def)
  have "bcnt \<le> 2 ^ 63" using assms(2) by simp
  then show ?thesis using assms(3,4) n sz c(1) c' io
    by (intro exI [of _ c']) (simp add: fixed_buffer_pool_ctor_def Let_def outcome_simps assms(3) [symmetric])
qed

text \<open>
  C33. Construction of a pool. For at most \<open>2 ^ 15\<close> requested buffers whose storage fits a
  vector, the constructor rejects a zero buffer size, a missing ring and a failed kernel
  registration with the documented exceptions, and otherwise returns a pool with at least
  the requested number of buffers (the next power of two, at least two), every index free
  exactly once and in order, and with the kernel given exactly the slots the handles see.
\<close>

theorem fixed_buffer_pool_construction:
  assumes "boost_buffered_channel bc items ring_size" and "bcnt \<le> 2 ^ 15"
    and "n = max (bit_ceil bcnt) 2" and "bsz * n \<le> vector_max_size"
    and "r = reg (fbp_slots base bsz n) (word_of_nat n)"
  shows "case fixed_buffer_pool_ctor bc reg has_ring base bsz bcnt of
      Ret p \<Rightarrow> 0 < bsz \<and> has_ring \<and> 0 \<le> r \<and> buf_size p = bsz \<and> buf_count p = n \<and> bcnt \<le> n
        \<and> items (free_list p) = map word_of_nat [0..<n] \<and> registered p = fbp_slots base bsz n
        \<and> (\<forall>i<n. fixed_buffer_data p (fixed_buffer_new (word_of_nat i)) = Ret (registered p ! i))
    | Throw e \<Rightarrow>
        (bsz = 0 \<and> e = Invalid_argument ''fixed_buffer_pool: buf_size and buf_count must be non-zero'')
        \<or> (0 < bsz \<and> \<not> has_ring \<and>
           e = Runtime_error ''fixed_buffer_pool constructed outside of a fiberexec worker thread'')
        \<or> (0 < bsz \<and> has_ring \<and> r < 0 \<and> e = System_error (- r) ''io_uring_register_buffers'')
    | _ \<Rightarrow> False"
proof -
  have le: "bcnt \<le> 2 ^ 16" using assms(2) by simp
  have n: "n \<le> 2 ^ 15" "bcnt \<le> n" using bit_ceil_least [OF assms(2)] bit_ceil_ge [of bcnt] assms(3) by simp_all
  then have m: "n mod 2 ^ 16 = n" by simp
  have sm: "bsz * n < size_t_mod" using assms(4) by (simp add: vector_max_size_def size_t_mod_def)
  from ctor_eval [OF assms(1) le assms(3,4), of reg has_ring base] obtain ch
    where ch: "items ch = map word_of_nat [0..<n]" and e: "fixed_buffer_pool_ctor bc reg has_ring base bsz bcnt =
     (if bsz = 0 then Throw (Invalid_argument ''fixed_buffer_pool: buf_size and buf_count must be non-zero'')
      else if \<not> has_ring then Throw (Runtime_error ''fixed_buffer_pool constructed outside of a fiberexec worker thread'')
      else if r < 0 then Throw (System_error (- r) ''io_uring_register_buffers'')
      else Ret \<lparr>fb_ring = True, buf_size = bsz, buf_count = n, storage = \<lparr>sp_data = base, sp_size = bsz * n\<rparr>,
                free_list = ch, registered = fbp_slots base bsz n\<rparr>)"
    unfolding m assms(5) by blast
  let ?p = "\<lparr>fb_ring = True, buf_size = bsz, buf_count = n, storage = \<lparr>sp_data = base, sp_size = bsz * n\<rparr>,
                free_list = ch, registered = fbp_slots base bsz n\<rparr>"
  have "fixed_buffer_data ?p (fixed_buffer_new (word_of_nat i)) = Ret (fbp_slots base bsz n ! i)" if "i < n" for i
  proof -
    have u: "unat (word_of_nat i :: u16) = i" using that n(1) by (intro unat_word_of_nat_small) simp
    show ?thesis
      using fb_data_slot [of ?p base "fixed_buffer_new (word_of_nat i)"] that sm
      by (simp add: u fixed_buffer_new_def fbp_slots_def)
  qed
  then show ?thesis using ch n(2) by (simp add: e)
qed

theorem fixed_buffer_pool_construction_witness:
  "\<exists>p. fixed_buffer_pool_ctor ref_boost (\<lambda>_ _. 0) True 4096 16 3 = Ret p \<and> buf_count p = 4 \<and> rc_items (free_list p) = [0, 1, 2, 3]
     \<and> registered p ! 3 = \<lparr>sp_data = 4144, sp_size = 16\<rparr>"
proof -
  have "bit_ceil 3 = 4" using bit_ceil_Suc_power [of 1] by simp
  then have n: "4 = max (bit_ceil 3) 2" by simp
  have v: "16 * 4 \<le> vector_max_size" by (simp add: vector_max_size_def)
  show ?thesis
    using fixed_buffer_pool_construction [OF ref_bc.boost_buffered_channel_axioms _ n v refl,
        where reg = "\<lambda>_ _. 0" and has_ring = True and base = 4096]
    by (auto split: outcome.splits simp: fbp_slots_def upt_rec)
qed

text \<open>
  A count of zero is accepted. The guard \<open>buf_count_ == 0\<close> reads the rounded member,
  which is at least two, so a pool of zero requested buffers is built with two buffers
  instead of being rejected with \<open>std::invalid_argument\<close>.
\<close>

lemma fixed_buffer_pool_zero_count:
  assumes "boost_buffered_channel bc items ring_size" and "0 < bsz" and "2 * bsz \<le> vector_max_size"
    and "0 \<le> reg (fbp_slots base bsz 2) 2"
  shows "\<exists>p. fixed_buffer_pool_ctor bc reg True base bsz 0 = Ret p \<and> buf_count p = 2
    \<and> items (free_list p) = [0, 1]"
proof -
  have "bit_ceil 0 \<le> 1" using bit_ceil_least [of 0 0] by simp
  then have n: "2 = max (bit_ceil 0) 2" by simp
  show ?thesis using ctor_eval [OF assms(1) _ n, of bsz reg True base] assms(2-4)
    by (auto simp: mult.commute upt_rec)
qed

text \<open>
  C28. Two-phase completion of a zero-copy send. A fresh handler that receives a completion
  without the more flag wakes its fiber with that result. One that receives a completion
  with the more flag keeps the fiber suspended; the notification that follows wakes it, and
  the fiber reads the result of the send, not that of the notification. A completion after
  the fiber was woken would set a satisfied promise.
\<close>

theorem send_zc_two_phase:
  assumes "flags AND IORING_CQE_F_NOTIF = 0" and "nflags AND IORING_CQE_F_NOTIF \<noteq> 0"
  shows "\<exists>h. send_zc_complete (send_zc_new fiber) res flags = Ret h \<and>
    (if flags AND IORING_CQE_F_MORE = 0
     then send_zc_wait h = Ret res \<and> send_zc_complete h nres nflags = Undefined Promise_satisfied
     else send_zc_wait h = Suspended \<and>
       (\<exists>h'. send_zc_complete h nres nflags = Ret h' \<and> send_zc_wait h' = Ret res
          \<and> send_zc_complete h' nres nflags = Undefined Promise_satisfied))"
  using assms
  by (auto simp: send_zc_complete_def send_zc_new_def send_zc_fulfil_def send_zc_wait_def promise_set_value_def
      outcome_simps Let_def)

theorem send_zc_two_phase_witness:
  "\<exists>h h'. send_zc_complete (send_zc_new 1) 512 IORING_CQE_F_MORE = Ret h \<and> send_zc_wait h = Suspended
     \<and> send_zc_complete h 0 IORING_CQE_F_NOTIF = Ret h' \<and> send_zc_wait h' = Ret 512"
  using send_zc_two_phase [of IORING_CQE_F_MORE IORING_CQE_F_NOTIF 1 512 0]
  by (auto simp: flag_defs)

end
