(* ===== verification/Fixed_Fd_Table.thy ===== *)
theory Fixed_Fd_Table
  imports Ownership Channel Uring
begin

text \<open>
  \<open>src/fixed_fd_table.cpp\<close> and \<open>include/fiberexec/fixed_fd_table.hpp\<close>: the table of registered
  file descriptors of a worker thread, its RAII handle \<open>fd_slot\<close> and \<open>acquire_fd_slot\<close>.

  The kernel's registered-file table is part of the state (\<open>kfiles\<close>, the descriptor installed
  in each registered slot, \<open>-1\<close> for an empty one). The answers of \<open>io_uring_register_files\<close> and
  \<open>io_uring_register_files_update\<close> are parameters. Operations that may throw after they
  changed the state return the new state together with the exception.
\<close>

subsection \<open>The table\<close>

record 'c fixed_fd_table =
  ft_ring :: bool
  capacity :: nat
  ft_free :: 'c
  kfiles :: "u32 \<Rightarrow> int option"

type_synonym files_update = "(u32 \<Rightarrow> int option) \<Rightarrow> u32 \<Rightarrow> int \<Rightarrow> int"

text \<open>The loop that fills the free list; the status of each push is discarded.\<close>

fun ft_fill :: "('c, u32) boost_channel \<Rightarrow> 'c \<Rightarrow> u32 list \<Rightarrow> 'c" where
  "ft_fill bc ch [] = ch"
| "ft_fill bc ch (i # is) = ft_fill bc (snd (channel_try_push bc ch i)) is"

definition int_vector_max_size :: nat where "int_vector_max_size = 2 ^ 61 - 1"

definition fixed_fd_table_ctor ::
  "('c, u32) boost_channel \<Rightarrow> (int list \<Rightarrow> u32 \<Rightarrow> int) \<Rightarrow> bool \<Rightarrow> nat \<Rightarrow> 'c fixed_fd_table outcome" where
  "fixed_fd_table_ctor bc reg has_ring cap =
     bind_outcome (channel_new bc cap) (\<lambda>ch.
       if \<not> has_ring
       then Throw (Runtime_error ''fixed_fd_table constructed outside of a fiberexec worker thread'')
       else if cap = 0
       then Throw (Invalid_argument ''fixed_fd_table: capacity must be non-zero'')
       else if int_vector_max_size < cap then Throw Length_error
       else let slots = replicate cap (- 1); r = reg slots (word_of_nat cap) in
         if r < 0 then Throw (System_error (- r) ''io_uring_register_files'')
         else Ret \<lparr>ft_ring = True, capacity = cap,
                   ft_free = ft_fill bc ch (map word_of_nat [0..<cap mod 2 ^ 32]),
                   kfiles = (\<lambda>i. if unat i < cap mod 2 ^ 32 then Some (- 1) else None)\<rparr>)"

definition fixed_fd_table_dtor :: "('c, u32) boost_channel \<Rightarrow> 'c fixed_fd_table \<Rightarrow> 'c fixed_fd_table" where
  "fixed_fd_table_dtor bc t =
     (let t1 = t\<lparr>ft_free := channel_close bc (ft_free t)\<rparr>
      in if ft_ring t then t1\<lparr>kfiles := (\<lambda>_. None)\<rparr> else t1)"

text \<open>\<open>update\<close>: throws without a change when the kernel refuses.\<close>

definition ft_update :: "files_update \<Rightarrow> u32 \<Rightarrow> int \<Rightarrow> 'c fixed_fd_table \<Rightarrow> 'c fixed_fd_table outcome" where
  "ft_update upd slot fd t =
     (if upd (kfiles t) slot fd < 0
      then Throw (System_error (- upd (kfiles t) slot fd) ''io_uring_register_files_update'')
      else Ret (t\<lparr>kfiles := (kfiles t)(slot \<mapsto> fd)\<rparr>))"

definition ft_index :: "u32 \<Rightarrow> fixed_fd" where
  "ft_index slot = \<lparr>fixed_index = sint slot\<rparr>"

definition borrow_slot ::
  "('c, u32) boost_channel \<Rightarrow> 'c fixed_fd_table \<Rightarrow> (u32 \<times> 'c fixed_fd_table) outcome" where
  "borrow_slot bc t =
     bind_outcome (channel_pop bc (ft_free t)) (\<lambda>(status, v, ch).
       if status \<noteq> Ch_success then Throw (Runtime_error ''fixed_fd_table: table closed'')
       else Ret (case v of Some slot \<Rightarrow> slot | None \<Rightarrow> 0, t\<lparr>ft_free := ch\<rparr>))"

definition release_slot ::
  "('c, u32) boost_channel \<Rightarrow> u32 \<Rightarrow> 'c fixed_fd_table \<Rightarrow> 'c fixed_fd_table outcome" where
  "release_slot bc slot t =
     bind_outcome (channel_push bc (ft_free t) slot) (\<lambda>(_, ch). Ret (t\<lparr>ft_free := ch\<rparr>))"

subsection \<open>The handle \<open>fd_slot\<close>\<close>

record fd_slot =
  fs_table :: bool
  fs_slot :: u32

record 'c fd_world =
  fd_table :: "'c fixed_fd_table"
  fd_objs :: "nat \<Rightarrow> fd_slot option"

definition fd_slot_new :: "u32 \<Rightarrow> fd_slot" where
  "fd_slot_new slot = \<lparr>fs_table = True, fs_slot = slot\<rparr>"

definition fd_slot_fixed_fd :: "fd_slot \<Rightarrow> fixed_fd" where
  "fd_slot_fixed_fd s = \<lparr>fixed_index = sint (fs_slot s)\<rparr>"

definition fd_slot_fd_ref :: "fd_slot \<Rightarrow> fd_ref" where
  "fd_slot_fd_ref s = fd_ref_of_fixed \<lparr>fixed_index = sint (fs_slot s)\<rparr>"

definition fd_slot_move_ctor :: "nat \<Rightarrow> nat \<Rightarrow> 'c fd_world \<Rightarrow> 'c fd_world outcome" where
  "fd_slot_move_ctor dst src w =
     (case fd_objs w src of
        None \<Rightarrow> Undefined Dangling_handler
      | Some oth \<Rightarrow> Ret (w\<lparr>fd_objs := (fd_objs w)(src \<mapsto> oth\<lparr>fs_table := False\<rparr>, dst \<mapsto> oth)\<rparr>))"

text \<open>
  What the assignment and the destructor do with their own slot. Both are \<open>noexcept\<close>: an
  exception of \<open>update\<close> terminates the program.
\<close>

definition fd_slot_release ::
  "('c, u32) boost_channel \<Rightarrow> files_update \<Rightarrow> fd_slot \<Rightarrow> 'c fd_world \<Rightarrow> 'c fd_world outcome" where
  "fd_slot_release bc upd s w =
     (if fs_table s
      then (case ft_update upd (fs_slot s) (- 1) (fd_table w) of
              Ret t \<Rightarrow> bind_outcome (release_slot bc (fs_slot s) t) (\<lambda>t'. Ret (w\<lparr>fd_table := t'\<rparr>))
            | Throw _ \<Rightarrow> Undefined Terminate
            | Suspended \<Rightarrow> Suspended
            | Undefined u \<Rightarrow> Undefined u)
      else Ret w)"

definition fd_slot_move_assign ::
  "('c, u32) boost_channel \<Rightarrow> files_update \<Rightarrow> nat \<Rightarrow> nat \<Rightarrow> 'c fd_world \<Rightarrow> 'c fd_world outcome" where
  "fd_slot_move_assign bc upd dst src w =
     (if dst = src then Ret w else
      (case (fd_objs w dst, fd_objs w src) of
         (Some me, Some oth) \<Rightarrow>
           bind_outcome (fd_slot_release bc upd me w) (\<lambda>w1.
             Ret (w1\<lparr>fd_objs := (fd_objs w1)(src \<mapsto> oth\<lparr>fs_table := False\<rparr>, dst \<mapsto> oth)\<rparr>))
       | _ \<Rightarrow> Undefined Dangling_handler))"

definition fd_slot_dtor ::
  "('c, u32) boost_channel \<Rightarrow> files_update \<Rightarrow> nat \<Rightarrow> 'c fd_world \<Rightarrow> 'c fd_world outcome" where
  "fd_slot_dtor bc upd a w =
     (case fd_objs w a of
        None \<Rightarrow> Undefined Dangling_handler
      | Some s \<Rightarrow> bind_outcome (fd_slot_release bc upd s w) (\<lambda>w1.
          Ret (w1\<lparr>fd_objs := (fd_objs w1)(a := None)\<rparr>)))"

definition fd_slot_update :: "files_update \<Rightarrow> nat \<Rightarrow> int \<Rightarrow> 'c fd_world \<Rightarrow> 'c fd_world outcome" where
  "fd_slot_update upd a fd w =
     (case fd_objs w a of
        None \<Rightarrow> Undefined Dangling_handler
      | Some s \<Rightarrow> if fs_table s
          then bind_outcome (ft_update upd (fs_slot s) fd (fd_table w)) (\<lambda>t. Ret (w\<lparr>fd_table := t\<rparr>))
          else Undefined Null_deref)"

text \<open>
  \<open>acquire_fd_slot\<close>, constructing the handle at address \<open>a\<close>. When \<open>update\<close> throws, the slot
  has already left the free list.
\<close>

definition acquire_fd_slot ::
  "('c, u32) boost_channel \<Rightarrow> files_update \<Rightarrow> nat \<Rightarrow> bool \<Rightarrow> int \<Rightarrow> 'c fd_world \<Rightarrow>
   ('c fd_world \<times> exn option) outcome" where
  "acquire_fd_slot bc upd a configured fd w =
     (if \<not> configured
      then Ret (w, Some (Runtime_error ''acquire_fd_slot called without registered_fd_capacity configured in context_options''))
      else (case borrow_slot bc (fd_table w) of
              Ret (slot, t) \<Rightarrow> (case ft_update upd slot fd t of
                  Ret t' \<Rightarrow> Ret (w\<lparr>fd_table := t', fd_objs := (fd_objs w)(a \<mapsto> fd_slot_new slot)\<rparr>, None)
                | Throw e \<Rightarrow> Ret (w\<lparr>fd_table := t\<rparr>, Some e)
                | Suspended \<Rightarrow> Suspended
                | Undefined u \<Rightarrow> Undefined u)
            | Throw e \<Rightarrow> Ret (w, Some e)
            | Suspended \<Rightarrow> Suspended
            | Undefined u \<Rightarrow> Undefined u))"

subsection \<open>Steps of the handle objects\<close>

text \<open>
  One step is one operation of a client on live objects; the result is the new world and
  the exception that left the operation, if any. \<open>update\<close> on a moved-from handle is a
  client error and is not a step.
\<close>

inductive ft_step ::
  "('c, u32) boost_channel \<Rightarrow> files_update \<Rightarrow> 'c fd_world \<Rightarrow> ('c fd_world \<times> exn option) outcome \<Rightarrow> bool"
  for bc :: "('c, u32) boost_channel" and upd :: files_update where
  ft_acquire: "fd_objs w a = None \<Longrightarrow> ft_step bc upd w (acquire_fd_slot bc upd a True fd w)"
| ft_move_ctor: "fd_objs w dst = None \<Longrightarrow> fd_objs w src \<noteq> None \<Longrightarrow>
     ft_step bc upd w (map_outcome_state (\<lambda>w'. (w', None)) (fd_slot_move_ctor dst src w))"
| ft_move_assign: "fd_objs w dst \<noteq> None \<Longrightarrow> fd_objs w src \<noteq> None \<Longrightarrow>
     ft_step bc upd w (map_outcome_state (\<lambda>w'. (w', None)) (fd_slot_move_assign bc upd dst src w))"
| ft_dtor: "fd_objs w a \<noteq> None \<Longrightarrow>
     ft_step bc upd w (map_outcome_state (\<lambda>w'. (w', None)) (fd_slot_dtor bc upd a w))"
| ft_do_update: "fd_objs w a = Some s \<Longrightarrow> fs_table s \<Longrightarrow> fd_slot_update upd a fd w = r \<Longrightarrow>
     ft_step bc upd w (case r of Throw e \<Rightarrow> Ret (w, Some e) | _ \<Rightarrow> map_outcome_state (\<lambda>w'. (w', None)) r)"

definition ft_cstep :: "('c, u32) boost_channel \<Rightarrow> files_update \<Rightarrow> 'c fd_world \<Rightarrow> 'c fd_world \<Rightarrow> bool" where
  "ft_cstep bc upd w w' \<longleftrightarrow> ft_step bc upd w (Ret (w', None))"

definition slot_of :: "fd_slot \<Rightarrow> u32 option" where
  "slot_of s = (if fs_table s then Some (fs_slot s) else None)"

definition ft_own :: "('c \<Rightarrow> u32 fifo) \<Rightarrow> 'c fd_world \<Rightarrow> (u32, nat) own" where
  "ft_own view w = \<lparr>o_free = f_items (view (ft_free (fd_table w))), o_held = held_by slot_of (fd_objs w)\<rparr>"

text \<open>The slots that can still be used: free ones and those of live handles.\<close>

definition ft_ids :: "('c \<Rightarrow> u32 fifo) \<Rightarrow> 'c fd_world \<Rightarrow> u32 set" where
  "ft_ids view w = set (o_free (ft_own view w)) \<union> ran (o_held (ft_own view w))"

definition ft_ok :: "('c \<Rightarrow> u32 fifo) \<Rightarrow> 'c fd_world \<Rightarrow> bool" where
  "ft_ok view w \<longleftrightarrow> \<not> f_closed (view (ft_free (fd_table w)))
     \<and> capacity (fd_table w) \<le> f_limit (view (ft_free (fd_table w)))
     \<and> (\<forall>i \<in> ft_ids view w. unat i < capacity (fd_table w) \<and> kfiles (fd_table w) i \<noteq> None)
     \<and> (\<forall>i \<in> set (f_items (view (ft_free (fd_table w)))). kfiles (fd_table w) i = Some (- 1))"

lemma finite_words [simp]: "finite (A :: u32 set)"
  by (rule finite_subset [OF subset_UNIV]) simp

lemma card_ft_ids: "ft_ok view w \<Longrightarrow> card (ft_ids view w) \<le> capacity (fd_table w)"
proof -
  assume "ft_ok view w"
  then have "unat ` ft_ids view w \<subseteq> {..<capacity (fd_table w)}" by (auto simp: ft_ok_def)
  moreover have "inj_on unat (ft_ids view w)" by (rule inj_onI) (simp add: word_unat_eq_iff)
  ultimately show ?thesis by (metis card_image card_lessThan card_mono finite_lessThan)
qed

text \<open>What a step does: it suspends, leaves the world as it was, loses one slot, or acts on the specification.\<close>

definition ft_effect :: "('c \<Rightarrow> u32 fifo) \<Rightarrow> 'c fd_world \<Rightarrow> ('c fd_world \<times> exn option) outcome \<Rightarrow> bool" where
  "ft_effect view w r \<longleftrightarrow> (\<exists>c objs k. r = Ret (w\<lparr>fd_table := (fd_table w)\<lparr>ft_free := c, kfiles := k\<rparr>, fd_objs := objs\<rparr>, None)
      \<and> f_closed (view c) = f_closed (view (ft_free (fd_table w)))
      \<and> f_limit (view c) = f_limit (view (ft_free (fd_table w)))
      \<and> own_step\<^sup>*\<^sup>* (ft_own view w) \<lparr>o_free = f_items (view c), o_held = held_by slot_of objs\<rparr>
      \<and> (\<forall>i. kfiles (fd_table w) i \<noteq> None \<longrightarrow> k i \<noteq> None)
      \<and> (\<forall>i \<in> set (f_items (view c)). k i = Some (- 1)))"

definition ft_loses :: "('c \<Rightarrow> u32 fifo) \<Rightarrow> 'c fd_world \<Rightarrow> ('c fd_world \<times> exn option) outcome \<Rightarrow> bool" where
  "ft_loses view w r \<longleftrightarrow> (\<exists>c e x. r = Ret (w\<lparr>fd_table := (fd_table w)\<lparr>ft_free := c\<rparr>\<rparr>, Some e)
      \<and> f_items (view (ft_free (fd_table w))) = x # f_items (view c)
      \<and> f_closed (view c) = f_closed (view (ft_free (fd_table w)))
      \<and> f_limit (view c) = f_limit (view (ft_free (fd_table w))))"

text \<open>
  The table as a client of the channel interface and of the kernel, which always lets a
  registered slot be cleared.
\<close>

locale fd_channel =
  bounded_channel "channel_push bc" "channel_try_push bc" "channel_pop bc" "channel_close bc" view
  for bc :: "('c, u32) boost_channel" and view :: "'c \<Rightarrow> u32 fifo" +
  fixes upd :: files_update
  assumes clear_ok: "k slot \<noteq> None \<Longrightarrow> 0 \<le> upd k slot (- 1)"
begin

lemma ft_fill_all:
  assumes "\<not> f_closed (view c)" and "length (f_items (view c)) + length is \<le> f_limit (view c)"
  shows "view (ft_fill bc c is) = (view c)\<lparr>f_items := f_items (view c) @ is\<rparr>"
  using assms
proof (induction "is" arbitrary: c)
  case Nil
  then show ?case by simp
next
  case (Cons i "is")
  then have "length (f_items (view c)) < f_limit (view c)" by simp
  from try_push_succeeds [OF Cons.prems(1) this, of i] obtain c1
    where c1: "channel_try_push bc c i = (Ch_success, c1)"
      "view c1 = (view c)\<lparr>f_items := f_items (view c) @ [i]\<rparr>" by blast
  with Cons.IH [of c1] Cons.prems show ?case by simp
qed

lemma ft_release_room:
  assumes "ft_ok view w" and "partitioned (ft_ids view w) (ft_own view w)" and "fd_objs w a = Some s"
  obtains c k where "fd_slot_release bc upd s w = Ret (w\<lparr>fd_table := (fd_table w)\<lparr>ft_free := c, kfiles := k\<rparr>\<rparr>)"
    and "view c = (view (ft_free (fd_table w)))\<lparr>f_items :=
      f_items (view (ft_free (fd_table w))) @ opt_list (held_by slot_of (fd_objs w) a)\<rparr>"
    and "k = (if fs_table s then (kfiles (fd_table w))(fs_slot s \<mapsto> - 1) else kfiles (fd_table w))"
proof (cases "fs_table s")
  case False
  then show ?thesis using that [where c = "ft_free (fd_table w)" and k = "kfiles (fd_table w)"] assms(3)
    by (simp add: fd_slot_release_def held_by_def slot_of_def)
next
  case True
  let ?t = "fd_table w"
  have h: "held_by slot_of (fd_objs w) a = Some (fs_slot s)"
    using assms(3) True by (simp add: held_by_def slot_of_def)
  then have "fs_slot s \<in> ft_ids view w" by (auto simp: ft_ids_def ft_own_def ran_def)
  then have upd: "0 \<le> upd (kfiles ?t) (fs_slot s) (- 1)" using assms(1) clear_ok by (auto simp: ft_ok_def)
  have "length (f_items (view (ft_free ?t))) < capacity ?t"
    using partitioned_give_room [OF assms(2), of a "fs_slot s"] h card_ft_ids [OF assms(1)]
    by (simp add: ft_own_def)
  then have "\<not> f_closed (view (ft_free ?t))" and "length (f_items (view (ft_free ?t))) < f_limit (view (ft_free ?t))"
    using assms(1) by (simp_all add: ft_ok_def)
  from push_succeeds [OF this, of "fs_slot s"] obtain c
    where "channel_push bc (ft_free ?t) (fs_slot s) = Ret (Ch_success, c)"
      "view c = (view (ft_free ?t))\<lparr>f_items := f_items (view (ft_free ?t)) @ [fs_slot s]\<rparr>" by blast
  then show ?thesis using that [where c = c and k = "(kfiles ?t)(fs_slot s \<mapsto> - 1)"] True h upd
    by (simp add: fd_slot_release_def ft_update_def release_slot_def)
qed

lemma ft_acquire_effect:
  assumes "ft_ok view w" and "partitioned (ft_ids view w) (ft_own view w)" and "fd_objs w a = None"
  shows "(acquire_fd_slot bc upd a True fd w = Suspended \<and> f_items (view (ft_free (fd_table w))) = [])
    \<or> ft_loses view w (acquire_fd_slot bc upd a True fd w) \<or> ft_effect view w (acquire_fd_slot bc upd a True fd w)"
proof (cases "f_items (view (ft_free (fd_table w)))")
  case Nil
  then show ?thesis using pop_blocks [of "ft_free (fd_table w)"] assms(1)
    by (simp add: acquire_fd_slot_def borrow_slot_def ft_ok_def)
next
  case (Cons x xs)
  from pop_succeeds [OF Cons] obtain c where c: "channel_pop bc (ft_free (fd_table w)) = Ret (Ch_success, Some x, c)"
      "view c = (view (ft_free (fd_table w)))\<lparr>f_items := xs\<rparr>" by blast
  show ?thesis
  proof (cases "upd (kfiles (fd_table w)) x fd < 0")
    case True
    then have "ft_loses view w (acquire_fd_slot bc upd a True fd w)" using c Cons
      by (auto simp: ft_loses_def acquire_fd_slot_def borrow_slot_def ft_update_def)
    then show ?thesis by blast
  next
    case False
    have own: "own_step\<^sup>*\<^sup>* (ft_own view w) \<lparr>o_free = xs, o_held = (held_by slot_of (fd_objs w))(a \<mapsto> x)\<rparr>"
      using own_acquire [of "held_by slot_of (fd_objs w)" a x xs] assms(3) Cons
      by (simp add: ft_own_def held_by_None)
    have "distinct (x # xs)" using assms(2) Cons by (simp add: partitioned_def ft_own_def)
    then have clear: "((kfiles (fd_table w))(x \<mapsto> fd)) i = Some (- 1)" if "i \<in> set xs" for i
      using that assms(1) Cons by (auto simp: ft_ok_def)
    have "ft_effect view w (acquire_fd_slot bc upd a True fd w)"
      unfolding ft_effect_def using False own clear c
      by (intro exI [of _ c] exI [of _ "(fd_objs w)(a \<mapsto> fd_slot_new x)"] exI [of _ "(kfiles (fd_table w))(x \<mapsto> fd)"])
        (simp add: acquire_fd_slot_def borrow_slot_def ft_update_def fd_slot_new_def slot_of_def)
    then show ?thesis by blast
  qed
qed

lemma ft_move_ctor_effect:
  assumes "ft_ok view w" and "fd_objs w dst = None" and "fd_objs w src \<noteq> None"
  shows "ft_effect view w (map_outcome_state (\<lambda>w'. (w', None)) (fd_slot_move_ctor dst src w))"
proof -
  from assms(3) obtain oth where oth: "fd_objs w src = Some oth" by blast
  have "own_step\<^sup>*\<^sup>* (ft_own view w) \<lparr>o_free = o_free (ft_own view w),
      o_held = (held_by slot_of (fd_objs w))(src := None, dst := held_by slot_of (fd_objs w) src)\<rparr>"
    using own_move [of "held_by slot_of (fd_objs w)" dst _ src] assms(2)
    by (simp add: ft_own_def held_by_None)
  with assms oth show ?thesis unfolding ft_effect_def
    by (intro exI [of _ "ft_free (fd_table w)"] exI [of _ "(fd_objs w)(src \<mapsto> oth\<lparr>fs_table := False\<rparr>, dst \<mapsto> oth)"]
        exI [of _ "kfiles (fd_table w)"])
      (simp add: fd_slot_move_ctor_def ft_own_def slot_of_def held_by_Some ft_ok_def)
qed

text \<open>The slots that are free after a release are cleared.\<close>

lemma ft_release_cleared:
  assumes "ft_ok view w" and "fd_objs w a = Some s"
    and "k = (if fs_table s then (kfiles (fd_table w))(fs_slot s \<mapsto> - 1) else kfiles (fd_table w))"
    and "i \<in> set (f_items (view (ft_free (fd_table w))) @ opt_list (held_by slot_of (fd_objs w) a))"
  shows "k i = Some (- 1)"
  using assms by (auto simp: ft_ok_def held_by_def slot_of_def split: if_splits)

lemma ft_move_assign_effect:
  assumes "ft_ok view w" and "partitioned (ft_ids view w) (ft_own view w)"
    and "fd_objs w dst \<noteq> None" and "fd_objs w src \<noteq> None"
  shows "ft_effect view w (map_outcome_state (\<lambda>w'. (w', None)) (fd_slot_move_assign bc upd dst src w))"
proof (cases "dst = src")
  case True
  then show ?thesis unfolding ft_effect_def using assms(1)
    by (intro exI [of _ "ft_free (fd_table w)"] exI [of _ "fd_objs w"] exI [of _ "kfiles (fd_table w)"])
      (simp add: fd_slot_move_assign_def ft_own_def ft_ok_def)
next
  case False
  from assms obtain me oth where objs: "fd_objs w dst = Some me" "fd_objs w src = Some oth" by blast
  from ft_release_room [OF assms(1,2) objs(1)] obtain c k
    where c: "fd_slot_release bc upd me w = Ret (w\<lparr>fd_table := (fd_table w)\<lparr>ft_free := c, kfiles := k\<rparr>\<rparr>)"
      "view c = (view (ft_free (fd_table w)))\<lparr>f_items :=
         f_items (view (ft_free (fd_table w))) @ opt_list (held_by slot_of (fd_objs w) dst)\<rparr>"
      and k: "k = (if fs_table me then (kfiles (fd_table w))(fs_slot me \<mapsto> - 1) else kfiles (fd_table w))" by metis
  have "k i = Some (- 1)" if "i \<in> set (f_items (view c))" for i
    using ft_release_cleared [OF assms(1) objs(1) k, of i] that c(2) by simp
  moreover have "kfiles (fd_table w) i \<noteq> None \<longrightarrow> k i \<noteq> None" for i using k by simp
  ultimately show ?thesis unfolding ft_effect_def
    using own_assign [OF False, of "f_items (view (ft_free (fd_table w)))" "held_by slot_of (fd_objs w)"] False objs c
    by (intro exI [of _ c] exI [of _ "(fd_objs w)(src \<mapsto> oth\<lparr>fs_table := False\<rparr>, dst \<mapsto> oth)"] exI [of _ k])
      (simp add: fd_slot_move_assign_def ft_own_def slot_of_def held_by_Some)
qed

lemma ft_dtor_effect:
  assumes "ft_ok view w" and "partitioned (ft_ids view w) (ft_own view w)" and "fd_objs w a \<noteq> None"
  shows "ft_effect view w (map_outcome_state (\<lambda>w'. (w', None)) (fd_slot_dtor bc upd a w))"
proof -
  from assms obtain s where s: "fd_objs w a = Some s" by blast
  from ft_release_room [OF assms(1,2) s] obtain c k
    where c: "fd_slot_release bc upd s w = Ret (w\<lparr>fd_table := (fd_table w)\<lparr>ft_free := c, kfiles := k\<rparr>\<rparr>)"
      "view c = (view (ft_free (fd_table w)))\<lparr>f_items :=
         f_items (view (ft_free (fd_table w))) @ opt_list (held_by slot_of (fd_objs w) a)\<rparr>"
      and k: "k = (if fs_table s then (kfiles (fd_table w))(fs_slot s \<mapsto> - 1) else kfiles (fd_table w))" by metis
  have "k i = Some (- 1)" if "i \<in> set (f_items (view c))" for i
    using ft_release_cleared [OF assms(1) s k, of i] that c(2) by simp
  moreover have "kfiles (fd_table w) i \<noteq> None \<longrightarrow> k i \<noteq> None" for i using k by simp
  ultimately show ?thesis unfolding ft_effect_def
    using own_release [of "f_items (view (ft_free (fd_table w)))" "held_by slot_of (fd_objs w)" a] s c
    by (intro exI [of _ c] exI [of _ "(fd_objs w)(a := None)"] exI [of _ k])
      (simp add: fd_slot_dtor_def ft_own_def)
qed

lemma ft_update_effect:
  assumes "ft_ok view w" and "partitioned (ft_ids view w) (ft_own view w)"
    and "fd_objs w a = Some s" and "fs_table s"
  shows "(\<exists>e. fd_slot_update upd a fd w = Throw e)
    \<or> ft_effect view w (map_outcome_state (\<lambda>w'. (w', None)) (fd_slot_update upd a fd w))"
proof (cases "upd (kfiles (fd_table w)) (fs_slot s) fd < 0")
  case True
  then show ?thesis using assms by (simp add: fd_slot_update_def ft_update_def)
next
  case False
  let ?k = "(kfiles (fd_table w))(fs_slot s \<mapsto> fd)"
  have "held_by slot_of (fd_objs w) a = Some (fs_slot s)" using assms by (simp add: held_by_def slot_of_def)
  then have "fs_slot s \<notin> set (f_items (view (ft_free (fd_table w))))"
    using partitioned_held_not_free [OF assms(2), of a "fs_slot s"] by (simp add: ft_own_def)
  then have "?k i = Some (- 1)" if "i \<in> set (f_items (view (ft_free (fd_table w))))" for i
    using that assms(1) by (auto simp: ft_ok_def)
  then have "ft_effect view w (map_outcome_state (\<lambda>w'. (w', None)) (fd_slot_update upd a fd w))"
    unfolding ft_effect_def using False assms
    by (intro exI [of _ "ft_free (fd_table w)"] exI [of _ "fd_objs w"] exI [of _ ?k])
      (simp add: fd_slot_update_def ft_update_def ft_own_def)
  then show ?thesis by blast
qed

lemma ft_step_effect:
  assumes "ft_ok view w" and "partitioned (ft_ids view w) (ft_own view w)" and "ft_step bc upd w r"
  shows "(r = Suspended \<and> f_items (view (ft_free (fd_table w))) = []) \<or> (\<exists>e. r = Ret (w, Some e))
    \<or> ft_loses view w r \<or> ft_effect view w r"
  using assms(3)
proof cases
  case (ft_acquire a fd)
  then show ?thesis using ft_acquire_effect [OF assms(1,2)] by blast
next
  case (ft_move_ctor dst src)
  then show ?thesis using ft_move_ctor_effect [OF assms(1)] by blast
next
  case (ft_move_assign dst src)
  then show ?thesis using ft_move_assign_effect [OF assms(1,2)] by blast
next
  case (ft_dtor a)
  then show ?thesis using ft_dtor_effect [OF assms(1,2)] by blast
next
  case (ft_do_update a s fd r')
  from ft_update_effect [OF assms(1,2) ft_do_update(2,3), of fd] show ?thesis
  proof (elim disjE exE)
    fix e assume "fd_slot_update upd a fd w = Throw e"
    then show ?thesis using ft_do_update by simp
  next
    assume eff: "ft_effect view w (map_outcome_state (\<lambda>w'. (w', None)) (fd_slot_update upd a fd w))"
    then have "r = map_outcome_state (\<lambda>w'. (w', None)) r'"
      using ft_do_update by (cases r') (auto simp: ft_effect_def)
    then show ?thesis using eff ft_do_update by simp
  qed
qed

text \<open>A failed acquisition keeps the invariant with one slot less.\<close>

lemma ft_loses_inv:
  assumes "ft_ok view w" and "partitioned (ft_ids view w) (ft_own view w)" and "ft_loses view w (Ret (w', e))"
  shows "ft_ok view w' \<and> partitioned (ft_ids view w') (ft_own view w')
    \<and> Suc (card (ft_ids view w')) = card (ft_ids view w) \<and> capacity (fd_table w') = capacity (fd_table w)"
proof -
  from assms(3) obtain c x where w': "w' = w\<lparr>fd_table := (fd_table w)\<lparr>ft_free := c\<rparr>\<rparr>"
    and x: "f_items (view (ft_free (fd_table w))) = x # f_items (view c)"
    and v: "f_closed (view c) = f_closed (view (ft_free (fd_table w)))"
      "f_limit (view c) = f_limit (view (ft_free (fd_table w)))" by (auto simp: ft_loses_def)
  have d: "x \<notin> set (f_items (view c))" "x \<notin> ran (held_by slot_of (fd_objs w))"
    using assms(2) x by (auto simp: partitioned_def ft_own_def)
  have ids: "ft_ids view w = insert x (ft_ids view w')" "x \<notin> ft_ids view w'"
    using x d w' by (auto simp: ft_ids_def ft_own_def)
  have "ft_ok view w'" using assms(1) ids(1) v w' x by (auto simp: ft_ok_def)
  moreover have "partitioned (ft_ids view w') (ft_own view w')"
    using assms(2) x w' by (auto simp: partitioned_def ft_own_def ft_ids_def)
  ultimately show ?thesis using ids w' by simp
qed

lemma ft_effect_inv:
  assumes "ft_ok view w" and "partitioned (ft_ids view w) (ft_own view w)" and "ft_effect view w (Ret (w', e))"
  shows "own_step\<^sup>*\<^sup>* (ft_own view w) (ft_own view w')" and "ft_ids view w' = ft_ids view w"
    and "ft_ok view w'" and "capacity (fd_table w') = capacity (fd_table w)" and "e = None"
proof -
  from assms(3) obtain c objs k
    where w': "w' = w\<lparr>fd_table := (fd_table w)\<lparr>ft_free := c, kfiles := k\<rparr>, fd_objs := objs\<rparr>" and e: "e = None"
    and v: "f_closed (view c) = f_closed (view (ft_free (fd_table w)))"
      "f_limit (view c) = f_limit (view (ft_free (fd_table w)))"
    and own: "own_step\<^sup>*\<^sup>* (ft_own view w) \<lparr>o_free = f_items (view c), o_held = held_by slot_of objs\<rparr>"
    and k: "\<And>i. kfiles (fd_table w) i \<noteq> None \<Longrightarrow> k i \<noteq> None" "\<And>i. i \<in> set (f_items (view c)) \<Longrightarrow> k i = Some (- 1)"
    by (auto simp: ft_effect_def)
  show own': "own_step\<^sup>*\<^sup>* (ft_own view w) (ft_own view w')" using own w' by (simp add: ft_own_def)
  show ids: "ft_ids view w' = ft_ids view w"
    using own_steps_partitioned [OF own' assms(2)] by (simp add: partitioned_def ft_ids_def)
  show "ft_ok view w'" using assms(1) ids v w' k by (auto simp: ft_ok_def)
  show "capacity (fd_table w') = capacity (fd_table w)" "e = None" using w' e by simp_all
qed

end

sublocale fd_channel \<subseteq> fd: raii_pool "ft_cstep bc upd" "ft_own view" "ft_ids view" "ft_ok view"
proof unfold_locales
  fix s t :: "'c fd_world"
  assume a: "ft_ok view s" "partitioned (ft_ids view s) (ft_own view s)" "ft_cstep bc upd s t"
  from ft_step_effect [OF a(1,2) a(3) [unfolded ft_cstep_def]]
  have "ft_effect view s (Ret (t, None))" by (auto simp: ft_loses_def)
  note inv = ft_effect_inv [OF a(1,2) this]
  show "own_step\<^sup>*\<^sup>* (ft_own view s) (ft_own view t)" by (rule inv(1))
  show "ft_ok view t \<and> ft_ids view t = ft_ids view s" using inv by simp
qed

subsection \<open>Reachable worlds, counting failed acquisitions\<close>

definition ft_start :: "'c fixed_fd_table \<Rightarrow> 'c fd_world" where
  "ft_start t = \<lparr>fd_table = t, fd_objs = (\<lambda>_. None)\<rparr>"

inductive ft_reach :: "('c, u32) boost_channel \<Rightarrow> files_update \<Rightarrow> 'c fixed_fd_table \<Rightarrow> nat \<Rightarrow> 'c fd_world \<Rightarrow> bool"
  for bc :: "('c, u32) boost_channel" and upd :: files_update and t :: "'c fixed_fd_table" where
  fr_start: "ft_reach bc upd t 0 (ft_start t)"
| fr_step: "ft_reach bc upd t n w \<Longrightarrow> ft_cstep bc upd w w' \<Longrightarrow> ft_reach bc upd t n w'"
| fr_fail: "ft_reach bc upd t n w \<Longrightarrow> fd_objs w a = None \<Longrightarrow>
     acquire_fd_slot bc upd a True fd w = Ret (w', Some e) \<Longrightarrow> ft_reach bc upd t (Suc n) w'"

context fd_channel
begin

lemma ft_reach_inv:
  assumes "ft_reach bc upd t n w" and "ft_ok view (ft_start t)"
    and "partitioned (ft_ids view (ft_start t)) (ft_own view (ft_start t))"
    and "card (ft_ids view (ft_start t)) = capacity t"
  shows "ft_ok view w \<and> partitioned (ft_ids view w) (ft_own view w)
    \<and> card (ft_ids view w) + n = capacity t \<and> capacity (fd_table w) = capacity t"
  using assms(1)
proof (induction rule: ft_reach.induct)
  case fr_start
  then show ?case using assms(2-4) by (simp add: ft_start_def)
next
  case (fr_step n w w')
  then have eff: "ft_effect view w (Ret (w', None))"
    using ft_step_effect [of w "Ret (w', None)"] by (auto simp: ft_cstep_def ft_loses_def)
  from fr_step ft_effect_inv(4) [OF _ _ eff] fd.step_partitioned [of w w'] show ?case by auto
next
  case (fr_fail n w a fd w' e)
  then have "ft_loses view w (Ret (w', Some e))"
    using ft_acquire_effect [of w a fd] by (auto simp: ft_effect_def)
  with fr_fail.IH ft_loses_inv [of w w' "Some e"] show ?case by auto
qed

end

text \<open>Documented behaviour of the kernel: clearing a registered slot does not fail.\<close>

definition clearing_succeeds :: "files_update \<Rightarrow> bool" where
  "clearing_succeeds upd \<longleftrightarrow> (\<forall>k slot. k slot \<noteq> None \<longrightarrow> 0 \<le> upd k slot (- 1))"

lemma fd_channel_of_boost:
  assumes "boost_buffered_channel bc items ring_size" and "clearing_succeeds upd"
  shows "fd_channel bc (channel_view bc items ring_size) upd"
  using boost_buffered_channel.is_bounded_channel [OF assms(1)] assms(2)
  by (simp add: fd_channel_def fd_channel_axioms_def clearing_succeeds_def)

text \<open>A kernel that accepts descriptors from \<open>-1\<close> upwards into registered slots.\<close>

definition ref_update :: files_update where
  "ref_update k slot fd = (if k slot = None then - EINVAL else if fd < - 1 then - EBADF else 1)"

interpretation ref_ft: fd_channel ref_boost "channel_view ref_boost rc_items rc_size" ref_update
  by (rule fd_channel_of_boost [OF ref_bc.boost_buffered_channel_axioms]) (simp add: ref_update_def clearing_succeeds_def)

subsection \<open>What construction gives\<close>

lemma ft_ctor_eval:
  assumes "boost_buffered_channel bc items ring_size" and "0 < cap" and "cap < 2 ^ 32"
  shows "\<exists>ch. items ch = map word_of_nat [0..<cap] \<and> \<not> bc_is_closed bc ch \<and> cap \<le> ring_size ch - 1 \<and>
    fixed_fd_table_ctor bc reg has_ring cap =
     (if \<not> has_ring then Throw (Runtime_error ''fixed_fd_table constructed outside of a fiberexec worker thread'')
      else if reg (replicate cap (- 1)) (word_of_nat cap) < 0
      then Throw (System_error (- reg (replicate cap (- 1)) (word_of_nat cap)) ''io_uring_register_files'')
      else Ret \<lparr>ft_ring = True, capacity = cap, ft_free = ch,
                kfiles = (\<lambda>i. if unat i < cap then Some (- 1) else None)\<rparr>)"
proof -
  let ?v = "channel_view bc items ring_size"
  have n: "1 \<le> cap" "cap < 2 ^ 63" "cap mod 2 ^ 32 = cap" "cap \<le> int_vector_max_size"
    using assms(2,3) by (simp_all add: int_vector_max_size_def)
  obtain c where c: "channel_new bc cap = Ret c"
      "?v c = \<lparr>f_items = [], f_limit = bit_ceil (Suc cap) - 1, f_closed = False\<rparr>"
    by (rule boost_buffered_channel.new_channel [OF assms(1) n(1,2)])
  have room: "cap \<le> bit_ceil (Suc cap) - 1" using bit_ceil_ge [of "Suc cap"] by simp
  have "fd_channel bc ?v (\<lambda>_ _ _. 0)" by (rule fd_channel_of_boost [OF assms(1)]) (simp add: clearing_succeeds_def)
  from fd_channel.ft_fill_all [OF this, of c "map word_of_nat [0..<cap]"] c(2) room
  have "?v (ft_fill bc c (map word_of_nat [0..<cap])) =
      \<lparr>f_items = map word_of_nat [0..<cap], f_limit = bit_ceil (Suc cap) - 1, f_closed = False\<rparr>" by simp
  then show ?thesis using assms(2) n c(1) room
    by (intro exI [of _ "ft_fill bc c (map word_of_nat [0..<cap])"])
      (simp add: fixed_fd_table_ctor_def Let_def channel_view_def)
qed

lemma ft_ctor_start:
  assumes "boost_buffered_channel bc items ring_size" and "0 < cap" and "cap < 2 ^ 32"
    and "fixed_fd_table_ctor bc reg has_ring cap = Ret t"
  defines "v \<equiv> channel_view bc items ring_size"
  shows "ft_ok v (ft_start t)" and "partitioned (ft_ids v (ft_start t)) (ft_own v (ft_start t))"
    and "card (ft_ids v (ft_start t)) = capacity t" and "capacity t = cap"
proof -
  from ft_ctor_eval [OF assms(1-3), of reg has_ring] assms(4) obtain ch
    where ch: "items ch = map word_of_nat [0..<cap]" "\<not> bc_is_closed bc ch" "cap \<le> ring_size ch - 1"
      and t: "t = \<lparr>ft_ring = True, capacity = cap, ft_free = ch, kfiles = (\<lambda>i. if unat i < cap then Some (- 1) else None)\<rparr>"
    by (auto split: if_splits)
  have le: "cap \<le> 2 ^ LENGTH(32)" using assms(3) by simp
  have ids: "ft_ids v (ft_start t) = set (map word_of_nat [0..<cap])"
    using ch t by (simp add: ft_ids_def ft_own_def ft_start_def v_def channel_view_def)
  have dist: "distinct (map word_of_nat [0..<cap] :: u32 list)" by (rule distinct_map_word_of_nat [OF le])
  show "ft_ok v (ft_start t)" using ids ch t set_map_word_of_nat_unat [OF _ le]
    by (auto simp: ft_ok_def ft_start_def v_def channel_view_def)
  show "partitioned (ft_ids v (ft_start t)) (ft_own v (ft_start t))"
    using dist ids ch t by (simp add: partitioned_def ft_own_def ft_start_def v_def channel_view_def)
  show "card (ft_ids v (ft_start t)) = capacity t" "capacity t = cap"
    using distinct_card [OF dist] ids t by simp_all
qed

subsection \<open>Properties\<close>

text \<open>
  C29. Exclusive use of registered descriptors. Take a table built for fewer than \<open>2 ^ 32\<close>
  slots, over a channel and a kernel with the documented behaviour, and any sequence of
  acquiring, moving, assigning, updating and destroying handles. Free slots, slots of live
  handles and failed acquisitions add up to the capacity; two owning handles never share a
  slot; every owned slot is a valid index; and every slot on the free list is cleared in
  the kernel. Any further operation returns or throws, except an acquisition with an empty
  free list, which suspends: no release blocks and none terminates the program.
\<close>

theorem fd_slot_safety:
  assumes "boost_buffered_channel bc items ring_size"
    and "clearing_succeeds upd" and "0 < cap" and "cap < 2 ^ 32" and "fixed_fd_table_ctor bc reg has_ring cap = Ret t"
    and "ft_reach bc upd t n w"
  shows "length (items (ft_free (fd_table w))) + card (dom (held_by slot_of (fd_objs w))) + n = cap \<and>
    (\<forall>a b x y. fd_objs w a = Some x \<and> fd_objs w b = Some y \<and> fs_table x \<and> fs_table y \<and> a \<noteq> b \<longrightarrow>
       fs_slot x \<noteq> fs_slot y) \<and>
    (\<forall>a x. fd_objs w a = Some x \<and> fs_table x \<longrightarrow> unat (fs_slot x) < cap
       \<and> fs_slot x \<notin> set (items (ft_free (fd_table w)))) \<and>
    (\<forall>i \<in> set (items (ft_free (fd_table w))). kfiles (fd_table w) i = Some (- 1)) \<and>
    (\<forall>r. ft_step bc upd w r \<longrightarrow> (\<exists>w' e. r = Ret (w', e)) \<or> (r = Suspended \<and> items (ft_free (fd_table w)) = []))"
proof -
  let ?v = "channel_view bc items ring_size"
  note start = ft_ctor_start [OF assms(1,3-5)]
  have fdc: "fd_channel bc ?v upd" by (rule fd_channel_of_boost [OF assms(1,2)])
  from fd_channel.ft_reach_inv [OF fdc assms(6) start(1-3)] start(4)
  have ok: "ft_ok ?v w" and part: "partitioned (ft_ids ?v w) (ft_own ?v w)"
    and n: "card (ft_ids ?v w) + n = cap" and cap: "capacity (fd_table w) = cap" by auto
  have free: "o_free (ft_own ?v w) = items (ft_free (fd_table w))" by (simp add: ft_own_def channel_view_def)
  have held: "o_held (ft_own ?v w) a = Some (fs_slot x)" if "fd_objs w a = Some x" "fs_table x" for a x
    using that by (simp add: ft_own_def held_by_def slot_of_def)
  have in_cap: "unat i < cap" if "i \<in> ft_ids ?v w" for i
    using that ok cap by (auto simp: ft_ok_def)
  have "length (items (ft_free (fd_table w))) + card (dom (held_by slot_of (fd_objs w))) + n = cap"
    using partitioned_count(1) [OF part] n free by (simp add: ft_own_def)
  moreover have "fs_slot x \<noteq> fs_slot y"
    if "fd_objs w a = Some x" "fd_objs w b = Some y" "fs_table x" "fs_table y" "a \<noteq> b" for a b x y
    using partitioned_exclusive [OF part held [OF that(1,3)]] held [OF that(2,4)] that(5) by auto
  moreover have "unat (fs_slot x) < cap \<and> fs_slot x \<notin> set (items (ft_free (fd_table w)))"
    if "fd_objs w a = Some x" "fs_table x" for a x
    using in_cap [OF partitioned_held_in [OF part held [OF that]]]
      partitioned_held_not_free [OF part held [OF that]] free by simp
  moreover have "\<forall>i \<in> set (items (ft_free (fd_table w))). kfiles (fd_table w) i = Some (- 1)"
    using ok by (simp add: ft_ok_def channel_view_def)
  moreover have "(\<exists>w' e. r = Ret (w', e)) \<or> (r = Suspended \<and> items (ft_free (fd_table w)) = [])"
    if "ft_step bc upd w r" for r
    using fd_channel.ft_step_effect [OF fdc ok part that]
    by (auto simp: ft_loses_def ft_effect_def channel_view_def)
  ultimately show ?thesis by blast
qed

text \<open>A table with one slot over the reference channel.\<close>

lemma example_table:
  "\<exists>t. fixed_fd_table_ctor ref_boost (\<lambda>_ _. 0) True 1 = Ret t
     \<and> rc_items (ft_free t) = [0] \<and> \<not> rc_closed (ft_free t) \<and> kfiles t 0 = Some (- 1)"
  using ft_ctor_eval [OF ref_bc.boost_buffered_channel_axioms, of 1 "\<lambda>_ _. 0" True]
  by (auto simp: ref_boost_simps)

lemma ref_acquire:
  assumes "rc_items (ft_free (fd_table w)) = i # is" and "\<not> rc_closed (ft_free (fd_table w))"
  shows "acquire_fd_slot ref_boost upd a True fd w =
    (let c = (ft_free (fd_table w))\<lparr>rc_items := is\<rparr>; r = upd (kfiles (fd_table w)) i fd in
     if r < 0 then Ret (w\<lparr>fd_table := (fd_table w)\<lparr>ft_free := c\<rparr>\<rparr>, Some (System_error (- r) ''io_uring_register_files_update''))
     else Ret (w\<lparr>fd_table := (fd_table w)\<lparr>ft_free := c, kfiles := (kfiles (fd_table w))(i \<mapsto> fd)\<rparr>,
               fd_objs := (fd_objs w)(a \<mapsto> fd_slot_new i)\<rparr>, None))"
  using assms
  by (simp add: acquire_fd_slot_def borrow_slot_def channel_pop_def ref_boost_simps ft_update_def Let_def)

theorem fd_slot_safety_witness:
  "\<exists>t w. fixed_fd_table_ctor ref_boost (\<lambda>_ _. 0) True 1 = Ret t \<and> ft_reach ref_boost ref_update t 0 w
     \<and> fd_objs w 7 = Some (fd_slot_new 0) \<and> length (rc_items (ft_free (fd_table w))) = 0
     \<and> (\<forall>r. ft_step ref_boost ref_update w r \<longrightarrow> (\<exists>w' e. r = Ret (w', e)) \<or> r = Suspended)"
proof -
  obtain t where t: "fixed_fd_table_ctor ref_boost (\<lambda>_ _. 0) True 1 = Ret t" "rc_items (ft_free t) = [0]"
      "\<not> rc_closed (ft_free t)" "kfiles t 0 = Some (- 1)" using example_table by blast
  define w where "w = (ft_start t)\<lparr>fd_table := t\<lparr>ft_free := (ft_free t)\<lparr>rc_items := []\<rparr>, kfiles := (kfiles t)(0 \<mapsto> 5)\<rparr>,
     fd_objs := [7 \<mapsto> fd_slot_new 0]\<rparr>"
  have "ft_cstep ref_boost ref_update (ft_start t) w"
    using ft_acquire [of "ft_start t" 7 ref_boost ref_update 5] ref_acquire [of "ft_start t" 0 "[]" ref_update 7 5] t
    by (simp add: ft_cstep_def ft_start_def w_def Let_def ref_update_def)
  then have r: "ft_reach ref_boost ref_update t 0 w" using fr_start fr_step by metis
  have c: "clearing_succeeds ref_update" by (simp add: clearing_succeeds_def ref_update_def)
  have o7: "fd_objs w 7 = Some (fd_slot_new 0)" by (simp add: w_def)
  note safe = fd_slot_safety [OF ref_bc.boost_buffered_channel_axioms c _ _ t(1) r]
  from safe have "length (rc_items (ft_free (fd_table w))) + card (dom (held_by slot_of (fd_objs w))) = 1" by simp
  moreover have "dom (held_by slot_of (fd_objs w)) = {7}"
    by (auto simp: w_def held_by_def slot_of_def fd_slot_new_def split: if_splits)
  ultimately show ?thesis using t(1) r o7 safe by auto
qed

text \<open>One refused acquisition in a world without handles.\<close>

definition refused :: "('c, u32) boost_channel \<Rightarrow> files_update \<Rightarrow> nat \<Rightarrow> int \<Rightarrow> 'c fd_world \<Rightarrow> 'c fd_world \<Rightarrow> bool" where
  "refused bc upd a bad u v \<longleftrightarrow>
     acquire_fd_slot bc upd a True bad u = Ret (v, Some (System_error EBADF ''io_uring_register_files_update''))"

lemma refused_step:
  assumes "boost_buffered_channel bc items ring_size" and "ft_ok (channel_view bc items ring_size) w"
    and "fd_objs w = (\<lambda>_. None)" and "ft_ids (channel_view bc items ring_size) w \<noteq> {}"
    and "\<forall>k slot. k slot \<noteq> None \<longrightarrow> upd k slot bad = - EBADF"
  shows "\<exists>w'. refused bc upd a bad w w' \<and> fd_objs w' = (\<lambda>_. None)"
proof -
  let ?v = "channel_view bc items ring_size"
  have "f_items (?v (ft_free (fd_table w))) \<noteq> []"
    using assms(3,4) by (simp add: ft_ids_def ft_own_def held_by_def)
  then obtain x xs where x: "f_items (?v (ft_free (fd_table w))) = x # xs" by (meson list.exhaust)
  from bounded_channel.pop_succeeds [OF boost_buffered_channel.is_bounded_channel [OF assms(1)] x]
  obtain c where c: "channel_pop bc (ft_free (fd_table w)) = Ret (Ch_success, Some x, c)" by blast
  have "kfiles (fd_table w) x \<noteq> None" using assms(2) x by (simp add: ft_ok_def)
  then have "upd (kfiles (fd_table w)) x bad = - EBADF"
    using spec [OF spec [OF assms(5), of "kfiles (fd_table w)"], of x] by simp
  with c assms(3) show ?thesis
    by (intro exI [of _ "w\<lparr>fd_table := (fd_table w)\<lparr>ft_free := c\<rparr>\<rparr>"])
      (simp add: refused_def acquire_fd_slot_def borrow_slot_def ft_update_def)
qed

text \<open>
  C32. A failed acquisition loses its slot. When the kernel refuses to install the
  descriptor, \<open>acquire_fd_slot\<close> throws \<open>std::system_error\<close> after the slot was taken off the
  free list and before a handle owns it. A table of capacity \<open>cap\<close> is exhausted by \<open>cap\<close>
  refused acquisitions: no handle is alive, and every further acquisition suspends for
  ever.
\<close>

theorem acquire_fd_slot_leak:
  assumes "boost_buffered_channel bc items ring_size" and "clearing_succeeds upd"
    and "0 < cap" and "cap < 2 ^ 32" and "fixed_fd_table_ctor bc reg has_ring cap = Ret t"
    and "\<forall>k slot. k slot \<noteq> None \<longrightarrow> upd k slot bad = - EBADF"
  shows "\<exists>w. (refused bc upd a bad ^^ cap) (ft_start t) w \<and> fd_objs w = (\<lambda>_. None)
    \<and> acquire_fd_slot bc upd a True fd w = Suspended"
proof -
  let ?v = "channel_view bc items ring_size"
  note start = ft_ctor_start [OF assms(1,3-5)]
  note inv = fd_channel.ft_reach_inv [OF fd_channel_of_boost [OF assms(1,2)] _ start(1-3)]
  have step: "\<exists>w. (refused bc upd a bad ^^ n) (ft_start t) w \<and> ft_reach bc upd t n w \<and> fd_objs w = (\<lambda>_. None)"
    if "n \<le> cap" for n
    using that
  proof (induction n)
    case 0
    show ?case using fr_start by (intro exI [of _ "ft_start t"]) (simp add: ft_start_def)
  next
    case (Suc n)
    then obtain w where w: "(refused bc upd a bad ^^ n) (ft_start t) w" "ft_reach bc upd t n w"
      "fd_objs w = (\<lambda>_. None)" by auto
    from inv [OF w(2)] start(4) Suc.prems have "ft_ok ?v w" "ft_ids ?v w \<noteq> {}" by auto
    from refused_step [where upd = upd and bad = bad, OF assms(1) this(1) w(3) this(2) assms(6)]
    obtain w' where w': "refused bc upd a bad w w'" "fd_objs w' = (\<lambda>_. None)" by blast
    have "ft_reach bc upd t (Suc n) w'" by (rule fr_fail [OF w(2) _ w'(1) [unfolded refused_def]]) (simp add: w(3))
    then show ?case using relpowp_Suc_I [OF w(1) w'(1)] w'(2) by (intro exI [of _ w'] conjI)
  qed
  from step [of cap] obtain w where w: "(refused bc upd a bad ^^ cap) (ft_start t) w" "ft_reach bc upd t cap w"
      "fd_objs w = (\<lambda>_. None)" by blast
  from inv [OF w(2)] start(4) have "ft_ok ?v w" "ft_ids ?v w = {}" by auto
  then have "f_items (?v (ft_free (fd_table w))) = []" "\<not> f_closed (?v (ft_free (fd_table w)))"
    by (auto simp: ft_ids_def ft_own_def ft_ok_def)
  from bounded_channel.pop_blocks [OF boost_buffered_channel.is_bounded_channel [OF assms(1)] this]
  have "acquire_fd_slot bc upd a True fd w = Suspended" by (simp add: acquire_fd_slot_def borrow_slot_def)
  with w(1,3) show ?thesis by (intro exI [of _ w] conjI)
qed


theorem acquire_fd_slot_leak_witness:
  "\<exists>t w. fixed_fd_table_ctor ref_boost (\<lambda>_ _. 0) True 1 = Ret t
     \<and> (refused ref_boost ref_update 7 (- 5) ^^ 1) (ft_start t) w \<and> fd_objs w = (\<lambda>_. None)
     \<and> acquire_fd_slot ref_boost ref_update 7 True 3 w = Suspended"
proof -
  obtain t where t: "fixed_fd_table_ctor ref_boost (\<lambda>_ _. 0) True 1 = Ret t" using example_table by blast
  have "clearing_succeeds ref_update" "\<forall>k slot. k slot \<noteq> None \<longrightarrow> ref_update k slot (- 5) = - EBADF"
    by (simp_all add: clearing_succeeds_def ref_update_def)
  from acquire_fd_slot_leak [where upd = ref_update and bad = "- 5" and a = 7 and fd = 3,
      OF ref_bc.boost_buffered_channel_axioms this(1) _ _ t this(2)] t
  show ?thesis by auto
qed

text \<open>
  Installing a descriptor. In a reachable world, an acquisition that returns gives the
  new handle a slot that was free, the kernel then maps that slot to the descriptor, no
  other slot and no other handle changes, and for a table of at most \<open>2 ^ 31\<close> slots the
  handle converts to the non-negative registered index of that slot with the fixed flag.
\<close>

lemma acquire_fd_slot_installs:
  assumes "acquire_fd_slot bc upd a True fd w = Ret (w', None)"
    and "boost_buffered_channel bc items ring_size" and "clearing_succeeds upd"
    and "0 < cap" and "cap \<le> 2 ^ 31" and "fixed_fd_table_ctor bc reg has_ring cap = Ret t"
    and "ft_reach bc upd t n w"
  shows "\<exists>slot. slot \<in> set (items (ft_free (fd_table w))) \<and> fd_objs w' = (fd_objs w)(a \<mapsto> fd_slot_new slot)
    \<and> kfiles (fd_table w') = (kfiles (fd_table w))(slot \<mapsto> fd)
    \<and> items (ft_free (fd_table w)) = slot # items (ft_free (fd_table w'))
    \<and> fd_slot_fd_ref (fd_slot_new slot) = \<lparr>fd_index = int (unat slot), fd_fixed = True\<rparr> \<and> unat slot < cap"
proof -
  let ?v = "channel_view bc items ring_size"
  have lt: "cap < 2 ^ 32" using assms(5) by simp
  note start = ft_ctor_start [OF assms(2,4) lt assms(6)]
  from fd_channel.ft_reach_inv [OF fd_channel_of_boost [OF assms(2,3)] assms(7) start(1-3)] start(4)
  have ok: "ft_ok ?v w" and cap: "capacity (fd_table w) = cap" by auto
  have bch: "bounded_channel (channel_push bc) (channel_try_push bc) (channel_pop bc) (channel_close bc) ?v"
    by (rule boost_buffered_channel.is_bounded_channel [OF assms(2)])
  show ?thesis
  proof (cases "items (ft_free (fd_table w))")
    case Nil
    then have "channel_pop bc (ft_free (fd_table w)) = Suspended"
      using bounded_channel.pop_blocks [OF bch] ok by (simp add: ft_ok_def channel_view_def)
    with assms(1) show ?thesis by (simp add: acquire_fd_slot_def borrow_slot_def)
  next
    case (Cons x xs)
    then have x: "f_items (?v (ft_free (fd_table w))) = x # xs" by (simp add: channel_view_def)
    from bounded_channel.pop_succeeds [OF bch x] obtain c
      where c: "channel_pop bc (ft_free (fd_table w)) = Ret (Ch_success, Some x, c)" "items c = xs"
      by (auto simp: channel_view_def)
    have "x \<in> ft_ids ?v w" using Cons by (simp add: ft_ids_def ft_own_def channel_view_def)
    then have ux: "unat x < cap" using ok cap by (auto simp: ft_ok_def)
    have "sint x = int (unat x)" using ux assms(5) by (intro sint_unat_small) simp
    with assms(1) c Cons ux show ?thesis
      by (intro exI [of _ x]) (auto simp: acquire_fd_slot_def borrow_slot_def ft_update_def fd_slot_fd_ref_def
          fd_ref_of_fixed_def fd_slot_new_def split: if_splits)
  qed
qed

text \<open>
  C30. Construction of a table. For fewer than \<open>2 ^ 32\<close> slots the constructor throws the
  documented exceptions outside a worker and when the kernel refuses, and otherwise
  registers exactly \<open>cap\<close> empty slots and puts each on the free list once, in order. A
  capacity of zero is rejected, but by the channel with \<open>EINVAL\<close> and not by the check the
  constructor has for it, which is never reached.
\<close>

theorem fixed_fd_table_construction:
  assumes "boost_buffered_channel bc items ring_size" and "cap < 2 ^ 32"
    and "r = reg (replicate cap (- 1)) (word_of_nat cap)"
  shows "case fixed_fd_table_ctor bc reg has_ring cap of
      Ret t \<Rightarrow> 0 < cap \<and> has_ring \<and> 0 \<le> r \<and> capacity t = cap \<and> items (ft_free t) = map word_of_nat [0..<cap]
        \<and> (\<forall>i. kfiles t i = (if unat i < cap then Some (- 1) else None))
    | Throw e \<Rightarrow> (cap = 0 \<and> (\<exists>m. e = System_error EINVAL m))
        \<or> (0 < cap \<and> \<not> has_ring \<and> e = Runtime_error ''fixed_fd_table constructed outside of a fiberexec worker thread'')
        \<or> (0 < cap \<and> has_ring \<and> r < 0 \<and> e = System_error (- r) ''io_uring_register_files'')
    | _ \<Rightarrow> False"
proof (cases "cap = 0")
  case True
  then show ?thesis using boost_buffered_channel.new_channel_zero [OF assms(1)]
    by (auto simp: fixed_fd_table_ctor_def)
next
  case False
  then show ?thesis using ft_ctor_eval [OF assms(1) _ assms(2), of reg has_ring] assms(3) by auto
qed

theorem fixed_fd_table_construction_witness:
  "\<exists>m. fixed_fd_table_ctor ref_boost (\<lambda>_ _. 0) True 0 = Throw (System_error EINVAL m)"
  using fixed_fd_table_construction [OF ref_bc.boost_buffered_channel_axioms, of 0 0 "\<lambda>_ _. 0" True]
  by (auto split: outcome.splits)

end
