(* ===== verification/Scheduler.thy ===== *)
theory Scheduler
  imports Uring
begin

text \<open>
  \<open>io_uring_scheduler\<close> of \<open>src/fiber_context.cpp\<close>: the per-thread scheduling algorithm, with the
  part of \<open>fiber_pool\<close> it reads. The virtual call \<open>cqe_handler::complete\<close> is an argument of
  the definitions (the handler classes are defined in the theories of their components); the
  locale \<open>cqe_handlers\<close> is the contract that \<open>drain_cqes\<close> needs of it.
\<close>

subsection \<open>State\<close>

text \<open>
  The shared pool: \<open>work_queue_\<close> (an empty \<open>task\<close> is \<open>None\<close>), the counter of the semaphore
  eventfd, \<open>running_\<close>, \<open>in_flight_\<close>, and whether \<open>pool_stop_source_\<close> was asked to stop. The
  list \<open>launched\<close> is a history of the tasks given a fiber, for specification only.
\<close>

record 't pool =
  work_queue :: "'t option list"
  efd :: nat
  running :: bool
  in_flight :: nat
  pool_stop :: bool
  launched :: "'t list"

text \<open>
  One scheduler: its ring, the counter of its notify eventfd, the ready queue of fiber
  contexts, the cancel queue, the live handlers by address, and the stop callbacks that are
  registered on the pool-wide and on fiber-local stop tokens, each with the \<open>user_data\<close>
  values it cancels.
\<close>

record ('h, 't) sched =
  s_ring :: uring
  notify_count :: nat
  ready :: "nat list"
  cancel_queue :: "u64 list"
  handlers :: "u64 \<Rightarrow> 'h option"
  pool_cbs :: "u64 list list"
  fiber_cbs :: "u64 list list"
  spawned :: "'t list"

text \<open>The virtual function \<open>complete\<close>: new handler state, ring, and the fiber it made ready.\<close>

type_synonym 'h complete_fn = "'h \<Rightarrow> uring \<Rightarrow> int \<Rightarrow> u32 \<Rightarrow> ('h \<times> uring \<times> nat option) outcome"

definition k_ring_entries :: nat where "k_ring_entries = 256"

subsection \<open>The ready queue\<close>

definition awakened :: "nat \<Rightarrow> ('h, 't) sched \<Rightarrow> ('h, 't) sched" where
  "awakened ctx s = s\<lparr>ready := ready s @ [ctx]\<rparr>"

definition pick_next :: "('h, 't) sched \<Rightarrow> nat option \<times> ('h, 't) sched" where
  "pick_next s = (case ready s of [] \<Rightarrow> (None, s) | ctx # rest \<Rightarrow> (Some ctx, s\<lparr>ready := rest\<rparr>))"

definition has_ready_fibers :: "('h, 't) sched \<Rightarrow> bool" where
  "has_ready_fibers s \<longleftrightarrow> ready s \<noteq> []"

subsection \<open>Wake-ups and cancellation requests\<close>

definition notify :: "('h, 't) sched \<Rightarrow> ('h, 't) sched" where
  "notify s = s\<lparr>notify_count := notify_count s + 1\<rparr>"

definition request_cancel :: "u64 \<Rightarrow> ('h, 't) sched \<Rightarrow> ('h, 't) sched" where
  "request_cancel ud s = s\<lparr>cancel_queue := cancel_queue s @ [ud], notify_count := notify_count s + 1\<rparr>"

text \<open>The reads that watch the two eventfds: eight bytes at offset zero, tagged.\<close>

definition watch_sqe :: "int \<Rightarrow> nat \<Rightarrow> u64 \<Rightarrow> sqe \<Rightarrow> sqe" where
  "watch_sqe fd addr tag e = e\<lparr>sqe_req := Rq_read fd addr 8 0, sqe_user_data := tag\<rparr>"

definition arm_read :: "liburing \<Rightarrow> int \<Rightarrow> nat \<Rightarrow> u64 \<Rightarrow> uring \<Rightarrow> uring outcome" where
  "arm_read lu fd addr tag r =
     (case io_uring_get_sqe lu r of
        (p, r1) \<Rightarrow> bind_outcome (edit_sqe p (watch_sqe fd addr tag) r1) (\<lambda>r2. Ret (snd (io_uring_submit lu r2))))"

text \<open>The file descriptors and the addresses of the two eight-byte counters of a scheduler.\<close>

record fds =
  eventfd_fd :: int
  notify_fd :: int
  work_efd_val :: nat
  notify_val :: nat

definition arm_work_efd :: "liburing \<Rightarrow> fds \<Rightarrow> ('h, 't) sched \<Rightarrow> ('h, 't) sched outcome" where
  "arm_work_efd lu f s =
     map_outcome_state (\<lambda>r. s\<lparr>s_ring := r\<rparr>) (arm_read lu (eventfd_fd f) (work_efd_val f) k_work_tag (s_ring s))"

definition arm_notify :: "liburing \<Rightarrow> fds \<Rightarrow> ('h, 't) sched \<Rightarrow> ('h, 't) sched outcome" where
  "arm_notify lu f s =
     map_outcome_state (\<lambda>r. s\<lparr>s_ring := r\<rparr>) (arm_read lu (notify_fd f) (notify_val f) k_notify_tag (s_ring s))"

text \<open>The loop over the cancel queue: stops at the first entry without a free queue slot.\<close>

fun flush_cancels :: "liburing \<Rightarrow> u64 list \<Rightarrow> uring \<Rightarrow> (u64 list \<times> uring) outcome" where
  "flush_cancels lu [] r = Ret ([], r)"
| "flush_cancels lu (ud # uds) r =
     (case io_uring_get_sqe lu r of
        (None, r1) \<Rightarrow> Ret (ud # uds, r1)
      | (Some i, r1) \<Rightarrow> bind_outcome (edit_sqe (Some i) (cancel_sqe ud) r1) (flush_cancels lu uds))"

definition flush_cancel_queue :: "liburing \<Rightarrow> ('h, 't) sched \<Rightarrow> ('h, 't) sched outcome" where
  "flush_cancel_queue lu s =
     map_outcome_state (\<lambda>(q, r). s\<lparr>cancel_queue := q, s_ring := r\<rparr>) (flush_cancels lu (cancel_queue s) (s_ring s))"

subsection \<open>Draining completions\<close>

text \<open>
  \<open>launch_fiber\<close>: counts the task, and the detached fiber becomes ready. The identifier of
  the fiber is its position among the fibers of the thread; the main fiber is \<open>0\<close>.
\<close>

definition launch_fiber :: "'t \<Rightarrow> 't pool \<times> ('h, 't) sched \<Rightarrow> 't pool \<times> ('h, 't) sched" where
  "launch_fiber t ps =
     (case ps of (p, s) \<Rightarrow>
        (p\<lparr>in_flight := in_flight p + 1, launched := launched p @ [t]\<rparr>,
         awakened (length (spawned s) + 1) (s\<lparr>spawned := spawned s @ [t]\<rparr>)))"

text \<open>
  The work branch: take the front task under the pool mutex (\<open>None\<close> if the queue or the task is
  empty), then, with the mutex released, launch it.
\<close>

definition pop_work :: "'t pool \<Rightarrow> 't option \<times> 't pool" where
  "pop_work p = (case work_queue p of [] \<Rightarrow> (None, p) | w # ws \<Rightarrow> (w, p\<lparr>work_queue := ws\<rparr>))"

definition take_work :: "'t pool \<times> ('h, 't) sched \<Rightarrow> 't pool \<times> ('h, 't) sched" where
  "take_work ps =
     (case ps of (p, s) \<Rightarrow>
        (case pop_work p of
           (None, p1) \<Rightarrow> (p1, s)
         | (Some t, p1) \<Rightarrow> launch_fiber t (p1, s)))"

text \<open>
  One iteration of \<open>drain_cqes\<close> on a completion that was taken off the ring, as the thread of
  the scheduler runs it when no other thread interferes; \<open>stopped_between\<close> says that another
  thread cleared \<open>running_\<close> between its two loads. \<open>Fiber_Pool\<close> has the same branch access by
  access, interleaved with the other threads.
\<close>

definition drain_cqe ::
  "liburing \<Rightarrow> 'h complete_fn \<Rightarrow> fds \<Rightarrow> bool \<Rightarrow> cqe \<Rightarrow> 't pool \<times> ('h, 't) sched \<Rightarrow> ('t pool \<times> ('h, 't) sched) outcome" where
  "drain_cqe lu cpl f stopped_between c ps =
     (if cqe_user_data c = k_work_tag then
        let (p1, s1) = (if 0 \<le> cqe_res c \<and> running (fst ps) then take_work ps else ps)
        in if running p1 \<and> \<not> stopped_between
           then map_outcome_state (Pair p1) (arm_work_efd lu f s1) else Ret (p1, s1)
      else if cqe_user_data c = k_notify_tag then
        map_outcome_state (Pair (fst ps))
          (bind_outcome (flush_cancel_queue lu (snd ps)) (arm_notify lu f))
      else if cqe_user_data c = k_cancel_tag then Ret ps
      else (case handlers (snd ps) (cqe_user_data c) of
          None \<Rightarrow> Undefined Dangling_handler
        | Some h \<Rightarrow> map_outcome_state
            (\<lambda>(h', r', woken). (fst ps,
               let s' = (snd ps)\<lparr>s_ring := r', handlers := (handlers (snd ps))(cqe_user_data c \<mapsto> h')\<rparr>
               in case woken of None \<Rightarrow> s' | Some ctx \<Rightarrow> awakened ctx s'))
            (cpl h (s_ring (snd ps)) (cqe_res c) (cqe_flags c))))"

text \<open>
  The loop: peek, mark seen, handle. The list is that of the completions the loop finds: those
  in the ring at its start, followed by those the kernel posts while it runs, which queue up
  behind them.
\<close>

fun drain_list ::
  "liburing \<Rightarrow> 'h complete_fn \<Rightarrow> fds \<Rightarrow> cqe list \<Rightarrow> 't pool \<times> ('h, 't) sched \<Rightarrow> ('t pool \<times> ('h, 't) sched) outcome" where
  "drain_list lu cpl f [] ps = Ret ps"
| "drain_list lu cpl f (c # cs) ps =
     bind_outcome (drain_cqe lu cpl f False c (fst ps, (snd ps)\<lparr>s_ring := (s_ring (snd ps))\<lparr>cq := tl (cq (s_ring (snd ps)))\<rparr>\<rparr>))
       (drain_list lu cpl f cs)"

definition drain_cqes ::
  "liburing \<Rightarrow> 'h complete_fn \<Rightarrow> fds \<Rightarrow> 't pool \<times> ('h, 't) sched \<Rightarrow> ('t pool \<times> ('h, 't) sched) outcome" where
  "drain_cqes lu cpl f ps = drain_list lu cpl f (cq (s_ring (snd ps))) ps"

text \<open>
  \<open>suspend_until\<close>: skips the wait when a completion is there; otherwise waits without a limit
  for \<open>time_point::max()\<close> (\<open>None\<close>), returns at once for a time in the past, and waits with a
  timeout otherwise. The waits of liburing are parameters: \<open>None\<close> is a non-zero result.
\<close>

definition suspend_until ::
  "liburing \<Rightarrow> 'h complete_fn \<Rightarrow> fds \<Rightarrow> (uring \<Rightarrow> uring option) \<Rightarrow> (timespec \<Rightarrow> uring \<Rightarrow> uring option) \<Rightarrow>
   int option \<Rightarrow> int \<Rightarrow> 't pool \<times> ('h, 't) sched \<Rightarrow> ('t pool \<times> ('h, 't) sched) outcome" where
  "suspend_until lu cpl f wait wait_timeout abs_time now ps =
     (let r = s_ring (snd ps);
          resume = (\<lambda>r'. drain_cqes lu cpl f (fst ps, (snd ps)\<lparr>s_ring := r'\<rparr>)) in
      if cq r \<noteq> [] then drain_cqes lu cpl f ps
      else (case abs_time of
          None \<Rightarrow> (case wait r of None \<Rightarrow> Ret ps | Some r' \<Rightarrow> resume r')
        | Some t \<Rightarrow> if t \<le> now then Ret ps
            else (case wait_timeout (to_timespec (t - now)) r of None \<Rightarrow> Ret ps | Some r' \<Rightarrow> resume r')))"

text \<open>
  The constructor: both eventfds watched on a fresh ring. The results of \<open>eventfd\<close> and of the
  two ring initialisations are parameters.
\<close>

definition scheduler_ctor ::
  "liburing \<Rightarrow> fds \<Rightarrow> int \<Rightarrow> int \<Rightarrow> int \<Rightarrow> (('h, 't) sched) outcome" where
  "scheduler_ctor lu f errno init_params init_plain =
     (if notify_fd f < 0 then Throw (System_error errno ''eventfd (notify)'')
      else let ret = (if init_params = - EINVAL then init_plain else init_params) in
        if ret < 0 then Throw (System_error (- ret) ''io_uring_queue_init'')
        else bind_outcome (arm_work_efd lu f \<lparr>s_ring = empty_uring, notify_count = 0, ready = [], cancel_queue = [],
               handlers = (\<lambda>_. None), pool_cbs = [], fiber_cbs = [], spawned = []\<rparr>) (arm_notify lu f))"

subsection \<open>Queue room\<close>

lemma sq_of_size_sel [simp]:
  "lu_sqe_available (sq_of_size n) r \<longleftrightarrow> length (sq r) < n" "0 \<le> lu_submit_ret (sq_of_size n) r"
  by (simp_all add: sq_of_size_def)

lemma submit_sq_of_size [simp]:
  "snd (io_uring_submit (sq_of_size n) r) = r\<lparr>inflight := inflight r @ sq r, sq := []\<rparr>"
  by (simp add: submit_ok)

lemma arm_read_room:
  "length (sq r) < n \<Longrightarrow> arm_read (sq_of_size n) fd addr tag r =
     Ret (r\<lparr>inflight := inflight r @ sq r @ [watch_sqe fd addr tag blank_sqe], sq := []\<rparr>)"
  by (simp add: arm_read_def io_uring_get_sqe_def)

lemma arm_read_full: "n \<le> length (sq r) \<Longrightarrow> arm_read (sq_of_size n) fd addr tag r = Undefined Null_deref"
  by (simp add: arm_read_def get_sqe_full)

lemma flush_cancels_eval:
  "flush_cancels (sq_of_size n) uds r =
     Ret (drop (n - length (sq r)) uds,
          r\<lparr>sq := sq r @ map (\<lambda>u. cancel_sqe u blank_sqe) (take (n - length (sq r)) uds)\<rparr>)"
proof (induction uds arbitrary: r)
  case Nil
  then show ?case by simp
next
  case (Cons u uds)
  show ?case
  proof (cases "length (sq r) < n")
    case True
    then have "n - length (sq r) = Suc (n - Suc (length (sq r)))" by simp
    with True Cons.IH [of "r\<lparr>sq := sq r @ [cancel_sqe u blank_sqe]\<rparr>"] show ?thesis
      by (simp add: io_uring_get_sqe_def)
  next
    case False
    then show ?thesis by (simp add: get_sqe_full)
  qed
qed

text \<open>Handling a wake-up: the queued cancellations and the re-armed read reach the kernel in one submit.\<close>

lemma drain_notify_room:
  assumes "cqe_user_data c = k_notify_tag" and "sq (s_ring s) = []" and "length (cancel_queue s) < n"
  shows "drain_cqe (sq_of_size n) cpl f b c (p, s) =
    Ret (p, s\<lparr>cancel_queue := [], s_ring := (s_ring s)\<lparr>inflight := inflight (s_ring s)
      @ map (\<lambda>u. cancel_sqe u blank_sqe) (cancel_queue s)
      @ [watch_sqe (notify_fd f) (notify_val f) k_notify_tag blank_sqe]\<rparr>\<rparr>)"
  using assms
  by (simp add: drain_cqe_def flush_cancel_queue_def flush_cancels_eval arm_notify_def arm_read_room tag_defs outcome_simps)

lemma drain_notify_full:
  assumes "cqe_user_data c = k_notify_tag" and "sq (s_ring s) = []" and "n \<le> length (cancel_queue s)"
  shows "drain_cqe (sq_of_size n) cpl f b c (p, s) = Undefined Null_deref"
  using assms
  by (simp add: drain_cqe_def flush_cancel_queue_def flush_cancels_eval arm_notify_def arm_read_full tag_defs outcome_simps)

lemma take_work_sched [simp]:
  "s_ring (snd (take_work (p, s))) = s_ring s" "cancel_queue (snd (take_work (p, s))) = cancel_queue s"
  "handlers (snd (take_work (p, s))) = handlers s" "running (fst (take_work (p, s))) = running p"
  by (simp_all add: take_work_def pop_work_def launch_fiber_def awakened_def split: list.split option.split)

lemma drain_work:
  assumes "cqe_user_data c = k_work_tag" and "sq (s_ring s) = []" and "0 < n"
  shows "drain_cqe (sq_of_size n) cpl f b c (p, s) =
    (let (p1, s1) = (if 0 \<le> cqe_res c \<and> running p then take_work (p, s) else (p, s))
     in Ret (p1, if running p \<and> \<not> b
          then s1\<lparr>s_ring := (s_ring s)\<lparr>inflight := inflight (s_ring s)
            @ [watch_sqe (eventfd_fd f) (work_efd_val f) k_work_tag blank_sqe]\<rparr>\<rparr> else s1))"
proof -
  obtain p1 s1 where ps: "take_work (p, s) = (p1, s1)" by (cases "take_work (p, s)")
  then have "s_ring s1 = s_ring s" "running p1 = running p"
    using take_work_sched(1,4) [of p s] by simp_all
  then show ?thesis using assms ps
    by (simp add: drain_cqe_def Let_def arm_work_efd_def arm_read_room)
qed

text \<open>
  Completions that arrive during the loop: handling them in the same call is handling them
  after the ones that were there.
\<close>

lemma drain_list_append:
  "drain_list lu cpl f (cs @ ds) = (\<lambda>ps. bind_outcome (drain_list lu cpl f cs ps) (drain_list lu cpl f ds))"
proof (induction cs)
  case (Cons c cs)
  show ?case by (rule ext) (simp only: append_Cons drain_list.simps Cons.IH bind_outcome_assoc)
qed simp

subsection \<open>What a drain leaves alone\<close>

lemma arm_work_efd_frame:
  "arm_work_efd lu f s = Ret s' \<Longrightarrow> handlers s' = handlers s \<and> ready s' = ready s"
  by (auto simp: arm_work_efd_def outcome_simps)

lemma notify_branch_frame:
  "flush_cancel_queue lu s = Ret s1 \<Longrightarrow> handlers s1 = handlers s \<and> ready s1 = ready s"
  "arm_notify lu f s1 = Ret s2 \<Longrightarrow> handlers s2 = handlers s1 \<and> ready s2 = ready s1"
  by (auto simp: flush_cancel_queue_def arm_notify_def outcome_simps)

lemma take_work_ready: "set (ready s) \<subseteq> set (ready (snd (take_work (p, s))))"
  by (simp add: take_work_def pop_work_def launch_fiber_def awakened_def subset_insertI split: list.split option.split)

lemma drain_cqe_frame:
  assumes "drain_cqe lu cpl f b c (p, s) = Ret (p', s')"
  shows "(cqe_user_data c \<noteq> a \<longrightarrow> handlers s' a = handlers s a) \<and> set (ready s) \<subseteq> set (ready s')"
proof -
  obtain p1 s1 where ps: "take_work (p, s) = (p1, s1)" by (cases "take_work (p, s)")
  then have "handlers s1 = handlers s" "set (ready s) \<subseteq> set (ready s1)"
    using take_work_sched(3) [of p s] take_work_ready [of s p] by simp_all
  with assms ps show ?thesis
    by (auto simp: drain_cqe_def Let_def awakened_def outcome_simps split: if_splits option.splits
        dest!: arm_work_efd_frame notify_branch_frame)
qed

subsection \<open>The contract of completion handlers\<close>

text \<open>
  \<open>accepts h xs\<close> says that the handler can be given the completions \<open>xs\<close> in this order. The
  contract: such a completion is handled without undefined behaviour, leaves nothing
  unsubmitted and does not touch the completion queue.
\<close>

locale cqe_handlers =
  fixes cpl :: "'h complete_fn" and accepts :: "'h \<Rightarrow> (int \<times> u32) list \<Rightarrow> bool"
  assumes complete_ok: "accepts h ((res, flags) # xs) \<Longrightarrow> sq r = [] \<Longrightarrow>
    \<exists>h' r' w. cpl h r res flags = Ret (h', r', w) \<and> accepts h' xs \<and> sq r' = [] \<and> cq r' = cq r"

definition is_tag :: "u64 \<Rightarrow> bool" where
  "is_tag a \<longleftrightarrow> a = k_work_tag \<or> a = k_notify_tag \<or> a = k_cancel_tag"

definition completions_for :: "u64 \<Rightarrow> cqe list \<Rightarrow> (int \<times> u32) list" where
  "completions_for a cs = map (\<lambda>c. (cqe_res c, cqe_flags c)) (filter (\<lambda>c. cqe_user_data c = a) cs)"

text \<open>Every completion that is not tagged belongs to a live handler that accepts what is queued for it.\<close>

definition dispatchable :: "('h \<Rightarrow> (int \<times> u32) list \<Rightarrow> bool) \<Rightarrow> cqe list \<Rightarrow> (u64 \<Rightarrow> 'h option) \<Rightarrow> bool" where
  "dispatchable accepts cs hs \<longleftrightarrow>
     (\<forall>a. \<not> is_tag a \<longrightarrow> completions_for a cs \<noteq> [] \<longrightarrow> (\<exists>h. hs a = Some h \<and> accepts h (completions_for a cs)))"

lemma completions_for_Cons:
  "completions_for a (c # cs) =
     (if cqe_user_data c = a then (cqe_res c, cqe_flags c) # completions_for a cs else completions_for a cs)"
  by (simp add: completions_for_def)

lemma dispatchable_tag:
  "is_tag (cqe_user_data c) \<Longrightarrow> dispatchable accepts (c # cs) hs \<Longrightarrow> dispatchable accepts cs hs"
  by (auto simp: dispatchable_def completions_for_Cons split: if_splits)

context cqe_handlers
begin

lemma drain_step:
  assumes "dispatchable accepts (c # cs) (handlers s)" and "sq (s_ring s) = []" and "length (cancel_queue s) < n"
  shows "\<exists>p' s'. drain_cqe (sq_of_size n) cpl f b c (p, s) = Ret (p', s') \<and> dispatchable accepts cs (handlers s')
    \<and> sq (s_ring s') = [] \<and> length (cancel_queue s') < n \<and> cq (s_ring s') = cq (s_ring s)"
proof -
  have n: "0 < n" using assms(3) by simp
  consider "cqe_user_data c = k_work_tag" | "cqe_user_data c = k_notify_tag" | "cqe_user_data c = k_cancel_tag"
    | "\<not> is_tag (cqe_user_data c)" by (auto simp: is_tag_def)
  then show ?thesis
  proof cases
    case 1
    obtain p1 s1 where ps: "take_work (p, s) = (p1, s1)" by (cases "take_work (p, s)")
    then have "s_ring s1 = s_ring s" "cancel_queue s1 = cancel_queue s" "handlers s1 = handlers s"
      using take_work_sched [of p s] by simp_all
    then show ?thesis
      using drain_work [OF 1 assms(2) n] dispatchable_tag [OF _ assms(1)] 1 ps assms(2,3)
      by (simp add: Let_def is_tag_def)
  next
    case 2
    then show ?thesis using drain_notify_room [OF 2 assms(2,3)] dispatchable_tag [OF _ assms(1)] n assms(2)
      by (simp add: is_tag_def)
  next
    case 3
    then show ?thesis using dispatchable_tag [OF _ assms(1)] assms(2,3)
      by (simp add: drain_cqe_def is_tag_def tag_defs)
  next
    case 4
    let ?a = "cqe_user_data c"
    have "completions_for ?a (c # cs) \<noteq> []" by (simp add: completions_for_Cons)
    then obtain h where h: "handlers s ?a = Some h" "accepts h (completions_for ?a (c # cs))"
      using assms(1) 4 unfolding dispatchable_def by blast
    then have "accepts h ((cqe_res c, cqe_flags c) # completions_for ?a cs)" by (simp add: completions_for_Cons)
    from complete_ok [OF this assms(2)] obtain h' r' w
      where h': "cpl h (s_ring s) (cqe_res c) (cqe_flags c) = Ret (h', r', w)" "accepts h' (completions_for ?a cs)"
        "sq r' = []" "cq r' = cq (s_ring s)" by blast
    have "dispatchable accepts cs ((handlers s)(?a \<mapsto> h'))"
      using assms(1) h'(2) unfolding dispatchable_def by (auto simp: completions_for_Cons)
    then show ?thesis using 4 h(1) h' assms(3)
      by (cases w) (simp_all add: drain_cqe_def is_tag_def awakened_def Let_def)
  qed
qed

lemma drain_list_total:
  assumes "dispatchable accepts cs (handlers s)" and "sq (s_ring s) = []" and "length (cancel_queue s) < n"
    and "cq (s_ring s) = cs"
  shows "\<exists>p' s'. drain_list (sq_of_size n) cpl f cs (p, s) = Ret (p', s')
    \<and> cq (s_ring s') = [] \<and> sq (s_ring s') = [] \<and> length (cancel_queue s') < n"
  using assms
proof (induction cs arbitrary: p s)
  case Nil
  then show ?case by simp
next
  case (Cons c cs)
  let ?s = "s\<lparr>s_ring := (s_ring s)\<lparr>cq := tl (cq (s_ring s))\<rparr>\<rparr>"
  from drain_step [of c cs ?s n f False p] Cons.prems
  obtain p' s' where "drain_cqe (sq_of_size n) cpl f False c (p, ?s) = Ret (p', s')"
    "dispatchable accepts cs (handlers s')" "sq (s_ring s') = []" "length (cancel_queue s') < n"
    "cq (s_ring s') = cs" by auto
  with Cons.IH [of s' p'] show ?case by simp
qed

end

end
