(* ===== verification/Submit.thy ===== *)
theory Submit
  imports Scheduler
begin

text \<open>
  The \<open>detail\<close> functions of \<open>src/fiber_context.cpp\<close> that fibers call: fiber-local stop tokens,
  \<open>submit_and_wait\<close>, \<open>submit_and_wait_with_timeout\<close> and \<open>submit_linked_and_wait\<close>.

  A call that suspends is modelled by what it does up to \<open>future.get()\<close> (the definitions here
  return the exception that was thrown instead, if any) and by what it does with the results
  when the fiber resumes (\<open>finish_wait\<close>). The objects on the fiber's stack are addresses: an
  \<open>io_awaitable\<close> is in the \<open>handlers\<close> table exactly while its scope is alive.
\<close>

subsection \<open>Stop tokens of fibers\<close>

text \<open>\<open>fiber_specific_ptr\<close>: one optional token per fiber.\<close>

definition install_fiber_stop_token ::
  "nat \<Rightarrow> stop_token \<Rightarrow> (nat \<Rightarrow> stop_token option) \<Rightarrow> nat \<Rightarrow> stop_token option" where
  "install_fiber_stop_token fiber tok slots = (if stop_possible tok then slots(fiber \<mapsto> tok) else slots)"

definition current_fiber_stop_token :: "nat \<Rightarrow> (nat \<Rightarrow> stop_token option) \<Rightarrow> stop_token" where
  "current_fiber_stop_token fiber slots = (case slots fiber of Some tok \<Rightarrow> tok | None \<Rightarrow> no_token)"

lemma install_current_token:
  "stop_possible tok \<Longrightarrow> current_fiber_stop_token fb (install_fiber_stop_token fb tok slots) = tok"
  "fb' \<noteq> fb \<Longrightarrow> current_fiber_stop_token fb' (install_fiber_stop_token fb tok slots) = current_fiber_stop_token fb' slots"
  by (simp_all add: install_fiber_stop_token_def current_fiber_stop_token_def)

subsection \<open>Stop callbacks\<close>

text \<open>
  A \<open>std::stop_callback\<close> runs at once when its token has been asked to stop, and is registered
  otherwise. The callbacks of the sources request the cancellation of their targets in order.
\<close>

definition run_cancel :: "u64 list \<Rightarrow> ('h, 't) sched \<Rightarrow> ('h, 't) sched" where
  "run_cancel targets s = fold request_cancel targets s"

definition register_pool_cb :: "stop_token \<Rightarrow> u64 list \<Rightarrow> ('h, 't) sched \<Rightarrow> ('h, 't) sched" where
  "register_pool_cb st targets s =
     (if stop_requested st then run_cancel targets s else s\<lparr>pool_cbs := pool_cbs s @ [targets]\<rparr>)"

definition register_fiber_cb :: "stop_token \<Rightarrow> u64 list \<Rightarrow> ('h, 't) sched \<Rightarrow> ('h, 't) sched" where
  "register_fiber_cb st targets s =
     (if stop_requested st then run_cancel targets s else s\<lparr>fiber_cbs := fiber_cbs s @ [targets]\<rparr>)"

text \<open>
  What a fiber's call knows: liburing, how an \<open>io_awaitable\<close> is seen as a handler, the fiber,
  the two stop tokens at the call, and the addresses of the awaitables on its stack.
\<close>

record 'h op_env =
  oe_lu :: liburing
  oe_mk :: "int promise \<Rightarrow> 'h"
  oe_fiber :: nat
  oe_pool_st :: stop_token
  oe_fiber_st :: stop_token
  oe_aws :: "u64 list"

definition fresh_promise :: "nat option \<Rightarrow> int promise" where
  "fresh_promise fiber = \<lparr>p_value = None, p_fiber = fiber\<rparr>"

text \<open>
  The awaitables come to life and both callbacks are set up; the fiber then blocks on the
  future of the first awaitable.
\<close>

definition begin_wait :: "'h op_env \<Rightarrow> u64 list \<Rightarrow> ('h, 't) sched \<Rightarrow> ('h, 't) sched" where
  "begin_wait e targets s =
     (let s1 = s\<lparr>handlers := (\<lambda>a. if a \<in> set targets then Some (oe_mk e (fresh_promise (if a = hd targets then Some (oe_fiber e) else None)))
              else handlers s a)\<rparr>;
          s2 = register_pool_cb (oe_pool_st e) targets s1
      in if stop_possible (oe_fiber_st e) then register_fiber_cb (oe_fiber_st e) targets s2 else s2)"

text \<open>Leaving the scope: the callbacks are deregistered and the awaitables destroyed.\<close>

definition finish_wait :: "u64 list \<Rightarrow> ('h, 't) sched \<Rightarrow> ('h, 't) sched" where
  "finish_wait targets s =
     s\<lparr>pool_cbs := remove1 targets (pool_cbs s), fiber_cbs := remove1 targets (fiber_cbs s),
       handlers := (\<lambda>a. if a \<in> set targets then None else handlers s a)\<rparr>"

definition set_data :: "u64 \<Rightarrow> sqe \<Rightarrow> sqe" where
  "set_data a e = e\<lparr>sqe_user_data := a\<rparr>"

definition set_link :: "sqe \<Rightarrow> sqe" where
  "set_link e = e\<lparr>sqe_flags := sqe_flags e OR IOSQE_IO_LINK\<rparr>"

text \<open>An exception leaves the scope before the callbacks exist: the awaitables are destroyed.\<close>

definition drop_awaitables :: "u64 list \<Rightarrow> ('h, 't) sched \<Rightarrow> ('h, 't) sched" where
  "drop_awaitables targets s = s\<lparr>handlers := (\<lambda>a. if a \<in> set targets then None else handlers s a)\<rparr>"

text \<open>\<open>if (int ret = io_uring_submit(tl_ring); ret < 0) throw ...\<close>, then the wait.\<close>

definition submit_then_wait ::
  "'h op_env \<Rightarrow> string \<Rightarrow> u64 list \<Rightarrow> uring \<Rightarrow> ('h, 't) sched \<Rightarrow> ('h, 't) sched \<times> exn option" where
  "submit_then_wait e what targets r s =
     (case io_uring_submit (oe_lu e) r of
        (ret, r') \<Rightarrow> if ret < 0 then (drop_awaitables targets (s\<lparr>s_ring := r'\<rparr>), Some (System_error (- ret) what))
                   else (begin_wait e targets (s\<lparr>s_ring := r'\<rparr>), None))"

subsection \<open>One entry\<close>

definition submit_and_wait ::
  "'h op_env \<Rightarrow> nat option \<Rightarrow> ('h, 't) sched \<Rightarrow> (('h, 't) sched \<times> exn option) outcome" where
  "submit_and_wait e sqe s =
     (let aw = hd (oe_aws e) in
      bind_outcome (edit_sqe sqe (set_data aw) (s_ring s)) (\<lambda>r1.
        Ret (submit_then_wait e ''io_uring_submit'' [aw] r1 s)))"

definition link_timeout_sqe :: "timespec \<Rightarrow> sqe \<Rightarrow> sqe" where
  "link_timeout_sqe ts e = e\<lparr>sqe_req := Rq_link_timeout ts, sqe_user_data := k_cancel_tag\<rparr>"

definition submit_and_wait_with_timeout ::
  "'h op_env \<Rightarrow> nat option \<Rightarrow> int \<Rightarrow> ('h, 't) sched \<Rightarrow> (('h, 't) sched \<times> exn option) outcome" where
  "submit_and_wait_with_timeout e sqe timeout s =
     (let aw = hd (oe_aws e) in
      bind_outcome (edit_sqe sqe set_link (s_ring s)) (\<lambda>r1.
      bind_outcome (edit_sqe sqe (set_data aw) r1) (\<lambda>r2.
        case io_uring_get_sqe (oe_lu e) r2 of
          (None, r3) \<Rightarrow> Ret (drop_awaitables [aw] (s\<lparr>s_ring := r3\<rparr>),
             Some (Runtime_error ''submit_and_wait_with_timeout: io_uring ring full''))
        | (Some t, r3) \<Rightarrow> bind_outcome (edit_sqe (Some t) (link_timeout_sqe (to_timespec timeout)) r3) (\<lambda>r4.
            Ret (submit_then_wait e ''io_uring_submit'' [aw] r4 s)))))"

subsection \<open>A linked chain\<close>

definition k_max_linked_ops :: nat where "k_max_linked_ops = 8"

text \<open>The loop that gives each entry its awaitable.\<close>

fun wire_sqes :: "(nat option \<times> u64) list \<Rightarrow> uring \<Rightarrow> uring outcome" where
  "wire_sqes [] r = Ret r"
| "wire_sqes ((sqe, aw) # rest) r = bind_outcome (edit_sqe sqe (set_data aw) r) (wire_sqes rest)"

text \<open>The loop that links every entry but the last, over \<open>sqes.subspan(0, n - 1)\<close>.\<close>

fun link_sqes :: "nat option list \<Rightarrow> uring \<Rightarrow> uring outcome" where
  "link_sqes [] r = Ret r"
| "link_sqes (sqe # rest) r = bind_outcome (edit_sqe sqe set_link r) (link_sqes rest)"

definition submit_linked_and_wait ::
  "'h op_env \<Rightarrow> nat option list \<Rightarrow> nat \<Rightarrow> ('h, 't) sched \<Rightarrow> (('h, 't) sched \<times> exn option) outcome" where
  "submit_linked_and_wait e sqes out_size s =
     (let n = length sqes; aws = take n (oe_aws e) in
      if n = 0 \<or> k_max_linked_ops < n \<or> n \<noteq> out_size
      then Ret (s, Some (Invalid_argument ''submit_linked_and_wait: chain length must be in [1, k_max_linked_ops]''))
      else bind_outcome (wire_sqes (zip sqes aws) (s_ring s)) (\<lambda>r1.
           bind_outcome (link_sqes (take (n - 1) sqes) r1) (\<lambda>r2.
             Ret (submit_then_wait e ''io_uring_submit (linked chain)'' aws r2 s))))"

subsection \<open>A stop request while fibers wait\<close>

text \<open>
  \<open>request_stop\<close> on the pool-wide source runs every callback registered on it, once; on a
  fiber-local source likewise.
\<close>

definition fire_pool_stop :: "('h, 't) sched \<Rightarrow> ('h, 't) sched" where
  "fire_pool_stop s = fold run_cancel (pool_cbs s) (s\<lparr>pool_cbs := []\<rparr>)"

definition fire_fiber_stop :: "u64 list \<Rightarrow> ('h, 't) sched \<Rightarrow> ('h, 't) sched" where
  "fire_fiber_stop targets s =
     (if targets \<in> set (fiber_cbs s) then run_cancel targets (s\<lparr>fiber_cbs := remove1 targets (fiber_cbs s)\<rparr>) else s)"

lemma run_cancel_eval:
  "run_cancel targets s = s\<lparr>cancel_queue := cancel_queue s @ targets, notify_count := notify_count s + length targets\<rparr>"
proof (induction targets arbitrary: s)
  case Nil
  then show ?case by (simp add: run_cancel_def)
next
  case (Cons t ts)
  then show ?case by (simp add: run_cancel_def request_cancel_def)
qed

lemma fold_run_cancel_eval:
  "fold run_cancel tss s =
     s\<lparr>cancel_queue := cancel_queue s @ concat tss, notify_count := notify_count s + length (concat tss)\<rparr>"
  by (induction tss arbitrary: s) (simp_all add: run_cancel_eval)

lemma fire_pool_stop_eval:
  "fire_pool_stop s = s\<lparr>pool_cbs := [], cancel_queue := cancel_queue s @ concat (pool_cbs s),
     notify_count := notify_count s + length (concat (pool_cbs s))\<rparr>"
  by (simp add: fire_pool_stop_def fold_run_cancel_eval)

subsection \<open>Successful submissions\<close>

text \<open>A liburing whose submissions are accepted.\<close>

definition submits :: "liburing \<Rightarrow> bool" where
  "submits lu \<longleftrightarrow> (\<forall>r. 0 \<le> lu_submit_ret lu r)"

lemma submits_sq_of_size [simp]: "submits (sq_of_size n)"
  by (simp add: submits_def)

text \<open>The state in which the entries \<open>qs\<close> are with the kernel and the queue is empty.\<close>

definition submitted :: "sqe list \<Rightarrow> ('h, 't) sched \<Rightarrow> ('h, 't) sched" where
  "submitted qs s = s\<lparr>s_ring := (s_ring s)\<lparr>inflight := inflight (s_ring s) @ qs, sq := []\<rparr>\<rparr>"

lemma submitted_sq [simp]: "submitted qs (s\<lparr>s_ring := (s_ring s)\<lparr>sq := xs\<rparr>\<rparr>) = submitted qs s"
  by (simp add: submitted_def)

lemma submit_then_wait_ok:
  "submits (oe_lu e) \<Longrightarrow>
   submit_then_wait e what targets ((s_ring s)\<lparr>sq := qs\<rparr>) s = (begin_wait e targets (submitted qs s), None)"
  by (simp add: submit_then_wait_def io_uring_submit_def submits_def submitted_def not_less)

lemma submit_and_wait_ok:
  assumes "submits (oe_lu e)" and "sq (s_ring s) = qs @ [q]"
  shows "submit_and_wait e (Some (length qs)) s =
    Ret (begin_wait e [hd (oe_aws e)] (submitted (qs @ [set_data (hd (oe_aws e)) q]) s), None)"
  using assms by (simp add: submit_and_wait_def Let_def edit_sqe_def submit_then_wait_ok)

lemma submit_and_wait_with_timeout_ok:
  assumes "submits (oe_lu e)" and "sq (s_ring s) = qs @ [q]"
    and "\<And>x. lu_sqe_available (oe_lu e) ((s_ring s)\<lparr>sq := qs @ [x]\<rparr>)"
  shows "submit_and_wait_with_timeout e (Some (length qs)) t s =
    Ret (begin_wait e [hd (oe_aws e)] (submitted
      (qs @ [set_data (hd (oe_aws e)) (set_link q), link_timeout_sqe (to_timespec t) blank_sqe]) s), None)"
proof -
  let ?r = "(s_ring s)\<lparr>sq := qs @ [set_data (hd (oe_aws e)) (set_link q)]\<rparr>"
  have "io_uring_get_sqe (oe_lu e) ?r = (Some (Suc (length qs)), ?r\<lparr>sq := sq ?r @ [blank_sqe]\<rparr>)"
    using assms(3) by (simp add: io_uring_get_sqe_def)
  moreover have "edit_sqe (Some (Suc (length qs))) f (?r\<lparr>sq := sq ?r @ [x]\<rparr>) = Ret (?r\<lparr>sq := sq ?r @ [f x]\<rparr>)" for f x
    by (simp add: edit_sqe_def nth_append list_update_append)
  ultimately show ?thesis using assms(1,2)
    by (simp add: submit_and_wait_with_timeout_def Let_def edit_sqe_def [of "Some (length qs)"] submit_then_wait_ok)
qed

text \<open>
  Without room for the timeout entry the call throws and leaves the prepared entry, which names
  the destroyed awaitable, in the queue; so it does when the submission fails.
\<close>

lemma submit_and_wait_with_timeout_full:
  assumes "sq (s_ring s) = qs @ [q]" and "\<And>x. \<not> lu_sqe_available (oe_lu e) ((s_ring s)\<lparr>sq := qs @ [x]\<rparr>)"
  shows "submit_and_wait_with_timeout e (Some (length qs)) t s =
    Ret (drop_awaitables [hd (oe_aws e)] (s\<lparr>s_ring := (s_ring s)\<lparr>sq := qs @ [set_data (hd (oe_aws e)) (set_link q)]\<rparr>\<rparr>),
         Some (Runtime_error ''submit_and_wait_with_timeout: io_uring ring full''))"
  using assms by (simp add: submit_and_wait_with_timeout_def Let_def edit_sqe_def io_uring_get_sqe_def)

lemma submit_and_wait_fails:
  assumes "lu_submit_ret (oe_lu e) ((s_ring s)\<lparr>sq := qs @ [set_data (hd (oe_aws e)) q]\<rparr>) < 0" and "sq (s_ring s) = qs @ [q]"
  shows "submit_and_wait e (Some (length qs)) s =
    Ret (drop_awaitables [hd (oe_aws e)] (s\<lparr>s_ring := (s_ring s)\<lparr>sq := qs @ [set_data (hd (oe_aws e)) q]\<rparr>\<rparr>),
         Some (System_error (- lu_submit_ret (oe_lu e) ((s_ring s)\<lparr>sq := qs @ [set_data (hd (oe_aws e)) q]\<rparr>)) ''io_uring_submit''))"
  using assms by (simp add: submit_and_wait_def Let_def edit_sqe_def submit_then_wait_def io_uring_submit_def)

subsection \<open>Chains\<close>

lemma unchanged_sq: "sq r = xs \<Longrightarrow> r = r\<lparr>sq := xs\<rparr>"
  by auto

text \<open>What the two loops do to the entries of a chain that stand last in the queue.\<close>

lemma edit_sqe_at:
  assumes "sq r = pre @ q # qs"
  shows "edit_sqe (Some (length pre)) f r = Ret (r\<lparr>sq := pre @ f q # qs\<rparr>)"
  using assms by (simp add: edit_sqe_def nth_append)

lemma wire_sqes_eval:
  assumes "sq r = pre @ qs" and "length aws = length qs"
  shows "wire_sqes (zip (map Some [length pre..<length pre + length qs]) aws) r = Ret (r\<lparr>sq := pre @ map2 set_data aws qs\<rparr>)"
  using assms
proof (induction qs arbitrary: r pre aws)
  case Nil
  then show ?case by (simp add: unchanged_sq)
next
  case (Cons q qs)
  then obtain a as where aws: "aws = a # as" by (cases aws) auto
  have "[length pre..<length pre + length (q # qs)] = length pre # [Suc (length pre)..<Suc (length pre) + length qs]"
    by (simp add: upt_rec)
  with Cons.IH [of "r\<lparr>sq := pre @ set_data a q # qs\<rparr>" "pre @ [set_data a q]" as] Cons.prems aws
  show ?case by (simp add: edit_sqe_at)
qed

lemma link_sqes_eval:
  assumes "sq r = pre @ qs @ post"
  shows "link_sqes (map Some [length pre..<length pre + length qs]) r = Ret (r\<lparr>sq := pre @ map set_link qs @ post\<rparr>)"
  using assms
proof (induction qs arbitrary: r pre)
  case Nil
  then show ?case by (simp add: unchanged_sq)
next
  case (Cons q qs)
  have "[length pre..<length pre + length (q # qs)] = length pre # [Suc (length pre)..<Suc (length pre) + length qs]"
    by (simp add: upt_rec)
  with Cons.IH [of "r\<lparr>sq := pre @ set_link q # qs @ post\<rparr>" "pre @ [set_link q]"] Cons.prems
  show ?case by (simp add: edit_sqe_at)
qed

text \<open>
  A linked chain. For entries that stand last in the queue, \<open>submit_linked_and_wait\<close>
  rejects an empty chain, one of more than eight entries and one whose result span has
  another length, without touching anything. Otherwise one submit hands all of them to the
  kernel in order, each with its own awaitable as \<open>user_data\<close>, every one but the last
  carrying the link flag, and both stop callbacks target all awaitables of the chain.
\<close>

lemma submit_linked_eval:
  assumes "submits (oe_lu e)" and "sq (s_ring s) = pre @ qs"
    and "sqes = map Some [length pre..<length pre + length qs]" and "length qs \<le> length (oe_aws e)"
    and "aws = take (length qs) (oe_aws e)" and "wired = map2 set_data aws qs"
  shows "submit_linked_and_wait e sqes out_size s =
    (if qs \<noteq> [] \<and> length qs \<le> 8 \<and> out_size = length qs
     then Ret (begin_wait e aws (submitted (pre @ map set_link (butlast wired) @ [last wired]) s), None)
     else Ret (s, Some (Invalid_argument ''submit_linked_and_wait: chain length must be in [1, k_max_linked_ops]'')))"
proof (cases "qs \<noteq> [] \<and> length qs \<le> 8 \<and> out_size = length qs")
  case False
  then show ?thesis using assms(3) by (auto simp: submit_linked_and_wait_def k_max_linked_ops_def Let_def)
next
  case True
  have la: "length aws = length qs" using assms(4,5) by simp
  let ?r1 = "(s_ring s)\<lparr>sq := pre @ wired\<rparr>"
  have w: "wire_sqes (zip sqes aws) (s_ring s) = Ret ?r1"
    unfolding assms(3,6) by (rule wire_sqes_eval [OF assms(2) la])
  have ne: "wired \<noteq> []" and lw: "length wired = length qs" using True la assms(6) by auto
  then have "wired = butlast wired @ [last wired]" by simp
  then have r1: "sq ?r1 = pre @ butlast wired @ [last wired]" by simp
  have "take (length qs - 1) sqes = map Some [length pre..<length pre + length (butlast wired)]"
    using assms(3) lw by (simp add: take_map min_def)
  then have "link_sqes (take (length qs - 1) sqes) ?r1 =
      Ret (?r1\<lparr>sq := pre @ map set_link (butlast wired) @ [last wired]\<rparr>)"
    using link_sqes_eval [OF r1] by simp
  then show ?thesis using True w assms(1,3,5)
    by (simp add: submit_linked_and_wait_def k_max_linked_ops_def Let_def submit_then_wait_ok)
qed

text \<open>The entries of a chain may stand anywhere in the queue, in any order.\<close>

lemma wire_sqes_nth:
  assumes "distinct is" and "\<forall>i \<in> set is. i < length (sq r)" and "length aws = length is"
  shows "\<exists>q. wire_sqes (zip (map Some is) aws) r = Ret (r\<lparr>sq := q\<rparr>) \<and> length q = length (sq r)
    \<and> (\<forall>k < length is. q ! (is ! k) = set_data (aws ! k) (sq r ! (is ! k))) \<and> (\<forall>j. j \<notin> set is \<longrightarrow> q ! j = sq r ! j)"
  using assms
proof (induction "is" arbitrary: r aws)
  case Nil
  then show ?case by (intro exI [of _ "sq r"]) simp
next
  case (Cons i "is")
  then obtain a as where aws: "aws = a # as" by (cases aws) auto
  let ?r = "r\<lparr>sq := (sq r)[i := set_data a (sq r ! i)]\<rparr>"
  from Cons.IH [of ?r as] Cons.prems aws obtain q where q: "wire_sqes (zip (map Some is) as) ?r = Ret (?r\<lparr>sq := q\<rparr>)" "length q = length (sq r)"
    "\<forall>k < length is. q ! (is ! k) = set_data (as ! k) (sq ?r ! (is ! k))" "\<forall>j. j \<notin> set is \<longrightarrow> q ! j = sq ?r ! j" by auto
  have "q ! ((i # is) ! k) = set_data (aws ! k) (sq r ! ((i # is) ! k))" if "k < length (i # is)" for k
  proof (cases k)
    case 0
    then show ?thesis using q(4) Cons.prems aws by simp
  next
    case (Suc m)
    then have "is ! m \<noteq> i" using Cons.prems(1) that by (auto simp: in_set_conv_nth)
    then show ?thesis using q(3) Suc that aws by simp
  qed
  then show ?case using q aws by (intro exI [of _ q]) (auto simp: edit_sqe_def)
qed

lemma link_sqes_nth:
  assumes "distinct is" and "\<forall>i \<in> set is. i < length (sq r)"
  shows "\<exists>q. link_sqes (map Some is) r = Ret (r\<lparr>sq := q\<rparr>) \<and> length q = length (sq r)
    \<and> (\<forall>j < length q. q ! j = (if j \<in> set is then set_link (sq r ! j) else sq r ! j))"
  using assms
proof (induction "is" arbitrary: r)
  case Nil
  then show ?case by (intro exI [of _ "sq r"]) simp
next
  case (Cons i "is")
  let ?r = "r\<lparr>sq := (sq r)[i := set_link (sq r ! i)]\<rparr>"
  from Cons.IH [of ?r] Cons.prems obtain q where "link_sqes (map Some is) ?r = Ret (?r\<lparr>sq := q\<rparr>)" "length q = length (sq r)"
    "\<forall>j < length q. q ! j = (if j \<in> set is then set_link (sq ?r ! j) else sq ?r ! j)" by auto
  then show ?case using Cons.prems by (intro exI [of _ q]) (auto simp: edit_sqe_def nth_list_update)
qed

lemma submit_linked_anywhere:
  assumes "submits (oe_lu e)" and "distinct is" and "\<forall>i \<in> set is. i < length (sq (s_ring s))" and "is \<noteq> []" and "length is \<le> 8"
    and "length is \<le> length (oe_aws e)" and "aws = take (length is) (oe_aws e)"
  shows "\<exists>q. submit_linked_and_wait e (map Some is) (length is) s = Ret (begin_wait e aws (submitted q s), None)
    \<and> length q = length (sq (s_ring s)) \<and> (\<forall>j < length q. sqe_req (q ! j) = sqe_req (sq (s_ring s) ! j))
    \<and> (\<forall>k < length is. sqe_user_data (q ! (is ! k)) = aws ! k
        \<and> sqe_flags (q ! (is ! k)) = sqe_flags (sq (s_ring s) ! (is ! k)) OR (if Suc k < length is then IOSQE_IO_LINK else 0))"
proof -
  let ?r = "s_ring s" and ?ls = "take (length is - 1) is"
  have la: "length aws = length is" using assms(6,7) by simp
  from wire_sqes_nth [OF assms(2,3) la] obtain q1 where q1: "wire_sqes (zip (map Some is) aws) ?r = Ret (?r\<lparr>sq := q1\<rparr>)" "length q1 = length (sq ?r)"
    "\<forall>k < length is. q1 ! (is ! k) = set_data (aws ! k) (sq ?r ! (is ! k))" "\<forall>j. j \<notin> set is \<longrightarrow> q1 ! j = sq ?r ! j" by blast
  have ls: "distinct ?ls" "\<forall>i \<in> set ?ls. i < length (sq (?r\<lparr>sq := q1\<rparr>))" using assms(2,3) q1(2) by (auto dest: in_set_takeD)
  from link_sqes_nth [OF ls] obtain q where q: "link_sqes (map Some ?ls) (?r\<lparr>sq := q1\<rparr>) = Ret (?r\<lparr>sq := q\<rparr>)" "length q = length q1"
    "\<forall>j < length q. q ! j = (if j \<in> set ?ls then set_link (q1 ! j) else q1 ! j)" by auto
  have mem: "is ! k \<in> set ?ls \<longleftrightarrow> Suc k < length is" if "k < length is" for k
    using that assms(2) by (auto simp: in_set_conv_nth nth_eq_iff_index_eq intro!: exI [of _ k])
  have "sqe_user_data (q ! (is ! k)) = aws ! k
      \<and> sqe_flags (q ! (is ! k)) = sqe_flags (sq ?r ! (is ! k)) OR (if Suc k < length is then IOSQE_IO_LINK else 0)" if "k < length is" for k
    using q q1(2,3) mem [OF that] that assms(3) by (simp add: set_link_def set_data_def)
  moreover have "sqe_req (q1 ! j) = sqe_req (sq ?r ! j)" for j
    using q1(3,4) by (cases "j \<in> set is") (auto simp: in_set_conv_nth set_data_def)
  then have "sqe_req (q ! j) = sqe_req (sq ?r ! j)" if "j < length q" for j using q(3) that by (simp add: set_link_def)
  ultimately show ?thesis using q q1(1,2) assms(1,4,5,7)
    by (intro exI [of _ q]) (simp add: submit_linked_and_wait_def k_max_linked_ops_def Let_def take_map submit_then_wait_ok)
qed

definition example_sched :: "sqe list \<Rightarrow> (int promise, nat) sched" where
  "example_sched qs = \<lparr>s_ring = empty_uring\<lparr>sq := qs\<rparr>, notify_count = 0, ready = [], cancel_queue = [],
     handlers = (\<lambda>_. None), pool_cbs = [], fiber_cbs = [], spawned = []\<rparr>"

definition example_env :: "nat \<Rightarrow> int promise op_env" where
  "example_env n = \<lparr>oe_lu = sq_of_size n, oe_mk = id, oe_fiber = 3, oe_pool_st = \<lparr>stop_possible = True, stop_requested = False\<rparr>,
     oe_fiber_st = no_token, oe_aws = [4096, 8192]\<rparr>"

text \<open>
  C18. Delivery of cancellation requests. Requests made from any thread since the last wake-up
  are all turned into cancel entries, in order, and reach the kernel together with the
  re-armed wake-up read, as long as fewer than 256 of them are queued. With 256 or more the
  loop fills the submission queue, and re-arming the wake-up read dereferences the null
  pointer that \<open>io_uring_get_sqe\<close> returns.
\<close>

theorem cancel_requests_delivered:
  assumes "cqe_user_data c = k_notify_tag" and "sq (s_ring s) = []" and "cancel_queue s = []"
  shows "drain_cqe (sq_of_size k_ring_entries) cpl f b c (p, fold request_cancel uds s) =
    (if length uds < 256
     then Ret (p, (submitted (map (\<lambda>u. \<lparr>sqe_req = Rq_cancel u, sqe_flags = 0, sqe_buf_group = 0, sqe_user_data = k_cancel_tag\<rparr>) uds
            @ [\<lparr>sqe_req = Rq_read (notify_fd f) (notify_val f) 8 0, sqe_flags = 0, sqe_buf_group = 0, sqe_user_data = k_notify_tag\<rparr>]) s)
          \<lparr>notify_count := notify_count s + length uds\<rparr>)
     else Undefined Null_deref)"
proof -
  have e: "fold request_cancel uds s = s\<lparr>cancel_queue := uds, notify_count := notify_count s + length uds\<rparr>"
    using run_cancel_eval [of uds s] assms(3) by (simp add: run_cancel_def)
  show ?thesis
    using drain_notify_room [OF assms(1), of "fold request_cancel uds s" k_ring_entries cpl f b p]
      drain_notify_full [OF assms(1), of "fold request_cancel uds s" k_ring_entries cpl f b p] assms(2,3)
    by (simp add: e k_ring_entries_def submitted_def cancel_sqe_def watch_sqe_def blank_sqe_def)
qed

theorem cancel_requests_delivered_witness:
  "drain_cqe (sq_of_size k_ring_entries) (\<lambda>h r res fl. Ret (h, r, None)) \<lparr>eventfd_fd = 5, notify_fd = 6, work_efd_val = 0, notify_val = 0\<rparr>
     False \<lparr>cqe_user_data = k_notify_tag, cqe_res = 8, cqe_flags = 0\<rparr>
     (\<lparr>work_queue = [], efd = 0, running = True, in_flight = 0, pool_stop = False, launched = []\<rparr>,
      fold request_cancel (replicate 256 4096) (example_sched [])) = Undefined Null_deref"
  using cancel_requests_delivered [of "\<lparr>cqe_user_data = k_notify_tag, cqe_res = 8, cqe_flags = 0\<rparr>" "example_sched []"
      "\<lambda>h r res fl. Ret (h, r, None)" "\<lparr>eventfd_fd = 5, notify_fd = 6, work_efd_val = 0, notify_val = 0\<rparr>" False
      "\<lparr>work_queue = [], efd = 0, running = True, in_flight = 0, pool_stop = False, launched = []\<rparr>" "replicate 256 4096"]
  by (simp add: example_sched_def empty_uring_def)

end
