(* ===== verification/Runs.thy ===== *)
theory Runs
  imports Main
begin

text \<open>
  Runs of step systems. Several components are step relations on a state with an invariant:
  the pool, the state shared by \<open>sync_wait\<close> and its sender, the fibers of a bulk operation, the
  acceptor. The locale \<open>step_system\<close> carries an invariant along a run; \<open>ranked_system\<close> adds a
  rank that every step lowers and a step in every state that is not final, which bounds the
  length of runs and makes every maximal run end in a final state.
\<close>

locale step_system =
  fixes step :: "'s \<Rightarrow> 's \<Rightarrow> bool" and inv :: "'s \<Rightarrow> bool"
  assumes inv_step: "inv s \<Longrightarrow> step s s' \<Longrightarrow> inv s'"
begin

lemma run_keeps: "step\<^sup>*\<^sup>* s s' \<Longrightarrow> inv s \<Longrightarrow> inv s'"
  by (induction rule: rtranclp_induct) (auto intro: inv_step)

lemma steps_keep: "(step ^^ k) s s' \<Longrightarrow> inv s \<Longrightarrow> inv s'"
  using run_keeps relpowp_imp_rtranclp by fast

end

locale ranked_system = step_system step inv
  for step :: "'s \<Rightarrow> 's \<Rightarrow> bool" and inv :: "'s \<Rightarrow> bool" +
  fixes rank :: "'s \<Rightarrow> nat" and final :: "'s \<Rightarrow> bool"
  assumes rank_step: "inv s \<Longrightarrow> step s s' \<Longrightarrow> rank s' < rank s"
    and progress: "inv s \<Longrightarrow> \<not> final s \<Longrightarrow> \<exists>s'. step s s'"
    and final_step: "inv s \<Longrightarrow> final s \<Longrightarrow> \<not> step s s'"
begin

lemma run_bound:
  assumes "(step ^^ k) s s'" and "inv s"
  shows "rank s' + k \<le> rank s"
  using assms
proof (induction k arbitrary: s)
  case 0
  then show ?case by simp
next
  case (Suc k)
  from relpowp_Suc_D2 [OF Suc.prems(1)] obtain z where z: "step s z" "(step ^^ k) z s'" by blast
  from Suc.IH [OF z(2) inv_step [OF Suc.prems(2) z(1)]] rank_step [OF Suc.prems(2) z(1)] show ?case by simp
qed

lemma maximal_final: "inv s \<Longrightarrow> (\<nexists>s'. step s s') \<longleftrightarrow> final s"
  using progress final_step by blast

lemma final_reachable: "inv s \<Longrightarrow> \<exists>s'. step\<^sup>*\<^sup>* s s' \<and> final s'"
proof (induction "rank s" arbitrary: s rule: less_induct)
  case less
  show ?case
  proof (cases "final s")
    case True
    then show ?thesis by blast
  next
    case False
    with progress [OF less.prems] obtain z where z: "step s z" by blast
    from less.hyps [OF rank_step [OF less.prems z] inv_step [OF less.prems z]] z show ?thesis
      by (meson converse_rtranclp_into_rtranclp)
  qed
qed

end

text \<open>
  A system that contains another one: each of its steps is a step of the other on the part \<open>proj\<close>
  of the state, or leaves that part alone. Its runs then project to runs, so that what holds
  along the runs of the part holds along the runs of the whole.
\<close>

locale simulation = step_system conc inv
  for conc :: "'s \<Rightarrow> 's \<Rightarrow> bool" and inv :: "'s \<Rightarrow> bool" +
  fixes step :: "'a \<Rightarrow> 'a \<Rightarrow> bool" and proj :: "'s \<Rightarrow> 'a"
  assumes simulates: "inv s \<Longrightarrow> conc s s' \<Longrightarrow> step (proj s) (proj s') \<or> proj s' = proj s"
begin

lemma projected_run: "conc\<^sup>*\<^sup>* s s' \<Longrightarrow> inv s \<Longrightarrow> step\<^sup>*\<^sup>* (proj s) (proj s')"
proof (induction rule: rtranclp_induct)
  case (step y z)
  have "inv y" by (rule run_keeps [OF step.hyps(1) step.prems])
  from simulates [OF this step.hyps(2)] show ?case using step.IH [OF step.prems]
    by (metis rtranclp.rtrancl_into_rtrancl)
qed simp

end

text \<open>
  When the part has a rank, and the steps that leave it alone lower a measure \<open>stutter\<close> which the
  other steps raise by at most \<open>c\<close>, the whole has a rank too.
\<close>

locale ranked_simulation = simulation conc inv step proj + part: ranked_system step pinv prank pfinal
  for conc :: "'s \<Rightarrow> 's \<Rightarrow> bool" and inv :: "'s \<Rightarrow> bool" and step :: "'a \<Rightarrow> 'a \<Rightarrow> bool" and proj :: "'s \<Rightarrow> 'a"
    and pinv :: "'a \<Rightarrow> bool" and prank :: "'a \<Rightarrow> nat" and pfinal :: "'a \<Rightarrow> bool" +
  fixes stutter :: "'s \<Rightarrow> nat" and c :: nat
  assumes part_inv: "inv s \<Longrightarrow> pinv (proj s)"
    and stutter_less: "inv s \<Longrightarrow> conc s s' \<Longrightarrow> \<not> step (proj s) (proj s') \<Longrightarrow> stutter s' < stutter s"
    and stutter_most: "inv s \<Longrightarrow> conc s s' \<Longrightarrow> stutter s' \<le> stutter s + c"
begin

lemma whole_rank_step:
  assumes "inv s" and "conc s s'"
  shows "Suc c * prank (proj s') + stutter s' < Suc c * prank (proj s) + stutter s"
proof (cases "step (proj s) (proj s')")
  case True
  have "Suc c * Suc (prank (proj s')) \<le> Suc c * prank (proj s)"
    using part.rank_step [OF part_inv [OF assms(1)] True] by (intro mult_le_mono2) simp
  then show ?thesis using stutter_most [OF assms] by simp
next
  case False
  then show ?thesis using simulates [OF assms] stutter_less [OF assms] by simp
qed

end

end
