(* ===== verification/Fiber_Pool.thy ===== *)
theory Fiber_Pool
  imports Submit Runs
begin

text \<open>
  \<open>fiber_pool\<close> of \<open>src/fiber_context.cpp\<close>: posting, the semaphore eventfd that hands one queued
  task to one worker, the life of the main fiber of each worker, and stopping.

  The pool is a step system. One step is one access of a thread to shared state: \<open>post\<close> is a
  push and a later write, \<open>stop\<close> is a request, the acquisition of the mutex, the store and the
  notification, the end of a fiber is a decrement and possibly a later notification, and the
  wait of a main fiber is the acquisition of the mutex, the evaluation of the predicate and
  parking. The workers are schedulers of \<open>Scheduler\<close>. The work branch of their \<open>drain_cqes\<close> is a
  step per access: the completion is taken off the ring, \<open>running_\<close> is loaded, a task is popped
  under the mutex, it is counted in \<open>in_flight_\<close> and launched, \<open>running_\<close> is loaded again, the
  read is re-armed. Whatever else happens to a worker is one step that leaves the work completions alone.
\<close>

subsection \<open>State\<close>

text \<open>
  The main fiber of a worker: not yet at the wait, evaluating the predicate with the mutex
  held, about to park (mutex still held), parked on the condition variable, woken and about
  to take the mutex again, gone.
\<close>

datatype main_phase = Mf_start | Mf_check | Mf_checked | Mf_parked | Mf_woken | Mf_exited

datatype stop_phase = St_idle | St_requested | St_locked | St_set | St_done

datatype owner = Main nat | Stopper

text \<open>
  The work branch of \<open>drain_cqes\<close> on a worker: not in it, before the first load of \<open>running_\<close> (with the
  result of the completion), before the mutex, with a task in hand, before the second load,
  before \<open>arm_work_efd\<close>.
\<close>

datatype 't drain_phase = Dr_idle | Dr_load int | Dr_take | Dr_launch 't | Dr_reload | Dr_arm

text \<open>
  \<open>writers\<close>: threads in \<open>post\<close> between push and write. \<open>notifiers\<close>: fibers between the
  decrement to zero and \<open>notify_all\<close>. \<open>live\<close>: fibers of each worker that have not ended.
  \<open>posted\<close> and \<open>taken\<close> are histories of what was pushed to and popped from the queue.
\<close>

record ('h, 't) pool_world =
  pw_pool :: "'t pool"
  writers :: nat
  notifiers :: nat
  workers :: "('h, 't) sched list"
  mains :: "main_phase list"
  drains :: "'t drain_phase list"
  live :: "nat list"
  shutdown_mtx :: "owner option"
  stopping :: stop_phase
  posted :: "'t option list"
  taken :: "'t list"

subsection \<open>Operations\<close>

definition post_push :: "'t option \<Rightarrow> ('h, 't) pool_world \<Rightarrow> ('h, 't) pool_world" where
  "post_push t w = w\<lparr>pw_pool := (pw_pool w)\<lparr>work_queue := work_queue (pw_pool w) @ [t]\<rparr>,
     writers := writers w + 1, posted := posted w @ [t]\<rparr>"

definition post_write :: "('h, 't) pool_world \<Rightarrow> ('h, 't) pool_world" where
  "post_write w = w\<lparr>pw_pool := (pw_pool w)\<lparr>efd := efd (pw_pool w) + 1\<rparr>, writers := writers w - 1\<rparr>"

text \<open>\<open>shutdown_cv_.notify_all()\<close>: every parked main fiber becomes ready.\<close>

definition wake :: "main_phase \<Rightarrow> main_phase" where
  "wake m = (if m = Mf_parked then Mf_woken else m)"

definition notify_all :: "('h, 't) pool_world \<Rightarrow> ('h, 't) pool_world" where
  "notify_all w = w\<lparr>mains := map wake (mains w)\<rparr>"

text \<open>The parts of \<open>stop\<close>. The request runs the callbacks that waiting operations registered.\<close>

definition stop_request :: "('h, 't) pool_world \<Rightarrow> ('h, 't) pool_world" where
  "stop_request w = w\<lparr>pw_pool := (pw_pool w)\<lparr>pool_stop := True\<rparr>, workers := map fire_pool_stop (workers w), stopping := St_requested\<rparr>"

definition stop_lock :: "('h, 't) pool_world \<Rightarrow> ('h, 't) pool_world" where
  "stop_lock w = w\<lparr>shutdown_mtx := Some Stopper, stopping := St_locked\<rparr>"

definition stop_store :: "('h, 't) pool_world \<Rightarrow> ('h, 't) pool_world" where
  "stop_store w = w\<lparr>pw_pool := (pw_pool w)\<lparr>running := False\<rparr>, stopping := St_set\<rparr>"

definition stop_notify :: "('h, 't) pool_world \<Rightarrow> ('h, 't) pool_world" where
  "stop_notify w = (notify_all w)\<lparr>shutdown_mtx := None, stopping := St_done\<rparr>"

text \<open>The end of a fiber of worker \<open>i\<close>: the last one in flight notifies.\<close>

definition finish_fiber :: "nat \<Rightarrow> ('h, 't) pool_world \<Rightarrow> ('h, 't) pool_world" where
  "finish_fiber i w =
     (let p = pw_pool w in
      w\<lparr>pw_pool := p\<lparr>in_flight := in_flight p - 1\<rparr>, live := (live w)[i := live w ! i - 1],
        notifiers := (if in_flight p = 1 then notifiers w + 1 else notifiers w)\<rparr>)"

definition finish_notify :: "('h, 't) pool_world \<Rightarrow> ('h, 't) pool_world" where
  "finish_notify w = (notify_all w)\<lparr>notifiers := notifiers w - 1\<rparr>"

text \<open>The wait of \<open>worker()\<close>; leaving it releases the mutex.\<close>

definition worker_pred :: "'t pool \<Rightarrow> bool" where
  "worker_pred p \<longleftrightarrow> \<not> running p \<and> in_flight p = 0"

definition main_lock :: "nat \<Rightarrow> ('h, 't) pool_world \<Rightarrow> ('h, 't) pool_world" where
  "main_lock i w = w\<lparr>shutdown_mtx := Some (Main i), mains := (mains w)[i := Mf_check]\<rparr>"

definition main_check :: "nat \<Rightarrow> ('h, 't) pool_world \<Rightarrow> ('h, 't) pool_world" where
  "main_check i w =
     (if worker_pred (pw_pool w) then w\<lparr>shutdown_mtx := None, mains := (mains w)[i := Mf_exited]\<rparr>
      else w\<lparr>mains := (mains w)[i := Mf_checked]\<rparr>)"

definition main_park :: "nat \<Rightarrow> ('h, 't) pool_world \<Rightarrow> ('h, 't) pool_world" where
  "main_park i w = w\<lparr>shutdown_mtx := None, mains := (mains w)[i := Mf_parked]\<rparr>"

text \<open>The kernel completes the read of the eventfd armed by worker \<open>i\<close>: one token per read, or an error.\<close>

definition post_cqe :: "sqe \<Rightarrow> int \<Rightarrow> ('h, 't) sched \<Rightarrow> ('h, 't) sched" where
  "post_cqe e res s = s\<lparr>s_ring := (s_ring s)\<lparr>inflight := remove1 e (inflight (s_ring s)),
     cq := cq (s_ring s) @ [\<lparr>cqe_user_data = sqe_user_data e, cqe_res = res, cqe_flags = 0\<rparr>]\<rparr>\<rparr>"

text \<open>
  The work branch of worker \<open>i\<close>. The mutex of the queue is held for the pop only; the tracked
  fiber is created on the worker itself.
\<close>

definition drain_seen :: "nat \<Rightarrow> ('h, 't) pool_world \<Rightarrow> ('h, 't) pool_world" where
  "drain_seen i w =
     (let s = workers w ! i in
      w\<lparr>workers := (workers w)[i := s\<lparr>s_ring := (s_ring s)\<lparr>cq := tl (cq (s_ring s))\<rparr>\<rparr>],
        drains := (drains w)[i := Dr_load (cqe_res (hd (cq (s_ring s))))]\<rparr>)"

definition drain_load :: "nat \<Rightarrow> int \<Rightarrow> ('h, 't) pool_world \<Rightarrow> ('h, 't) pool_world" where
  "drain_load i res w = w\<lparr>drains := (drains w)[i := if 0 \<le> res \<and> running (pw_pool w) then Dr_take else Dr_reload]\<rparr>"

definition drain_take :: "nat \<Rightarrow> ('h, 't) pool_world \<Rightarrow> ('h, 't) pool_world" where
  "drain_take i w =
     (case pop_work (pw_pool w) of
        (None, p) \<Rightarrow> w\<lparr>pw_pool := p, drains := (drains w)[i := Dr_reload]\<rparr>
      | (Some t, p) \<Rightarrow> w\<lparr>pw_pool := p, drains := (drains w)[i := Dr_launch t], taken := taken w @ [t]\<rparr>)"

definition drain_launch :: "nat \<Rightarrow> 't \<Rightarrow> ('h, 't) pool_world \<Rightarrow> ('h, 't) pool_world" where
  "drain_launch i t w =
     (case launch_fiber t (pw_pool w, workers w ! i) of
        (p, s) \<Rightarrow> w\<lparr>pw_pool := p, workers := (workers w)[i := s], live := (live w)[i := live w ! i + 1], drains := (drains w)[i := Dr_reload]\<rparr>)"

definition drain_reload :: "nat \<Rightarrow> ('h, 't) pool_world \<Rightarrow> ('h, 't) pool_world" where
  "drain_reload i w = w\<lparr>drains := (drains w)[i := if running (pw_pool w) then Dr_arm else Dr_idle]\<rparr>"

definition drain_arm :: "nat \<Rightarrow> ('h, 't) sched \<Rightarrow> ('h, 't) pool_world \<Rightarrow> ('h, 't) pool_world" where
  "drain_arm i s w = w\<lparr>workers := (workers w)[i := s], drains := (drains w)[i := Dr_idle]\<rparr>"

text \<open>The constructor: every worker starts with a fresh scheduler, or the eventfd is refused.\<close>

definition fiber_pool_ctor :: "int \<Rightarrow> int \<Rightarrow> u32 \<Rightarrow> ('h, 't) sched \<Rightarrow> ('h, 't) pool_world outcome" where
  "fiber_pool_ctor eventfd errno thread_count s0 =
     (if eventfd < 0 then Throw (System_error errno ''eventfd'')
      else Ret \<lparr>pw_pool = \<lparr>work_queue = [], efd = 0, running = True, in_flight = 0, pool_stop = False, launched = []\<rparr>,
        writers = 0, notifiers = 0, workers = replicate (unat thread_count) s0, mains = replicate (unat thread_count) Mf_start,
        drains = replicate (unat thread_count) Dr_idle, live = replicate (unat thread_count) 0, shutdown_mtx = None, stopping = St_idle,
        posted = [], taken = []\<rparr>)"

subsection \<open>Steps\<close>

definition work_reads :: "('h, 't) sched \<Rightarrow> nat" where
  "work_reads s = length (filter (\<lambda>e. sqe_user_data e = k_work_tag) (inflight (s_ring s)))"

definition work_cqes :: "('h, 't) sched \<Rightarrow> cqe list" where
  "work_cqes s = filter (\<lambda>c. cqe_user_data c = k_work_tag) (cq (s_ring s))"

text \<open>
  What else happens to the scheduler of a worker (its fibers run, other completions arrive and are
  handled, other threads request cancellations): anything that leaves these alone and nothing unsubmitted.
\<close>

definition other_work :: "('h, 't) sched \<Rightarrow> ('h, 't) sched \<Rightarrow> bool" where
  "other_work s s' \<longleftrightarrow> work_reads s' = work_reads s \<and> work_cqes s' = work_cqes s \<and> spawned s' = spawned s \<and> sq (s_ring s') = []"

text \<open>Fibers of a worker run, and its ring is drained, only while its main fiber does not run.\<close>

definition main_away :: "main_phase \<Rightarrow> bool" where
  "main_away m \<longleftrightarrow> m \<in> {Mf_start, Mf_parked, Mf_woken}"

definition set_worker :: "nat \<Rightarrow> 't pool \<Rightarrow> ('h, 't) sched \<Rightarrow> ('h, 't) pool_world \<Rightarrow> ('h, 't) pool_world" where
  "set_worker i p s w = w\<lparr>pw_pool := p, workers := (workers w)[i := s]\<rparr>"

inductive pool_step :: "nat \<Rightarrow> 'h complete_fn \<Rightarrow> (nat \<Rightarrow> fds) \<Rightarrow> ('h, 't) pool_world \<Rightarrow> ('h, 't) pool_world \<Rightarrow> bool"
  for n :: nat and cpl :: "'h complete_fn" and f :: "nat \<Rightarrow> fds" where
  ps_push: "pool_step n cpl f w (post_push t w)"
| ps_write: "0 < writers w \<Longrightarrow> pool_step n cpl f w (post_write w)"
| ps_read: "i < length (workers w) \<Longrightarrow> mains w ! i \<noteq> Mf_exited \<Longrightarrow> 0 < efd (pw_pool w) \<Longrightarrow>
     e \<in> set (inflight (s_ring (workers w ! i))) \<Longrightarrow> sqe_user_data e = k_work_tag \<Longrightarrow>
     pool_step n cpl f w (set_worker i ((pw_pool w)\<lparr>efd := efd (pw_pool w) - 1\<rparr>) (post_cqe e 8 (workers w ! i)) w)"
| ps_read_fails: "i < length (workers w) \<Longrightarrow> mains w ! i \<noteq> Mf_exited \<Longrightarrow> res < 0 \<Longrightarrow>
     e \<in> set (inflight (s_ring (workers w ! i))) \<Longrightarrow> sqe_user_data e = k_work_tag \<Longrightarrow>
     pool_step n cpl f w (set_worker i (pw_pool w) (post_cqe e res (workers w ! i)) w)"
| ps_seen: "i < length (workers w) \<Longrightarrow> main_away (mains w ! i) \<Longrightarrow> drains w ! i = Dr_idle \<Longrightarrow>
     cq (s_ring (workers w ! i)) = c # cs \<Longrightarrow> cqe_user_data c = k_work_tag \<Longrightarrow> pool_step n cpl f w (drain_seen i w)"
| ps_load: "i < length (workers w) \<Longrightarrow> drains w ! i = Dr_load res \<Longrightarrow> pool_step n cpl f w (drain_load i res w)"
| ps_take: "i < length (workers w) \<Longrightarrow> drains w ! i = Dr_take \<Longrightarrow> pool_step n cpl f w (drain_take i w)"
| ps_launch: "i < length (workers w) \<Longrightarrow> drains w ! i = Dr_launch t \<Longrightarrow> pool_step n cpl f w (drain_launch i t w)"
| ps_reload: "i < length (workers w) \<Longrightarrow> drains w ! i = Dr_reload \<Longrightarrow> pool_step n cpl f w (drain_reload i w)"
| ps_arm: "i < length (workers w) \<Longrightarrow> drains w ! i = Dr_arm \<Longrightarrow> arm_work_efd (sq_of_size n) (f i) (workers w ! i) = Ret s \<Longrightarrow>
     pool_step n cpl f w (drain_arm i s w)"
| ps_other: "i < length (workers w) \<Longrightarrow> mains w ! i \<noteq> Mf_exited \<Longrightarrow> other_work (workers w ! i) s' \<Longrightarrow>
     pool_step n cpl f w (w\<lparr>workers := (workers w)[i := s']\<rparr>)"
| ps_finish: "i < length (workers w) \<Longrightarrow> main_away (mains w ! i) \<Longrightarrow> drains w ! i = Dr_idle \<Longrightarrow> 0 < live w ! i \<Longrightarrow>
     pool_step n cpl f w (finish_fiber i w)"
| ps_finish_notify: "0 < notifiers w \<Longrightarrow> pool_step n cpl f w (finish_notify w)"
| ps_main_lock: "i < length (workers w) \<Longrightarrow> mains w ! i = Mf_start \<or> mains w ! i = Mf_woken \<Longrightarrow> drains w ! i = Dr_idle \<Longrightarrow>
     shutdown_mtx w = None \<Longrightarrow> pool_step n cpl f w (main_lock i w)"
| ps_main_check: "i < length (workers w) \<Longrightarrow> mains w ! i = Mf_check \<Longrightarrow> pool_step n cpl f w (main_check i w)"
| ps_main_park: "i < length (workers w) \<Longrightarrow> mains w ! i = Mf_checked \<Longrightarrow> pool_step n cpl f w (main_park i w)"
| ps_stop_request: "stopping w = St_idle \<Longrightarrow> pool_step n cpl f w (stop_request w)"
| ps_stop_lock: "stopping w = St_requested \<Longrightarrow> shutdown_mtx w = None \<Longrightarrow> pool_step n cpl f w (stop_lock w)"
| ps_stop_store: "stopping w = St_locked \<Longrightarrow> pool_step n cpl f w (stop_store w)"
| ps_stop_notify: "stopping w = St_set \<Longrightarrow> pool_step n cpl f w (stop_notify w)"

inductive_cases pool_stepE: "pool_step n cpl f w w'"

subsection \<open>Invariant\<close>

text \<open>The tokens of a worker: work completions that will take a task, and one it has seen already.\<close>

definition tokens :: "('h, 't) sched \<Rightarrow> nat" where
  "tokens s = length (filter (\<lambda>c. 0 \<le> cqe_res c) (work_cqes s))"

fun drain_token :: "'t drain_phase \<Rightarrow> nat" where
  "drain_token (Dr_load res) = (if 0 \<le> res then 1 else 0)"
| "drain_token Dr_take = 1"
| "drain_token _ = 0"

definition tasks :: "'t option list \<Rightarrow> 't list" where
  "tasks ts = List.map_filter id ts"

text \<open>The tasks popped and not yet launched.\<close>

fun in_hand :: "'t drain_phase \<Rightarrow> 't list" where
  "in_hand (Dr_launch t) = [t]"
| "in_hand _ = []"

definition hands :: "'t drain_phase list \<Rightarrow> 't list" where
  "hands ds = concat (map in_hand ds)"

text \<open>Workers past the first load of \<open>running_\<close> that may still launch a task.\<close>

fun is_committed :: "'t drain_phase \<Rightarrow> bool" where
  "is_committed Dr_take = True"
| "is_committed (Dr_launch t) = True"
| "is_committed _ = False"

definition committed :: "('h, 't) pool_world \<Rightarrow> nat" where
  "committed w = length (filter is_committed (drains w))"

text \<open>
  Nothing posted is lost or launched twice: tasks are popped in the order of posting, and what was
  popped is launched or in the hand of a worker.
\<close>

definition tasks_inv :: "('h, 't) pool_world \<Rightarrow> bool" where
  "tasks_inv w \<longleftrightarrow> taken w @ tasks (work_queue (pw_pool w)) = tasks (posted w)
     \<and> mset (launched (pw_pool w)) + mset (hands (drains w)) = mset (taken w)"

text \<open>While the pool runs, every queued task has a token and every worker watches for tokens or handles one.\<close>

definition busy :: "'t drain_phase \<Rightarrow> nat" where
  "busy d = (if d = Dr_idle then 0 else 1)"

definition tokens_inv :: "('h, 't) pool_world \<Rightarrow> bool" where
  "tokens_inv w \<longleftrightarrow> (\<forall>s \<in> set (workers w). sq (s_ring s) = []) \<and>
     (running (pw_pool w) \<longrightarrow>
        length (work_queue (pw_pool w)) = writers w + efd (pw_pool w) + sum_list (map tokens (workers w)) + sum_list (map drain_token (drains w)) \<and>
        (\<forall>i < length (workers w). work_reads (workers w ! i) + length (work_cqes (workers w ! i)) + busy (drains w ! i) = 1))"

definition count_inv :: "('h, 't) pool_world \<Rightarrow> bool" where
  "count_inv w \<longleftrightarrow> in_flight (pw_pool w) = sum_list (live w) \<and> length (live w) = length (workers w) \<and> length (mains w) = length (workers w)
     \<and> length (drains w) = length (workers w)
     \<and> (\<forall>i < length (workers w). mains w ! i = Mf_exited \<longrightarrow> live w ! i = 0 \<and> \<not> running (pw_pool w))
     \<and> (\<forall>i < length (workers w). drains w ! i \<noteq> Dr_idle \<longrightarrow> main_away (mains w ! i))"

definition lock_inv :: "('h, 't) pool_world \<Rightarrow> bool" where
  "lock_inv w \<longleftrightarrow> (\<forall>i < length (mains w). mains w ! i \<in> {Mf_check, Mf_checked} \<longleftrightarrow> shutdown_mtx w = Some (Main i))
     \<and> (stopping w \<in> {St_locked, St_set} \<longleftrightarrow> shutdown_mtx w = Some Stopper) \<and> (\<forall>i. shutdown_mtx w = Some (Main i) \<longrightarrow> i < length (mains w))
     \<and> (running (pw_pool w) \<longleftrightarrow> stopping w \<notin> {St_set, St_done})"

lemma tasks_simps [simp]: "tasks [] = []" "tasks (None # ts) = tasks ts" "tasks (Some t # ts) = t # tasks ts" "tasks (xs @ ys) = tasks xs @ tasks ys"
  by (simp_all add: tasks_def List.map_filter_def)

lemma post_cqe_work:
  assumes "e \<in> set (inflight (s_ring s))" and "sqe_user_data e = k_work_tag"
  shows "work_reads (post_cqe e res s) + 1 = work_reads s" "work_cqes (post_cqe e res s) = work_cqes s @ [\<lparr>cqe_user_data = k_work_tag, cqe_res = res, cqe_flags = 0\<rparr>]"
    "spawned (post_cqe e res s) = spawned s" "sq (s_ring (post_cqe e res s)) = sq (s_ring s)"
proof -
  have mem: "e \<in> set (filter (\<lambda>e. sqe_user_data e = k_work_tag) (inflight (s_ring s)))" using assms by simp
  have "work_reads (post_cqe e res s) = work_reads s - 1"
    using mem by (simp add: work_reads_def post_cqe_def filter_remove1 length_remove1)
  moreover have "0 < work_reads s" using length_pos_if_in_set [OF mem] by (simp only: work_reads_def)
  ultimately show "work_reads (post_cqe e res s) + 1 = work_reads s" by linarith
qed (use assms in \<open>simp_all add: work_cqes_def post_cqe_def\<close>)

lemma fire_pool_stop_work [simp]:
  "work_reads (fire_pool_stop s) = work_reads s" "work_cqes (fire_pool_stop s) = work_cqes s" "tokens (fire_pool_stop s) = tokens s"
  "sq (s_ring (fire_pool_stop s)) = sq (s_ring s)"
  by (simp_all add: fire_pool_stop_eval work_reads_def work_cqes_def tokens_def)

lemma launch_work:
  "launch_fiber t (p, s) = (p', s') \<Longrightarrow> work_reads s' = work_reads s \<and> work_cqes s' = work_cqes s \<and> s_ring s' = s_ring s
     \<and> p' = p\<lparr>in_flight := in_flight p + 1, launched := launched p @ [t]\<rparr>"
  by (auto simp: launch_fiber_def awakened_def work_reads_def work_cqes_def)

lemma arm_work:
  assumes "arm_work_efd (sq_of_size n) f s = Ret s'" and "sq (s_ring s) = []" and "0 < n"
  shows "work_reads s' = work_reads s + 1" "work_cqes s' = work_cqes s" "sq (s_ring s') = []" "spawned s' = spawned s"
  using assms by (auto simp: arm_work_efd_def arm_read_room work_reads_def work_cqes_def watch_sqe_def)

lemma arm_room: "sq (s_ring s) = [] \<Longrightarrow> 0 < n \<Longrightarrow> \<exists>s'. arm_work_efd (sq_of_size n) f s = Ret s'"
  by (simp add: arm_work_efd_def arm_read_room)

lemma pop_work_cases:
  obtains "work_queue p = []" and "pop_work p = (None, p)"
  | ws where "work_queue p = None # ws" and "pop_work p = (None, p\<lparr>work_queue := ws\<rparr>)"
  | t ws where "work_queue p = Some t # ws" and "pop_work p = (Some t, p\<lparr>work_queue := ws\<rparr>)"
  by (cases "work_queue p" rule: list.exhaust; cases "hd (work_queue p)") (auto simp: pop_work_def)

lemma hands_update:
  "i < length ds \<Longrightarrow> mset (hands (ds[i := d])) + mset (in_hand (ds ! i)) = mset (hands ds) + mset (in_hand d)"
  by (induction ds arbitrary: i) (auto simp: hands_def nth_Cons' less_Suc_eq_0_disj split: nat.splits)

lemma hands_same: "i < length ds \<Longrightarrow> in_hand (ds ! i) = [] \<Longrightarrow> in_hand d = [] \<Longrightarrow> mset (hands (ds[i := d])) = mset (hands ds)"
  using hands_update [of i ds d] by simp

lemmas pool_op_defs = post_push_def post_write_def notify_all_def stop_request_def stop_lock_def stop_store_def stop_notify_def
  finish_fiber_def finish_notify_def main_lock_def main_check_def main_park_def set_worker_def Let_def

lemmas drain_op_defs = drain_seen_def drain_load_def drain_reload_def drain_arm_def Let_def

lemma step_tasks:
  assumes "pool_step n cpl f w w'" and "tasks_inv w" and "count_inv w"
  shows "tasks_inv w'"
proof -
  have len: "length (drains w) = length (workers w)" using assms(3) by (simp add: count_inv_def)
  show ?thesis using assms(1)
  proof cases
    case (ps_take i)
    then have i: "i < length (drains w)" "in_hand (drains w ! i) = []" using len by simp_all
    show ?thesis
    proof (cases "pw_pool w" rule: pop_work_cases)
      case (3 t ws)
      then show ?thesis using assms(2) hands_update [OF i(1), of "Dr_launch t"] i(2) by (simp add: ps_take(1) tasks_inv_def drain_take_def)
    qed (use assms(2) hands_same [OF i] in \<open>simp_all add: ps_take(1) tasks_inv_def drain_take_def\<close>)
  next
    case (ps_launch i t)
    then have "i < length (drains w)" using len by simp
    from hands_update [OF this, of Dr_reload] ps_launch(3)
    have "mset (hands (drains w)) = add_mset t (mset (hands ((drains w)[i := Dr_reload])))" by simp
    then show ?thesis using assms(2) by (simp add: ps_launch(1) tasks_inv_def drain_launch_def launch_fiber_def)
  qed (use assms(2) len in \<open>auto simp: tasks_inv_def pool_op_defs drain_op_defs hands_same\<close>)
qed

text \<open>Replacing one worker and its phase: what the sum of tokens and the watching become.\<close>

lemma tokens_replace:
  assumes "tokens_inv w" and "i < length (workers w)" and "length (drains w) = length (workers w)" and "sq (s_ring s') = []"
    and "running p' \<Longrightarrow> running (pw_pool w)
      \<and> work_reads s' + length (work_cqes s') + busy d' = work_reads (workers w ! i) + length (work_cqes (workers w ! i)) + busy (drains w ! i)
      \<and> length (work_queue p') + efd (pw_pool w) + tokens (workers w ! i) + drain_token (drains w ! i)
        = length (work_queue (pw_pool w)) + efd p' + tokens s' + drain_token d'"
    and "workers w' = (workers w)[i := s']" and "drains w' = (drains w)[i := d']" and "pw_pool w' = p'" and "writers w' = writers w"
  shows "tokens_inv w'"
proof -
  have set': "set (workers w') \<subseteq> insert s' (set (workers w))" using set_update_subset_insert assms(6) by metis
  have sum: "sum_list (map tokens (workers w')) + tokens (workers w ! i) = sum_list (map tokens (workers w)) + tokens s'"
    using sum_list_map_update [OF assms(2), of tokens s'] assms(6) by simp
  have dsum: "sum_list (map drain_token (drains w')) + drain_token (drains w ! i) = sum_list (map drain_token (drains w)) + drain_token d'"
    using sum_list_map_update [of i "drains w" drain_token d'] assms(2,3,7) by simp
  show ?thesis
    unfolding tokens_inv_def
  proof (intro conjI impI)
    show "\<forall>s \<in> set (workers w'). sq (s_ring s) = []" using assms(1,4) set' by (auto simp: tokens_inv_def)
    assume "running (pw_pool w')"
    then have r: "running p'" "running (pw_pool w)" using assms(5,8) by simp_all
    then show "length (work_queue (pw_pool w')) = writers w' + efd (pw_pool w') + sum_list (map tokens (workers w')) + sum_list (map drain_token (drains w'))"
      using assms(1,5,8,9) sum dsum by (simp add: tokens_inv_def)
    show "\<forall>j < length (workers w'). work_reads (workers w' ! j) + length (work_cqes (workers w' ! j)) + busy (drains w' ! j) = 1"
      using assms(1,2,3,5-7) r by (auto simp: tokens_inv_def nth_list_update)
  qed
qed

lemma step_tokens:
  assumes "pool_step n cpl f w w'" and "tokens_inv w" and "0 < n" and "count_inv w"
  shows "tokens_inv w'"
proof -
  have len: "length (drains w) = length (workers w)" using assms(4) by (simp add: count_inv_def)
  have sq: "sq (s_ring (workers w ! i)) = []" if "i < length (workers w)" for i using assms(2) that by (simp add: tokens_inv_def)
  note repl = tokens_replace [OF assms(2) _ len]
  show ?thesis using assms(1)
  proof cases
    case (ps_read i e)
    then show ?thesis using post_cqe_work [OF ps_read(5,6), of 8] sq [OF ps_read(2)]
      by (intro repl [OF ps_read(2), of "post_cqe e 8 (workers w ! i)" "(pw_pool w)\<lparr>efd := efd (pw_pool w) - 1\<rparr>" "drains w ! i"])
        (auto simp: set_worker_def tokens_def)
  next
    case (ps_read_fails i res e)
    then show ?thesis using post_cqe_work [OF ps_read_fails(5,6), of res] sq [OF ps_read_fails(2)]
      by (intro repl [OF ps_read_fails(2), of "post_cqe e res (workers w ! i)" "pw_pool w" "drains w ! i"]) (auto simp: set_worker_def tokens_def)
  next
    case (ps_seen i c cs)
    let ?s = "workers w ! i"
    have "work_cqes ?s = c # work_cqes (?s\<lparr>s_ring := (s_ring ?s)\<lparr>cq := cs\<rparr>\<rparr>)" "work_reads (?s\<lparr>s_ring := (s_ring ?s)\<lparr>cq := cs\<rparr>\<rparr>) = work_reads ?s"
      using ps_seen(5,6) by (simp_all add: work_cqes_def work_reads_def)
    then show ?thesis using ps_seen sq [OF ps_seen(2)]
      by (intro repl [OF ps_seen(2), of "?s\<lparr>s_ring := (s_ring ?s)\<lparr>cq := cs\<rparr>\<rparr>" "pw_pool w" "Dr_load (cqe_res c)"])
        (auto simp: drain_seen_def Let_def tokens_def busy_def)
  next
    case (ps_load i res)
    then show ?thesis using sq [OF ps_load(2)]
      by (intro repl [OF ps_load(2), of "workers w ! i" "pw_pool w" "if 0 \<le> res \<and> running (pw_pool w) then Dr_take else Dr_reload"])
        (auto simp: drain_load_def busy_def)
  next
    case (ps_take i)
    have "drain_token (drains w ! i) \<in> set (map drain_token (drains w))" using ps_take(2) len by simp
    from member_le_sum_list [OF this] have "1 \<le> sum_list (map drain_token (drains w))" using ps_take(3) by simp
    moreover have "length (work_queue (pw_pool w)) = writers w + efd (pw_pool w) + sum_list (map tokens (workers w)) + sum_list (map drain_token (drains w))"
      if "running (pw_pool w)" using assms(2) that by (simp add: tokens_inv_def)
    ultimately have q: "1 \<le> length (work_queue (pw_pool w))" if "running (pw_pool w)" using that by linarith
    obtain d where d: "d = Dr_reload \<or> (\<exists>t. d = Dr_launch t)" and w': "workers w' = workers w" "drains w' = (drains w)[i := d]" "writers w' = writers w"
        "running (pw_pool w') = running (pw_pool w)" "efd (pw_pool w') = efd (pw_pool w)" "work_queue (pw_pool w') = tl (work_queue (pw_pool w))"
      by (cases "pw_pool w" rule: pop_work_cases) (auto simp: ps_take(1) drain_take_def)
    have "Suc (length (tl (work_queue (pw_pool w)))) = length (work_queue (pw_pool w))" if "running (pw_pool w)"
      using q [OF that] by (cases "work_queue (pw_pool w)") auto
    then show ?thesis using ps_take(2,3) sq [OF ps_take(2)] d w'
      by (intro repl [OF ps_take(2), of "workers w ! i" "pw_pool w'" d]) (auto simp: busy_def)
  next
    case (ps_launch i t)
    obtain p s where ps: "launch_fiber t (pw_pool w, workers w ! i) = (p, s)" by (cases "launch_fiber t (pw_pool w, workers w ! i)")
    then show ?thesis using ps_launch launch_work [OF ps] sq [OF ps_launch(2)]
      by (intro repl [OF ps_launch(2), of s p Dr_reload]) (auto simp: drain_launch_def busy_def tokens_def)
  next
    case (ps_reload i)
    then show ?thesis using sq [OF ps_reload(2)]
      by (intro repl [OF ps_reload(2), of "workers w ! i" "pw_pool w" "if running (pw_pool w) then Dr_arm else Dr_idle"])
        (auto simp: drain_reload_def busy_def)
  next
    case (ps_arm i s)
    then show ?thesis using arm_work [OF ps_arm(4) sq [OF ps_arm(2)] assms(3)]
      by (intro repl [OF ps_arm(2), of s "pw_pool w" Dr_idle]) (auto simp: drain_arm_def busy_def tokens_def)
  next
    case (ps_other i s')
    then show ?thesis by (intro repl [OF ps_other(2), of s' "pw_pool w" "drains w ! i"]) (auto simp: other_work_def tokens_def)
  qed (use assms(2) in \<open>auto simp: tokens_inv_def pool_op_defs comp_def\<close>)
qed

lemma wake_simps [simp]: "wake m = Mf_exited \<longleftrightarrow> m = Mf_exited" "wake m = Mf_check \<longleftrightarrow> m = Mf_check" "wake m = Mf_checked \<longleftrightarrow> m = Mf_checked"
  "wake m \<noteq> Mf_parked" "main_away (wake m) = main_away m"
  by (auto simp: wake_def main_away_def)

lemma sum_list_update_nat: "i < length xs \<Longrightarrow> sum_list (xs[i := y]) + xs ! i = sum_list xs + (y :: nat)"
  using sum_list_map_update [of i xs id y] by simp

lemma step_count:
  assumes "pool_step n cpl f w w'" and "count_inv w"
  shows "count_inv w'"
proof -
  have len: "length (live w) = length (workers w)" "length (mains w) = length (workers w)" "length (drains w) = length (workers w)"
    using assms(2) by (simp_all add: count_inv_def)
  show ?thesis using assms(1)
  proof cases
    case (ps_take i)
    have "workers w' = workers w" "live w' = live w" "mains w' = mains w" "\<exists>d. drains w' = (drains w)[i := d]"
        "running (pw_pool w') = running (pw_pool w)" "in_flight (pw_pool w') = in_flight (pw_pool w)"
      by (cases "pw_pool w" rule: pop_work_cases; auto simp: ps_take(1) drain_take_def)+
    moreover have "main_away (mains w ! i)" using assms(2) ps_take(2,3) by (simp add: count_inv_def)
    ultimately show ?thesis using assms(2) ps_take(2) by (auto simp: count_inv_def nth_list_update split: if_splits)
  next
    case (ps_launch i t)
    have i: "i < length (live w)" using len ps_launch(2) by simp
    have "main_away (mains w ! i)" using assms(2) ps_launch by (simp add: count_inv_def)
    then show ?thesis using assms(2) ps_launch sum_list_update_nat [OF i, of "live w ! i + 1"]
      by (auto simp: count_inv_def drain_launch_def launch_fiber_def nth_list_update main_away_def)
  next
    case (ps_finish i)
    have i: "i < length (live w)" using len ps_finish(2) by simp
    have "sum_list ((live w)[i := live w ! i - 1]) = sum_list (live w) - 1"
      using sum_list_update_nat [OF i, of "live w ! i - 1"] ps_finish(5) by linarith
    then show ?thesis using assms(2) ps_finish(1,3) i by (auto simp: count_inv_def finish_fiber_def Let_def nth_list_update main_away_def)
  next
    case (ps_main_check i)
    have "live w ! i \<le> sum_list (live w)" using len ps_main_check(2) by (simp add: member_le_sum_list)
    moreover have "drains w ! i = Dr_idle" using assms(2) ps_main_check(2,3) by (auto simp: count_inv_def main_away_def)
    ultimately show ?thesis using assms(2) ps_main_check by (auto simp: count_inv_def main_check_def worker_pred_def nth_list_update)
  next
    case (ps_main_park i)
    then show ?thesis using assms(2) by (auto simp: count_inv_def main_park_def nth_list_update main_away_def)
  qed (use assms(2) in \<open>auto simp: count_inv_def pool_op_defs drain_op_defs nth_list_update\<close>)
qed

lemma lock_owner:
  assumes "lock_inv w" and "i < length (mains w)" and "mains w ! i = Mf_check \<or> mains w ! i = Mf_checked"
  shows "shutdown_mtx w = Some (Main i)" and "\<And>j. j < length (mains w) \<Longrightarrow> j \<noteq> i \<Longrightarrow> mains w ! j \<noteq> Mf_check \<and> mains w ! j \<noteq> Mf_checked"
    and "stopping w \<noteq> St_locked" and "stopping w \<noteq> St_set"
proof -
  show m: "shutdown_mtx w = Some (Main i)" using assms by (auto simp: lock_inv_def)
  show "mains w ! j \<noteq> Mf_check \<and> mains w ! j \<noteq> Mf_checked" if "j < length (mains w)" "j \<noteq> i" for j
    using assms(1) that m by (auto simp: lock_inv_def)
  show "stopping w \<noteq> St_locked" "stopping w \<noteq> St_set" using assms(1) m by (auto simp: lock_inv_def)
qed

lemma lock_free:
  assumes "lock_inv w" and "shutdown_mtx w = None"
  shows "\<And>j. j < length (mains w) \<Longrightarrow> mains w ! j \<noteq> Mf_check \<and> mains w ! j \<noteq> Mf_checked"
    and "stopping w \<noteq> St_locked" and "stopping w \<noteq> St_set"
  using assms by (auto simp: lock_inv_def)

lemma lock_running: "lock_inv w \<Longrightarrow> running (pw_pool w) \<longleftrightarrow> stopping w \<noteq> St_set \<and> stopping w \<noteq> St_done"
  by (simp add: lock_inv_def)

text \<open>A main fiber that holds the mutex moves on, releasing it or not.\<close>

lemma lock_release:
  assumes "lock_inv w" and "i < length (mains w)" and "mains w ! i = Mf_check \<or> mains w ! i = Mf_checked" and "m \<noteq> Mf_check" and "m \<noteq> Mf_checked"
  shows "lock_inv (w\<lparr>shutdown_mtx := None, mains := (mains w)[i := m]\<rparr>)"
  using lock_owner [OF assms(1-3)] lock_running [OF assms(1)] assms(2,4,5) by (auto simp: lock_inv_def nth_list_update)

lemma drain_take_same:
  "mains (drain_take i w) = mains w" "shutdown_mtx (drain_take i w) = shutdown_mtx w" "stopping (drain_take i w) = stopping w"
  "running (pw_pool (drain_take i w)) = running (pw_pool w)" "launched (pw_pool (drain_take i w)) = launched (pw_pool w)"
  "in_flight (pw_pool (drain_take i w)) = in_flight (pw_pool w)" "workers (drain_take i w) = workers w" "live (drain_take i w) = live w"
  "notifiers (drain_take i w) = notifiers w"
  by (cases "pw_pool w" rule: pop_work_cases; simp add: drain_take_def)+

lemma drain_launch_same:
  "mains (drain_launch i t w) = mains w" "shutdown_mtx (drain_launch i t w) = shutdown_mtx w" "stopping (drain_launch i t w) = stopping w"
  "running (pw_pool (drain_launch i t w)) = running (pw_pool w)" "launched (pw_pool (drain_launch i t w)) = launched (pw_pool w) @ [t]"
  "in_flight (pw_pool (drain_launch i t w)) = in_flight (pw_pool w) + 1" "length (workers (drain_launch i t w)) = length (workers w)"
  "notifiers (drain_launch i t w) = notifiers w" "drains (drain_launch i t w) = (drains w)[i := Dr_reload]"
  "live (drain_launch i t w) = (live w)[i := live w ! i + 1]"
  by (simp_all add: drain_launch_def launch_fiber_def)

lemmas drain_defs = drain_op_defs drain_take_same drain_launch_same

lemma step_lock:
  assumes "pool_step n cpl f w w'" and "lock_inv w" and "count_inv w"
  shows "lock_inv w'"
  using assms(1)
proof cases
  case (ps_main_check i)
  have i: "i < length (mains w)" using assms(3) ps_main_check(2) by (simp add: count_inv_def)
  have "lock_inv (w\<lparr>mains := (mains w)[i := Mf_checked]\<rparr>)"
    using assms(2) i ps_main_check(3) lock_owner(1) [OF assms(2) i] by (simp add: lock_inv_def nth_list_update)
  with lock_release [OF assms(2) i] ps_main_check(1,3) show ?thesis by (simp add: main_check_def)
next
  case (ps_main_lock i)
  have "i < length (mains w)" using assms(3) ps_main_lock(2) by (simp add: count_inv_def)
  then show ?thesis using lock_free [OF assms(2) ps_main_lock(5)] lock_running [OF assms(2)] unfolding ps_main_lock(1)
    by (auto simp: lock_inv_def main_lock_def nth_list_update)
next
  case (ps_main_park i)
  have "i < length (mains w)" using assms(3) ps_main_park(2) by (simp add: count_inv_def)
  then show ?thesis using lock_release [OF assms(2)] ps_main_park(1,3) by (simp add: main_park_def)
qed (use assms(2) in \<open>auto simp: lock_inv_def pool_op_defs drain_defs\<close>)

definition pool_inv :: "('h, 't) pool_world \<Rightarrow> bool" where
  "pool_inv w \<longleftrightarrow> tasks_inv w \<and> tokens_inv w \<and> count_inv w \<and> lock_inv w"

lemma step_inv: "pool_step n cpl f w w' \<Longrightarrow> 0 < n \<Longrightarrow> pool_inv w \<Longrightarrow> pool_inv w'"
  unfolding pool_inv_def using step_tasks step_tokens step_count step_lock by blast

interpretation ps: step_system "pool_step n cpl f" "\<lambda>w. 0 < n \<and> pool_inv w" for n cpl f
  by unfold_locales (auto intro: step_inv)

lemma run_inv: "(pool_step n cpl f)\<^sup>*\<^sup>* w w' \<Longrightarrow> 0 < n \<Longrightarrow> pool_inv w \<Longrightarrow> pool_inv w'"
  using ps.run_keeps [of n cpl f w w'] by simp

lemma pool_ctor_inv:
  assumes "fiber_pool_ctor eventfd errno tc s0 = Ret w" and "sq (s_ring s0) = []" and "work_reads s0 = 1" and "cq (s_ring s0) = []"
  shows "pool_inv w" and "length (workers w) = unat tc"
  using assms
  by (auto simp: fiber_pool_ctor_def pool_inv_def tasks_inv_def tokens_inv_def count_inv_def lock_inv_def work_cqes_def tokens_def
      sum_list_replicate hands_def busy_def split: if_splits)

lemma scheduler_ctor_fresh:
  assumes "scheduler_ctor (sq_of_size n) f errno ip pl = Ret s" and "0 < n"
  shows "sq (s_ring s) = []" "work_reads s = 1" "cq (s_ring s) = []"
  using assms
  by (auto simp: scheduler_ctor_def arm_work_efd_def arm_notify_def arm_read_room empty_uring_def work_reads_def watch_sqe_def
      tag_defs Let_def split: if_splits)

text \<open>
  After the store of \<open>running_ = false\<close> only the workers past their first load launch, one task each.
\<close>

lemma committed_update:
  assumes "drains w' = (drains w)[i := d]" and "i < length (drains w)"
  shows "committed w' + (if is_committed (drains w ! i) then 1 else 0) = committed w + (if is_committed d then 1 else 0)"
  using length_filter_update [OF assms(2), of is_committed d] by (simp add: committed_def assms(1))

lemma stopped_step:
  assumes "pool_step n cpl f w w'" and "\<not> running (pw_pool w)" and "count_inv w"
  shows "\<not> running (pw_pool w') \<and> (\<exists>ts. launched (pw_pool w') = launched (pw_pool w) @ ts \<and> length ts + committed w' \<le> committed w)"
proof -
  have len: "length (drains w) = length (workers w)" using assms(3) by (simp add: count_inv_def)
  show ?thesis using assms(1)
  proof cases
    case (ps_seen i c cs)
    then have "i < length (drains w)" using len by simp
    from committed_update [OF _ this, of w' "Dr_load (cqe_res c)"] show ?thesis using ps_seen assms(2) by (simp add: drain_seen_def Let_def)
  next
    case (ps_load i res)
    then have "i < length (drains w)" using len by simp
    from committed_update [OF _ this, of w' Dr_reload] show ?thesis using ps_load assms(2) by (simp add: drain_load_def)
  next
    case (ps_take i)
    then have i: "i < length (drains w)" using len by simp
    obtain d where "drains w' = (drains w)[i := d]"
      by (cases "pw_pool w" rule: pop_work_cases) (auto simp: ps_take(1) drain_take_def)
    from committed_update [OF this i] show ?thesis using ps_take assms(2) by (simp add: drain_take_same split: if_splits)
  next
    case (ps_launch i t)
    then have "i < length (drains w)" using len by simp
    from committed_update [OF _ this, of w' Dr_reload] show ?thesis using ps_launch assms(2) by (simp add: drain_launch_same)
  next
    case (ps_reload i)
    then have "i < length (drains w)" using len by simp
    from committed_update [OF _ this, of w' Dr_idle] show ?thesis using ps_reload assms(2) by (simp add: drain_reload_def)
  next
    case (ps_arm i s)
    then have "i < length (drains w)" using len by simp
    from committed_update [OF _ this, of w' Dr_idle] show ?thesis using ps_arm assms(2) by (simp add: drain_arm_def)
  qed (use assms(2) in \<open>auto simp: pool_op_defs committed_def\<close>)
qed

interpretation stopped: step_system "pool_step n cpl f"
    "\<lambda>w. 0 < n \<and> pool_inv w \<and> \<not> running (pw_pool w) \<and> (\<exists>ts. launched (pw_pool w) = ts0 @ ts \<and> length ts + committed w \<le> k)" for n cpl f ts0 k
proof unfold_locales
  fix w w' :: "('a, 'b) pool_world"
  assume inv: "0 < n \<and> pool_inv w \<and> \<not> running (pw_pool w) \<and> (\<exists>ts. launched (pw_pool w) = ts0 @ ts \<and> length ts + committed w \<le> k)"
    and st: "pool_step n cpl f w w'"
  then have "count_inv w" by (simp add: pool_inv_def)
  from stopped_step [OF st _ this] inv obtain us where "\<not> running (pw_pool w')" "launched (pw_pool w') = launched (pw_pool w) @ us"
    "length us + committed w' \<le> committed w" by blast
  moreover obtain ts where "launched (pw_pool w) = ts0 @ ts" "length ts + committed w \<le> k" using inv by blast
  ultimately have "\<not> running (pw_pool w') \<and> (\<exists>ts. launched (pw_pool w') = ts0 @ ts \<and> length ts + committed w' \<le> k)"
    by (intro conjI exI [of _ "ts @ us"]) auto
  then show "0 < n \<and> pool_inv w' \<and> \<not> running (pw_pool w') \<and> (\<exists>ts. launched (pw_pool w') = ts0 @ ts \<and> length ts + committed w' \<le> k)"
    using inv step_inv [OF st] by blast
qed

lemma stopped_run:
  assumes "(pool_step n cpl f)\<^sup>*\<^sup>* w w'" and "\<not> running (pw_pool w)" and "pool_inv w" and "0 < n"
  shows "\<not> running (pw_pool w') \<and> (\<exists>ts. launched (pw_pool w') = launched (pw_pool w) @ ts \<and> length ts + committed w' \<le> committed w)"
  using stopped.run_keeps [OF assms(1), of "launched (pw_pool w)" "committed w"] assms(2-4) by simp

lemma pool_progress:
  assumes "pool_inv w" and "running (pw_pool w)" and "work_queue (pw_pool w) \<noteq> []" and "workers w \<noteq> []"
  shows "0 < writers w \<or> (\<exists>i < length (workers w). (0 < efd (pw_pool w) \<and> 0 < work_reads (workers w ! i)) \<or> work_cqes (workers w ! i) \<noteq> []
    \<or> drains w ! i \<noteq> Dr_idle)"
proof (rule ccontr)
  assume no: "\<not> ?thesis"
  have len: "length (drains w) = length (workers w)" using assms(1) by (simp add: pool_inv_def count_inv_def)
  have inv: "length (work_queue (pw_pool w)) = writers w + efd (pw_pool w) + sum_list (map tokens (workers w)) + sum_list (map drain_token (drains w))"
    "\<forall>i < length (workers w). work_reads (workers w ! i) + length (work_cqes (workers w ! i)) + busy (drains w ! i) = 1"
    using assms(1,2) by (auto simp: pool_inv_def tokens_inv_def)
  have "sum_list (map tokens (workers w)) = 0" using no by (auto simp: tokens_def in_set_conv_nth)
  moreover have "sum_list (map drain_token (drains w)) = 0" using no len by (auto simp: in_set_conv_nth)
  moreover have "0 < length (work_queue (pw_pool w))" "writers w = 0" using assms(3) no by auto
  ultimately have "0 < efd (pw_pool w)" using inv(1) by linarith
  with no inv(2) assms(4) show False by (auto simp: busy_def)
qed

lemma step_workers: "pool_step n cpl f w w' \<Longrightarrow> length (workers w') = length (workers w)"
  by (induction rule: pool_step.induct) (simp_all add: pool_op_defs drain_defs)

lemma run_workers: "(pool_step n cpl f)\<^sup>*\<^sup>* w w' \<Longrightarrow> length (workers w') = length (workers w)"
  by (induction rule: rtranclp_induct) (auto dest: step_workers)

subsection \<open>The work branch without interference\<close>

text \<open>
  When no other thread takes a step in between, the steps of the work branch are one
  \<open>drain_cqe\<close> of the scheduler.
\<close>

lemma drain_tail:
  assumes "i < length (workers v)" and "i < length (drains v)" and "drains v ! i = Dr_reload" and "sq (s_ring (workers v ! i)) = []" and "0 < n"
  shows "\<exists>s'. (if running (pw_pool v) then arm_work_efd (sq_of_size n) (f i) (workers v ! i) = Ret s' else s' = workers v ! i)
    \<and> (pool_step n cpl f)\<^sup>*\<^sup>* v (v\<lparr>workers := (workers v)[i := s'], drains := (drains v)[i := Dr_idle]\<rparr>)"
proof (cases "running (pw_pool v)")
  case True
  obtain s' where s': "arm_work_efd (sq_of_size n) (f i) (workers v ! i) = Ret s'" using arm_room [OF assms(4,5)] by blast
  let ?v = "drain_reload i v"
  have "pool_step n cpl f v ?v" by (rule ps_reload [OF assms(1,3)])
  moreover have "pool_step n cpl f ?v (drain_arm i s' ?v)" using True assms(1,2) s' by (intro ps_arm) (simp_all add: drain_reload_def)
  ultimately have "(pool_step n cpl f)\<^sup>*\<^sup>* v (drain_arm i s' ?v)" by (meson rtranclp.rtrancl_into_rtrancl rtranclp.rtrancl_refl)
  then show ?thesis using True s' by (intro exI [of _ s']) (simp add: drain_arm_def drain_reload_def)
next
  case False
  have "pool_step n cpl f v (drain_reload i v)" by (rule ps_reload [OF assms(1,3)])
  then show ?thesis using False by (intro exI [of _ "workers v ! i"]) (simp add: drain_reload_def r_into_rtranclp)
qed

lemma drain_front:
  assumes "i < length (workers w)" and "length (drains w) = length (workers w)" and "main_away (mains w ! i)" and "drains w ! i = Dr_idle"
    and "cq (s_ring (workers w ! i)) = c # cs" and "cqe_user_data c = k_work_tag"
    and "s = (workers w ! i)\<lparr>s_ring := (s_ring (workers w ! i))\<lparr>cq := cs\<rparr>\<rparr>"
    and "(if 0 \<le> cqe_res c \<and> running (pw_pool w) then take_work (pw_pool w, s) else (pw_pool w, s)) = (p1, s1)"
  shows "\<exists>ts. launched p1 = launched (pw_pool w) @ ts \<and> (pool_step n cpl f)\<^sup>*\<^sup>* w (w\<lparr>pw_pool := p1, workers := (workers w)[i := s1],
      live := (live w)[i := live w ! i + length ts], drains := (drains w)[i := Dr_reload], taken := taken w @ ts\<rparr>)"
proof -
  let ?w1 = "drain_seen i w" and ?R = "(pool_step n cpl f)\<^sup>*\<^sup>*"
  have i: "i < length (drains w)" using assms(1,2) by simp
  have w1: "?w1 = w\<lparr>workers := (workers w)[i := s], drains := (drains w)[i := Dr_load (cqe_res c)]\<rparr>"
    using assms(5,7) by (simp add: drain_seen_def Let_def)
  have "pool_step n cpl f w ?w1" by (rule ps_seen [OF assms(1,3-6)])
  moreover let ?w2 = "drain_load i (cqe_res c) ?w1"
  have "pool_step n cpl f ?w1 ?w2" using assms(1) i by (intro ps_load) (simp_all add: w1)
  ultimately have run: "?R w ?w2" by (meson rtranclp.rtrancl_into_rtrancl rtranclp.rtrancl_refl)
  have w2: "?w2 = w\<lparr>workers := (workers w)[i := s], drains := (drains w)[i := if 0 \<le> cqe_res c \<and> running (pw_pool w) then Dr_take else Dr_reload]\<rparr>"
    by (simp add: drain_load_def w1)
  show ?thesis
  proof (cases "0 \<le> cqe_res c \<and> running (pw_pool w)")
    case False
    then have p1: "p1 = pw_pool w" "s1 = s" using assms(8) by auto
    from False have "?w2 = w\<lparr>workers := (workers w)[i := s], drains := (drains w)[i := Dr_reload]\<rparr>" unfolding w2 by (simp only: if_False)
    with run p1 show ?thesis by (intro exI [of _ "[]"]) simp
  next
    case True
    let ?w3 = "drain_take i ?w2"
    have "pool_step n cpl f ?w2 ?w3" using True assms(1) i by (intro ps_take) (simp_all add: w2)
    with run have run3: "?R w ?w3" by (rule rtranclp.rtrancl_into_rtrancl)
    have tw: "take_work (pw_pool w, s) = (p1, s1)" using True assms(8) by simp
    show ?thesis
    proof (cases "pw_pool w" rule: pop_work_cases)
      case (3 t ws)
      let ?w4 = "drain_launch i t ?w3"
      have "pool_step n cpl f ?w3 ?w4" using 3 True assms(1) i by (intro ps_launch) (simp_all add: drain_take_def w2)
      with run3 have "?R w ?w4" by (rule rtranclp.rtrancl_into_rtrancl)
      moreover have "?w4 = w\<lparr>pw_pool := p1, workers := (workers w)[i := s1], live := (live w)[i := live w ! i + length [t]],
          drains := (drains w)[i := Dr_reload], taken := taken w @ [t]\<rparr>"
        using 3 True tw assms(1) by (intro pool_world.equality) (auto simp: drain_launch_def drain_take_def w2 take_work_def launch_fiber_def)
      moreover have "launched p1 = launched (pw_pool w) @ [t]" using 3 tw by (auto simp: take_work_def launch_fiber_def)
      ultimately show ?thesis by (intro exI [of _ "[t]"]) simp
    next
      case 1
      then have "?w3 = w\<lparr>workers := (workers w)[i := s1], drains := (drains w)[i := Dr_reload]\<rparr>" "p1 = pw_pool w"
        using True tw by (auto simp: drain_take_def w2 take_work_def)
      then show ?thesis using run3 by (intro exI [of _ "[]"]) simp
    next
      case (2 ws)
      then have "?w3 = w\<lparr>pw_pool := p1, workers := (workers w)[i := s1], drains := (drains w)[i := Dr_reload]\<rparr>"
        using True tw by (intro pool_world.equality) (auto simp: drain_take_def w2 take_work_def)
      moreover have "launched p1 = launched (pw_pool w)" using 2 tw by (auto simp: take_work_def)
      ultimately show ?thesis using run3 by (intro exI [of _ "[]"]) simp
    qed
  qed
qed

lemma drain_run:
  assumes "i < length (workers w)" and "length (drains w) = length (workers w)" and "main_away (mains w ! i)" and "drains w ! i = Dr_idle"
    and "cq (s_ring (workers w ! i)) = c # cs" and "cqe_user_data c = k_work_tag" and "sq (s_ring (workers w ! i)) = []" and "0 < n"
    and "drain_cqe (sq_of_size n) cpl (f i) False c (pw_pool w, (workers w ! i)\<lparr>s_ring := (s_ring (workers w ! i))\<lparr>cq := cs\<rparr>\<rparr>) = Ret (p', s')"
  shows "\<exists>ts. launched p' = launched (pw_pool w) @ ts \<and> (pool_step n cpl f)\<^sup>*\<^sup>* w (w\<lparr>pw_pool := p', workers := (workers w)[i := s'],
      live := (live w)[i := live w ! i + length ts], taken := taken w @ ts\<rparr>)"
proof -
  let ?s = "(workers w ! i)\<lparr>s_ring := (s_ring (workers w ! i))\<lparr>cq := cs\<rparr>\<rparr>" and ?R = "(pool_step n cpl f)\<^sup>*\<^sup>*"
  obtain p1 s1 where ps: "(if 0 \<le> cqe_res c \<and> running (pw_pool w) then take_work (pw_pool w, ?s) else (pw_pool w, ?s)) = (p1, s1)"
    by (cases "if 0 \<le> cqe_res c \<and> running (pw_pool w) then take_work (pw_pool w, ?s) else (pw_pool w, ?s)")
  from arg_cong [OF ps, of "\<lambda>x. s_ring (snd x)"] have "s_ring s1 = (s_ring (workers w ! i))\<lparr>cq := cs\<rparr>" by (auto split: if_splits)
  then have sq: "sq (s_ring s1) = []" using assms(7) by simp
  from drain_front [OF assms(1-6) refl ps] obtain ts where ts: "launched p1 = launched (pw_pool w) @ ts"
    and run: "?R w (w\<lparr>pw_pool := p1, workers := (workers w)[i := s1], live := (live w)[i := live w ! i + length ts],
      drains := (drains w)[i := Dr_reload], taken := taken w @ ts\<rparr>)" by blast
  let ?v = "w\<lparr>pw_pool := p1, workers := (workers w)[i := s1], live := (live w)[i := live w ! i + length ts],
      drains := (drains w)[i := Dr_reload], taken := taken w @ ts\<rparr>"
  have v: "i < length (workers ?v)" "i < length (drains ?v)" "drains ?v ! i = Dr_reload" "sq (s_ring (workers ?v ! i)) = []" "workers ?v ! i = s1"
    using assms(1,2) sq by simp_all
  from drain_tail [OF v(1-4) assms(8), of f cpl] obtain s2
    where s2: "if running p1 then arm_work_efd (sq_of_size n) (f i) s1 = Ret s2 else s2 = s1"
      and tail: "?R ?v (?v\<lparr>workers := (workers ?v)[i := s2], drains := (drains ?v)[i := Dr_idle]\<rparr>)" unfolding v(5) by auto
  have "p' = p1 \<and> s' = s2" using assms(9) s2 ps by (auto simp: drain_cqe_def assms(6) split: if_splits)
  moreover have "?R w (w\<lparr>pw_pool := p1, workers := (workers w)[i := s2], live := (live w)[i := live w ! i + length ts], taken := taken w @ ts\<rparr>)"
  proof -
    have "(drains w)[i := Dr_idle] = drains w" using assms(4) list_update_id [of "drains w" i] by simp
    then have "w\<lparr>pw_pool := p1, workers := (workers w)[i := s2], live := (live w)[i := live w ! i + length ts], taken := taken w @ ts\<rparr>
        = ?v\<lparr>workers := (workers ?v)[i := s2], drains := (drains ?v)[i := Dr_idle]\<rparr>" by (intro pool_world.equality) simp_all
    then show ?thesis using rtranclp_trans [OF run tail] by (rule ssubst)
  qed
  ultimately show ?thesis using ts by (intro exI [of _ ts] conjI) simp_all
qed

subsection \<open>Properties of the pool\<close>

text \<open>
  C1. Posted work. In every reachable state of a pool with at least one worker, the tasks popped
  followed by those queued are exactly the tasks posted, in order, and what was popped has
  been launched or is in the hand of a worker about to launch it: none is lost or duplicated. While the pool runs, every
  queued task has a token (a pending write, a count of the eventfd, a work completion, or one
  that a worker is handling), and as long as a task is queued some write, read, work completion or handling
  is outstanding that will bring it to a worker. Once \<open>running_\<close> is false, only workers that
  had loaded it before launch a task, at most one each.
\<close>

theorem pool_work_conserved:
  assumes "scheduler_ctor (sq_of_size n) f0 errno ip pl = Ret s0" and "0 < n" and "0 < tc"
    and "fiber_pool_ctor eventfd errno' tc s0 = Ret w0" and "(pool_step n cpl f)\<^sup>*\<^sup>* w0 w"
  shows "taken w @ tasks (work_queue (pw_pool w)) = tasks (posted w)
    \<and> mset (launched (pw_pool w)) + mset (hands (drains w)) = mset (taken w)
    \<and> (running (pw_pool w) \<longrightarrow>
        length (work_queue (pw_pool w)) = writers w + efd (pw_pool w) + sum_list (map tokens (workers w)) + sum_list (map drain_token (drains w)))
    \<and> (running (pw_pool w) \<and> work_queue (pw_pool w) \<noteq> [] \<longrightarrow>
        0 < writers w \<or> (\<exists>i < length (workers w). (0 < efd (pw_pool w) \<and> 0 < work_reads (workers w ! i)) \<or> work_cqes (workers w ! i) \<noteq> []
          \<or> drains w ! i \<noteq> Dr_idle))
    \<and> (\<not> running (pw_pool w) \<longrightarrow> (\<forall>w'. (pool_step n cpl f)\<^sup>*\<^sup>* w w' \<longrightarrow>
        (\<exists>ts. launched (pw_pool w') = launched (pw_pool w) @ ts \<and> length ts \<le> committed w)))"
proof -
  note w0 = pool_ctor_inv [OF assms(4) scheduler_ctor_fresh [OF assms(1,2)]]
  note inv = run_inv [OF assms(5,2) w0(1)]
  have "workers w \<noteq> []" using w0(2) assms(3) run_workers [OF assms(5)] by (auto simp: word_gt_0 unat_eq_0)
  moreover have "\<exists>ts. launched (pw_pool w') = launched (pw_pool w) @ ts \<and> length ts \<le> committed w"
    if "\<not> running (pw_pool w)" "(pool_step n cpl f)\<^sup>*\<^sup>* w w'" for w'
    using stopped_run [OF that(2,1) inv assms(2)] by auto
  ultimately show ?thesis using inv pool_progress [OF inv] by (simp add: pool_inv_def tasks_inv_def tokens_inv_def)
qed

text \<open>Pools to run: \<open>k\<close> workers; one task.\<close>

definition pool_fds :: fds where
  "pool_fds = \<lparr>eventfd_fd = 5, notify_fd = 6, work_efd_val = 0, notify_val = 0\<rparr>"

definition work_read :: sqe where
  "work_read = watch_sqe 5 0 k_work_tag blank_sqe"

definition fresh_sched :: "(int promise, nat) sched" where
  "fresh_sched = \<lparr>s_ring = empty_uring\<lparr>inflight := [work_read, watch_sqe 6 0 k_notify_tag blank_sqe]\<rparr>, notify_count = 0, ready = [],
     cancel_queue = [], handlers = (\<lambda>_. None), pool_cbs = [], fiber_cbs = [], spawned = []\<rparr>"

lemma fresh_sched_ctor: "scheduler_ctor (sq_of_size 8) pool_fds 0 0 0 = Ret fresh_sched"
  by (simp add: scheduler_ctor_def pool_fds_def arm_work_efd_def arm_notify_def arm_read_room empty_uring_def fresh_sched_def work_read_def Let_def)

definition no_complete :: "int promise complete_fn" where
  "no_complete h r res flags = Ret (h, r, None)"

definition start_world :: "nat \<Rightarrow> (int promise, nat) pool_world" where
  "start_world k = \<lparr>pw_pool = \<lparr>work_queue = [], efd = 0, running = True, in_flight = 0, pool_stop = False, launched = []\<rparr>,
        writers = 0, notifiers = 0, workers = replicate k fresh_sched, mains = replicate k Mf_start, drains = replicate k Dr_idle,
        live = replicate k 0, shutdown_mtx = None, stopping = St_idle, posted = [], taken = []\<rparr>"

lemma start_world_ctor: "fiber_pool_ctor 5 0 tc fresh_sched = Ret (start_world (unat tc))"
  by (simp add: fiber_pool_ctor_def start_world_def)

abbreviation race_step :: "(int promise, nat) pool_world \<Rightarrow> (int promise, nat) pool_world \<Rightarrow> bool" where
  "race_step \<equiv> pool_step 8 no_complete (\<lambda>_. pool_fds)"

text \<open>A worker when the work completion is there.\<close>

definition token_sched :: "(int promise, nat) sched" where
  "token_sched = fresh_sched\<lparr>s_ring := empty_uring\<lparr>inflight := [watch_sqe 6 0 k_notify_tag blank_sqe],
     cq := [\<lparr>cqe_user_data = k_work_tag, cqe_res = 8, cqe_flags = 0\<rparr>]\<rparr>\<rparr>"

lemma token_sched_read: "post_cqe work_read 8 fresh_sched = token_sched"
  by (simp add: post_cqe_def fresh_sched_def token_sched_def work_read_def watch_sqe_def empty_uring_def)

lemma fire_pool_stop_idle: "pool_cbs s = [] \<Longrightarrow> fire_pool_stop s = s"
  by (simp add: fire_pool_stop_eval)

text \<open>The pool is stopped after the only worker has loaded \<open>running_\<close> and before it pops the task.\<close>

definition late_pool :: "nat option list \<Rightarrow> nat \<Rightarrow> bool \<Rightarrow> nat pool" where
  "late_pool q k run = \<lparr>work_queue = q, efd = k, running = run, in_flight = 0, pool_stop = \<not> run, launched = []\<rparr>"

definition late :: "nat pool \<Rightarrow> nat \<Rightarrow> (int promise, nat) sched \<Rightarrow> nat drain_phase \<Rightarrow> nat list \<Rightarrow> owner option \<Rightarrow> stop_phase \<Rightarrow> (int promise, nat) pool_world" where
  "late p wr s d tk mx st = \<lparr>pw_pool = p, writers = wr, notifiers = 0, workers = [s], mains = [Mf_start], drains = [d], live = [0],
     shutdown_mtx = mx, stopping = st, posted = [Some 7], taken = tk\<rparr>"

lemma late_stopped:
  "race_step\<^sup>*\<^sup>* (start_world 1) (late (late_pool [Some 7] 0 False) 0 (token_sched\<lparr>s_ring := (s_ring token_sched)\<lparr>cq := []\<rparr>\<rparr>) Dr_take [] (Some Stopper) St_set)"
  (is "race_step\<^sup>*\<^sup>* _ ?end")
proof -
  let ?w = "\<lambda>k wr s d. late (late_pool [Some 7] k True) wr s d [] None St_idle" and ?s = "token_sched\<lparr>s_ring := (s_ring token_sched)\<lparr>cq := []\<rparr>\<rparr>"
  note ev = late_def late_pool_def
  let ?v = "stop_store (stop_lock (stop_request (?w 0 0 ?s Dr_take)))"
  have "race_step (start_world 1) (?w 0 1 fresh_sched Dr_idle)"
    using ps_push [of 8 no_complete "\<lambda>_. pool_fds" "start_world 1" "Some 7"] by (simp add: post_push_def start_world_def ev)
  then have "race_step\<^sup>*\<^sup>* (start_world 1) (?w 0 1 fresh_sched Dr_idle)" ..
  also have "race_step \<dots> (?w 1 0 fresh_sched Dr_idle)"
    using ps_write [of "?w 0 1 fresh_sched Dr_idle" 8 no_complete "\<lambda>_. pool_fds"] by (simp add: post_write_def ev)
  also have "race_step \<dots> (?w 0 0 token_sched Dr_idle)"
    using ps_read [of 0 "?w 1 0 fresh_sched Dr_idle" work_read 8 no_complete "\<lambda>_. pool_fds"]
    by (simp add: set_worker_def ev token_sched_read) (simp add: fresh_sched_def work_read_def watch_sqe_def)
  also have "race_step \<dots> (?w 0 0 ?s (Dr_load 8))"
    using ps_seen [of 0 "?w 0 0 token_sched Dr_idle" _ _ 8 no_complete "\<lambda>_. pool_fds"]
    by (simp add: drain_seen_def ev main_away_def token_sched_def Let_def)
  also have "race_step \<dots> (?w 0 0 ?s Dr_take)"
    using ps_load [of 0 "?w 0 0 ?s (Dr_load 8)" 8 8 no_complete "\<lambda>_. pool_fds"] by (simp add: drain_load_def ev)
  also have "race_step \<dots> (stop_request (?w 0 0 ?s Dr_take))" by (rule ps_stop_request) (simp add: ev)
  also have "race_step \<dots> (stop_lock (stop_request (?w 0 0 ?s Dr_take)))" by (rule ps_stop_lock) (simp_all add: ev stop_request_def)
  also have "race_step \<dots> ?v" by (rule ps_stop_store) (simp add: stop_lock_def)
  also have "?v = ?end"
    by (simp add: stop_store_def stop_lock_def stop_request_def ev fire_pool_stop_idle token_sched_def fresh_sched_def)
  finally show ?thesis .
qed

theorem pool_work_conserved_witness:
  "\<exists>w w'. race_step\<^sup>*\<^sup>* (start_world 1) w \<and> \<not> running (pw_pool w) \<and> launched (pw_pool w) = [] \<and> committed w = 1
     \<and> race_step\<^sup>*\<^sup>* w w' \<and> launched (pw_pool w') = [7]
     \<and> (\<forall>v. race_step\<^sup>*\<^sup>* w v \<longrightarrow> length (launched (pw_pool v)) \<le> 1)"
proof -
  let ?w = "late (late_pool [Some 7] 0 False) 0 (token_sched\<lparr>s_ring := (s_ring token_sched)\<lparr>cq := []\<rparr>\<rparr>) Dr_take [] (Some Stopper) St_set"
  let ?v = "drain_take 0 ?w"
  have ctor: "fiber_pool_ctor 5 0 1 fresh_sched = Ret (start_world 1)" using start_world_ctor [of 1] by simp
  have w: "\<not> running (pw_pool ?w)" "launched (pw_pool ?w) = []" "committed ?w = 1" by (simp_all add: late_def late_pool_def committed_def)
  have bound: "\<exists>ts. launched (pw_pool v) = launched (pw_pool ?w) @ ts \<and> length ts \<le> committed ?w" if "race_step\<^sup>*\<^sup>* ?w v" for v
    using pool_work_conserved [OF fresh_sched_ctor _ _ ctor late_stopped] that w(1) by simp
  have v: "drains ?v = [Dr_launch 7]" "workers ?v = workers ?w" "launched (pw_pool ?v) = []"
    by (simp_all add: drain_take_def pop_work_def late_def late_pool_def)
  have "race_step ?w ?v" by (rule ps_take) (simp_all add: late_def)
  moreover have "race_step ?v (drain_launch 0 7 ?v)" using v by (intro ps_launch) (simp_all add: late_def)
  ultimately have "race_step\<^sup>*\<^sup>* ?w (drain_launch 0 7 ?v)" by (meson rtranclp.rtrancl_into_rtrancl rtranclp.rtrancl_refl)
  moreover have "launched (pw_pool (drain_launch 0 7 ?v)) = [7]" using v(3) by (simp add: drain_launch_same)
  moreover have "length (launched (pw_pool v)) \<le> 1" if "race_step\<^sup>*\<^sup>* ?w v" for v using bound [OF that] w(2,3) by auto
  ultimately show ?thesis using late_stopped w by blast
qed

text \<open>
  C9. Workers exit when the work is done. In every reachable state \<open>in_flight_\<close> is the number
  of fibers that have not ended, over all workers. A worker whose main fiber has left its
  wait has no live fiber and the pool has been stopped; and a main fiber leaves the wait only
  in a state in which no fiber of any worker is live.
\<close>

theorem pool_exit_safe:
  assumes "scheduler_ctor (sq_of_size n) f0 errno ip pl = Ret s0" and "0 < n"
    and "fiber_pool_ctor eventfd errno' tc s0 = Ret w0" and "(pool_step n cpl f)\<^sup>*\<^sup>* w0 w"
  shows "in_flight (pw_pool w) = sum_list (live w)
    \<and> (\<forall>i < length (workers w). mains w ! i = Mf_exited \<longrightarrow> live w ! i = 0 \<and> \<not> running (pw_pool w))
    \<and> (\<forall>i w'. i < length (workers w) \<and> pool_step n cpl f w w' \<and> mains w ! i \<noteq> Mf_exited \<and> mains w' ! i = Mf_exited \<longrightarrow>
        sum_list (live w) = 0)"
proof -
  have inv: "count_inv w" using run_inv [OF assms(4,2) pool_ctor_inv(1) [OF assms(3) scheduler_ctor_fresh [OF assms(1,2)]]]
    by (simp add: pool_inv_def)
  have len: "length (mains w) = length (workers w)" using inv by (simp add: count_inv_def)
  have "sum_list (live w) = 0"
    if "i < length (workers w)" "pool_step n cpl f w w'" "mains w ! i \<noteq> Mf_exited" "mains w' ! i = Mf_exited" for i w'
    using that(2)
  proof cases
    case (ps_main_check j)
    then show ?thesis using that inv by (auto simp: main_check_def worker_pred_def count_inv_def nth_list_update split: if_splits)
  qed (use that len in \<open>auto simp: pool_op_defs drain_defs nth_list_update split: if_splits\<close>)
  then show ?thesis using inv by (auto simp: count_inv_def)
qed

subsection \<open>Waking the main fibers\<close>

text \<open>
  With a single worker the end of the last fiber cannot fall between the evaluation of the
  predicate and parking, since fibers and main fiber share the thread.
\<close>

definition awake_inv :: "('h, 't) pool_world \<Rightarrow> bool" where
  "awake_inv w \<longleftrightarrow> length (workers w) = 1 \<and> (stopping w = St_done \<longrightarrow>
     (mains w ! 0 = Mf_checked \<longrightarrow> 0 < in_flight (pw_pool w)) \<and>
     (mains w ! 0 = Mf_parked \<longrightarrow> 0 < in_flight (pw_pool w) \<or> 0 < notifiers w))"

lemma step_awake:
  assumes "pool_step n cpl f w w'" and "awake_inv w" and "pool_inv w"
  shows "awake_inv w'"
proof -
  have one: "length (workers w) = 1" "length (mains w) = 1" "length (live w) = 1" "length (workers w') = 1"
    using assms(2,3) step_workers [OF assms(1)] by (auto simp: awake_inv_def pool_inv_def count_inv_def)
  have lk: "lock_inv w" using assms(3) by (simp add: pool_inv_def)
  have run: "\<not> running (pw_pool w)" if "stopping w = St_done" using lk that by (simp add: lock_inv_def)
  show ?thesis
    using assms(1)
  proof cases
    case ps_stop_notify
    have "shutdown_mtx w = Some Stopper" using lk ps_stop_notify(2) by (simp add: lock_inv_def)
    then have "mains w ! 0 \<noteq> Mf_checked" using lk one(2) by (auto simp: lock_inv_def)
    then show ?thesis using one by (simp add: ps_stop_notify(1) awake_inv_def stop_notify_def notify_all_def)
  next
    case (ps_main_check i)
    then show ?thesis using assms(2) one run by (auto simp: awake_inv_def main_check_def worker_pred_def)
  next
    case (ps_finish i)
    then show ?thesis using assms(2) one by (auto simp: awake_inv_def finish_fiber_def Let_def main_away_def)
  qed (use assms(2) one in \<open>auto simp: awake_inv_def pool_op_defs drain_defs\<close>)
qed

interpretation awake: step_system "pool_step n cpl f" "\<lambda>w. 0 < n \<and> pool_inv w \<and> awake_inv w" for n cpl f
  by unfold_locales (auto intro: step_inv step_awake)

lemma stopped_stays: "pool_step n cpl f w w' \<Longrightarrow> stopping w = St_done \<Longrightarrow> stopping w' = St_done"
  by (erule pool_step.cases) (auto simp: pool_op_defs drain_defs)

lemma stopped_run_stays: "(pool_step n cpl f)\<^sup>*\<^sup>* w w' \<Longrightarrow> stopping w = St_done \<Longrightarrow> stopping w' = St_done"
  by (induction rule: rtranclp_induct) (simp_all add: stopped_stays)

text \<open>After the stop the only worker gets through its work branch; a task it still launches can end and notify.\<close>

definition quiet :: "('h, 't) pool_world \<Rightarrow> bool" where
  "quiet w \<longleftrightarrow> pool_inv w \<and> length (workers w) = 1 \<and> stopping w = St_done \<and> in_flight (pw_pool w) = 0 \<and> notifiers w = 0"

lemma quiet_facts:
  assumes "quiet w"
  shows "0 < length (workers w)" "length (drains w) = 1" "length (live w) = 1" "length (mains w) = 1" "\<not> running (pw_pool w)"
    "drains w ! 0 \<noteq> Dr_idle \<Longrightarrow> main_away (mains w ! 0)" "sq (s_ring (workers w ! 0)) = []"
proof -
  have "count_inv w" "tokens_inv w" "lock_inv w" "length (workers w) = 1" "stopping w = St_done" using assms by (simp_all add: quiet_def pool_inv_def)
  then show "0 < length (workers w)" "length (drains w) = 1" "length (live w) = 1" "length (mains w) = 1" "\<not> running (pw_pool w)"
    "drains w ! 0 \<noteq> Dr_idle \<Longrightarrow> main_away (mains w ! 0)" "sq (s_ring (workers w ! 0)) = []"
    by (auto simp: count_inv_def tokens_inv_def lock_inv_def)
qed

lemma quiet_step:
  assumes "pool_step n cpl f w w'" and "0 < n" and "quiet w" and "in_flight (pw_pool w') = 0" and "notifiers w' = 0"
  shows "quiet w'"
  using assms step_inv [OF assms(1,2)] step_workers [OF assms(1)] stopped_stays [OF assms(1)] by (simp add: quiet_def)

lemma launch_settles:
  assumes "quiet w" and "drains w ! 0 = Dr_launch t" and "0 < n"
  shows "\<exists>v. (pool_step n cpl f)\<^sup>*\<^sup>* w v \<and> quiet v \<and> drains v ! 0 = Dr_idle"
proof -
  note q = quiet_facts [OF assms(1)]
  let ?R = "pool_step n cpl f"
  let ?v1 = "drain_launch 0 t w" and ?v2 = "drain_reload 0 (drain_launch 0 t w)"
  let ?v3 = "finish_fiber 0 ?v2" and ?v4 = "finish_notify (finish_fiber 0 ?v2)"
  have fl: "in_flight (pw_pool w) = 0" "notifiers w = 0" using assms(1) by (simp_all add: quiet_def)
  have d2: "drains ?v2 = [Dr_idle]" using q(2,5) by (cases "drains w") (auto simp: drain_reload_def drain_launch_same)
  have s1: "?R w ?v1" by (rule ps_launch [OF q(1) assms(2)])
  have s2: "?R ?v1 ?v2" using q(1,2) by (intro ps_reload) (simp_all add: drain_launch_same)
  have s3: "?R ?v2 ?v3" using q assms(2) d2 by (intro ps_finish) (simp_all add: drain_reload_def drain_launch_same)
  have s4: "?R ?v3 ?v4" using fl by (intro ps_finish_notify) (simp add: finish_fiber_def drain_reload_def drain_launch_same Let_def)
  have run: "?R\<^sup>*\<^sup>* w ?v4" using s1 s2 s3 s4 by (meson rtranclp.rtrancl_into_rtrancl rtranclp.rtrancl_refl)
  have "in_flight (pw_pool ?v4) = 0" "notifiers ?v4 = 0" "drains ?v4 = drains ?v2"
    using fl by (simp_all add: finish_notify_def notify_all_def finish_fiber_def drain_reload_def drain_launch_same Let_def)
  moreover have "pool_inv w" "length (workers w) = 1" "stopping w = St_done" using assms(1) by (simp_all add: quiet_def)
  ultimately show ?thesis
    using run d2 run_inv [OF run assms(3)] run_workers [OF run] stopped_run_stays [OF run] by (intro exI [of _ ?v4]) (simp add: quiet_def)
qed

lemma drain_settles:
  assumes "quiet w" and "0 < n"
  shows "\<exists>v. (pool_step n cpl f)\<^sup>*\<^sup>* w v \<and> quiet v \<and> drains v ! 0 = Dr_idle"
proof -
  let ?R = "pool_step n cpl f"
  have before: "\<exists>v. ?R\<^sup>*\<^sup>* w v \<and> quiet v \<and> drains v ! 0 = Dr_idle" if "?R w w'" "\<exists>v. ?R\<^sup>*\<^sup>* w' v \<and> quiet v \<and> drains v ! 0 = Dr_idle" for w w'
    using that by (meson converse_rtranclp_into_rtranclp)
  have reload: "\<exists>v. ?R\<^sup>*\<^sup>* w v \<and> quiet v \<and> drains v ! 0 = Dr_idle" if w: "quiet w" "drains w ! 0 = Dr_reload" for w
  proof -
    note q = quiet_facts [OF w(1)]
    have st: "?R w (drain_reload 0 w)" by (rule ps_reload [OF q(1) w(2)])
    have "quiet (drain_reload 0 w)" by (rule quiet_step [OF st assms(2) w(1)]) (use w(1) in \<open>simp_all add: drain_reload_def quiet_def\<close>)
    moreover have "drains (drain_reload 0 w) ! 0 = Dr_idle" using q by (simp add: drain_reload_def)
    ultimately show ?thesis using before [OF st] by blast
  qed
  note q = quiet_facts [OF assms(1)]
  show ?thesis
  proof (cases "drains w ! 0")
    case Dr_idle
    then show ?thesis using assms(1) by blast
  next
    case (Dr_load res)
    have st: "?R w (drain_load 0 res w)" by (rule ps_load [OF q(1) Dr_load])
    have "quiet (drain_load 0 res w)" by (rule quiet_step [OF st assms(2,1)]) (use assms(1) in \<open>simp_all add: drain_load_def quiet_def\<close>)
    from reload [OF this] show ?thesis using before [OF st] q by (simp add: drain_load_def)
  next
    case Dr_take
    have st: "?R w (drain_take 0 w)" by (rule ps_take [OF q(1) Dr_take])
    have qt: "quiet (drain_take 0 w)" by (rule quiet_step [OF st assms(2,1)]) (use assms(1) in \<open>simp_all add: drain_take_same quiet_def\<close>)
    have "drains (drain_take 0 w) ! 0 = Dr_reload \<or> (\<exists>t. drains (drain_take 0 w) ! 0 = Dr_launch t)"
      using q(2) by (cases "pw_pool w" rule: pop_work_cases) (simp_all add: drain_take_def)
    then show ?thesis using before [OF st] reload [OF qt] launch_settles [OF qt _ assms(2)] by blast
  next
    case (Dr_launch t)
    then show ?thesis by (rule launch_settles [OF assms(1) _ assms(2)])
  next
    case Dr_reload
    then show ?thesis by (rule reload [OF assms(1)])
  next
    case Dr_arm
    obtain s where "arm_work_efd (sq_of_size n) (f 0) (workers w ! 0) = Ret s" using arm_room [OF q(7) assms(2)] by blast
    then have st: "?R w (drain_arm 0 s w)" by (rule ps_arm [OF q(1) Dr_arm])
    have "quiet (drain_arm 0 s w)" by (rule quiet_step [OF st assms(2,1)]) (use assms(1) in \<open>simp_all add: drain_arm_def quiet_def\<close>)
    moreover have "drains (drain_arm 0 s w) ! 0 = Dr_idle" using q by (simp add: drain_arm_def)
    ultimately show ?thesis using before [OF st] by blast
  qed
qed

text \<open>
  A pool with one worker stops. After \<open>stop()\<close> has run, whatever happened before, a worker
  that is alone in its pool can always leave its wait once no fiber is in flight and no
  notification is pending: it is not left parked.
\<close>

lemma quiet_exits:
  assumes "awake_inv w" and "quiet w" and "drains w ! 0 = Dr_idle"
  shows "\<exists>w'. (pool_step n cpl f)\<^sup>*\<^sup>* w w' \<and> mains w' ! 0 = Mf_exited"
proof -
  note q = quiet_facts [OF assms(2)]
  have st: "stopping w = St_done" "in_flight (pw_pool w) = 0" "notifiers w = 0" and lk: "lock_inv w"
    using assms(2) by (simp_all add: quiet_def pool_inv_def)
  have pred: "worker_pred (pw_pool w)" using q(5) st(2) by (simp add: worker_pred_def)
  have leave: "pool_step n cpl f v (main_check 0 v)" "mains (main_check 0 v) ! 0 = Mf_exited"
    if "mains v ! 0 = Mf_check" "length (workers v) = 1" "length (mains v) = 1" "worker_pred (pw_pool v)" for v
  proof -
    show "pool_step n cpl f v (main_check 0 v)" using that by (intro ps_main_check) simp_all
    show "mains (main_check 0 v) ! 0 = Mf_exited" using that by (simp add: main_check_def)
  qed
  have one: "length (workers w) = 1" using assms(2) by (simp add: quiet_def)
  consider "mains w ! 0 = Mf_exited" | "mains w ! 0 = Mf_check" | "mains w ! 0 = Mf_start \<or> mains w ! 0 = Mf_woken"
    using assms(1) st by (cases "mains w ! 0") (auto simp: awake_inv_def)
  then show ?thesis
  proof cases
    case 1
    then show ?thesis by blast
  next
    case 2
    then show ?thesis using leave [of w] one q(4) pred by blast
  next
    case 3
    have "shutdown_mtx w = None"
    proof (cases "shutdown_mtx w")
      case (Some own)
      then show ?thesis using lk st(1) 3 q(4) by (cases own) (auto simp: lock_inv_def)
    qed simp
    with 3 one assms(3) have step: "pool_step n cpl f w (main_lock 0 w)" by (auto intro: ps_main_lock)
    have "mains (main_lock 0 w) ! 0 = Mf_check" "length (workers (main_lock 0 w)) = 1" "length (mains (main_lock 0 w)) = 1"
      "worker_pred (pw_pool (main_lock 0 w))" using one q(4) pred by (simp_all add: main_lock_def)
    from leave [OF this] step show ?thesis by (meson rtranclp.rtrancl_into_rtrancl r_into_rtranclp)
  qed
qed

lemma single_worker_stops:
  assumes "scheduler_ctor (sq_of_size n) f0 errno ip pl = Ret s0" and "0 < n"
    and "fiber_pool_ctor eventfd errno' 1 s0 = Ret w0" and "(pool_step n cpl f)\<^sup>*\<^sup>* w0 w"
    and "stopping w = St_done" and "in_flight (pw_pool w) = 0" and "notifiers w = 0"
  shows "\<exists>w'. (pool_step n cpl f)\<^sup>*\<^sup>* w w' \<and> mains w' ! 0 = Mf_exited"
proof -
  note c = pool_ctor_inv [OF assms(3) scheduler_ctor_fresh [OF assms(1,2)]]
  have "awake_inv w0" using c(2) assms(3) by (auto simp: awake_inv_def fiber_pool_ctor_def split: if_splits)
  with awake.run_keeps [OF assms(4)] c(1) assms(2) have aw: "0 < n \<and> pool_inv w \<and> awake_inv w" by blast
  then have "quiet w" using assms(5-7) by (simp add: quiet_def awake_inv_def)
  from drain_settles [OF this assms(2)] obtain v where v: "(pool_step n cpl f)\<^sup>*\<^sup>* w v" "quiet v" "drains v ! 0 = Dr_idle" by blast
  have "awake_inv v" using awake.run_keeps [OF v(1) aw] by simp
  from quiet_exits [OF this v(2,3)] v(1) show ?thesis by (meson rtranclp_trans)
qed

definition stopped_world :: "nat \<Rightarrow> (int promise, nat) pool_world" where
  "stopped_world k = stop_notify (stop_store (stop_lock (stop_request (start_world k))))"

lemma stopped_world_run: "(pool_step n cpl f)\<^sup>*\<^sup>* (start_world k) (stopped_world k)"
proof -
  let ?w = "start_world k"
  have "pool_step n cpl f ?w (stop_request ?w)"
    and "pool_step n cpl f (stop_request ?w) (stop_lock (stop_request ?w))"
    and "pool_step n cpl f (stop_lock (stop_request ?w)) (stop_store (stop_lock (stop_request ?w)))"
    and "pool_step n cpl f (stop_store (stop_lock (stop_request ?w))) (stopped_world k)"
    unfolding stopped_world_def
    by (rule ps_stop_request ps_stop_lock ps_stop_store ps_stop_notify; simp add: start_world_def pool_op_defs)+
  then show ?thesis by (meson rtranclp.rtrancl_into_rtrancl rtranclp.rtrancl_refl)
qed

text \<open>Stuck for good: stopped, nothing in flight, no notification to come, worker \<open>0\<close> parked.\<close>

definition stuck :: "('h, 't) pool_world \<Rightarrow> bool" where
  "stuck w \<longleftrightarrow> pool_inv w \<and> stopping w = St_done \<and> in_flight (pw_pool w) = 0 \<and> notifiers w = 0 \<and> mains w ! 0 = Mf_parked
     \<and> committed w = 0"

lemma step_stuck:
  assumes "pool_step n cpl f w w'" and "stuck w" and "0 < n"
  shows "stuck w'"
proof -
  have inv: "pool_inv w" and inv': "pool_inv w'" using assms step_inv [OF assms(1,3)] by (auto simp: stuck_def)
  have run: "\<not> running (pw_pool w)" and cnt: "count_inv w" using inv assms(2) by (auto simp: stuck_def pool_inv_def lock_inv_def)
  from stopped_step [OF assms(1) run cnt] have com: "committed w' = 0" using assms(2) by (auto simp: stuck_def)
  have idle: "\<not> is_committed (drains w ! i)" if "i < length (workers w)" for i
    using cnt assms(2) that by (auto simp: stuck_def count_inv_def committed_def filter_empty_conv)
  have none: "live w ! i = 0" if "i < length (workers w)" for i
    using cnt assms(2) that member_le_sum_list [of "live w ! i" "live w"] by (auto simp: stuck_def count_inv_def)
  show ?thesis
    using assms(1)
  proof cases
    case (ps_finish i)
    then show ?thesis using none by simp
  next
    case (ps_launch i t)
    then show ?thesis using idle by force
  next
    case (ps_main_lock i)
    then show ?thesis using assms(2) inv' com by (cases "i = 0") (auto simp: stuck_def main_lock_def)
  next
    case (ps_main_check i)
    then show ?thesis using assms(2) inv' com by (cases "i = 0") (auto simp: stuck_def main_check_def)
  next
    case (ps_main_park i)
    then show ?thesis using assms(2) inv' com by (cases "i = 0") (auto simp: stuck_def main_park_def)
  qed (use assms(2) inv' com in \<open>auto simp: stuck_def pool_op_defs drain_defs\<close>)
qed

interpretation stuck: step_system "pool_step n cpl f" "\<lambda>w. 0 < n \<and> stuck w" for n cpl f
  by unfold_locales (auto intro: step_stuck)

text \<open>The states of the race: what the steps below change.\<close>

definition race_pool :: "nat option list \<Rightarrow> nat \<Rightarrow> bool \<Rightarrow> nat \<Rightarrow> nat list \<Rightarrow> nat pool" where
  "race_pool q k run fl ts = \<lparr>work_queue = q, efd = k, running = run, in_flight = fl, pool_stop = \<not> run, launched = ts\<rparr>"

definition race :: "nat pool \<Rightarrow> nat \<Rightarrow> nat \<Rightarrow> (int promise, nat) sched \<Rightarrow> main_phase \<Rightarrow> main_phase \<Rightarrow> nat \<Rightarrow> owner option \<Rightarrow> stop_phase \<Rightarrow>
    (int promise, nat) pool_world" where
  "race p wr nt s m0 m1 lv mx st = \<lparr>pw_pool = p, writers = wr, notifiers = nt, workers = [fresh_sched, s], mains = [m0, m1],
     drains = [Dr_idle, Dr_idle], live = [0, lv], shutdown_mtx = mx, stopping = st, posted = [Some 7], taken = launched p\<rparr>"

text \<open>Worker \<open>1\<close> after it took the task.\<close>

definition race_sched :: "(int promise, nat) sched" where
  "race_sched = fresh_sched\<lparr>s_ring := empty_uring\<lparr>inflight := [watch_sqe 6 0 k_notify_tag blank_sqe, work_read]\<rparr>, ready := [1], spawned := [7]\<rparr>"

lemma race_drain:
  "drain_cqe (sq_of_size 8) no_complete pool_fds False \<lparr>cqe_user_data = k_work_tag, cqe_res = 8, cqe_flags = 0\<rparr>
     (race_pool [Some 7] 0 True 0 [], token_sched\<lparr>s_ring := (s_ring token_sched)\<lparr>cq := []\<rparr>\<rparr>) = Ret (race_pool [] 0 True 1 [7], race_sched)"
  by (subst drain_work) (simp_all add: token_sched_def fresh_sched_def race_sched_def race_pool_def take_work_def pop_work_def launch_fiber_def awakened_def
      pool_fds_def work_read_def empty_uring_def Let_def)

lemma race_read:
  "race_step (race (race_pool [Some 7] 1 True 0 []) 0 0 fresh_sched Mf_parked Mf_parked 0 None St_idle)
     (race (race_pool [Some 7] 0 True 0 []) 0 0 token_sched Mf_parked Mf_parked 0 None St_idle)"
  (is "race_step ?w ?v")
proof -
  have "set_worker 1 ((pw_pool ?w)\<lparr>efd := efd (pw_pool ?w) - 1\<rparr>) (post_cqe work_read 8 (workers ?w ! 1)) ?w = ?v"
    by (simp add: race_def race_pool_def set_worker_def token_sched_read)
  moreover have "race_step ?w (set_worker 1 ((pw_pool ?w)\<lparr>efd := efd (pw_pool ?w) - 1\<rparr>) (post_cqe work_read 8 (workers ?w ! 1)) ?w)"
    by (rule ps_read) (simp_all add: race_def race_pool_def fresh_sched_def work_read_def watch_sqe_def)
  ultimately show ?thesis by simp
qed

lemma race_take:
  "race_step\<^sup>*\<^sup>* (race (race_pool [Some 7] 0 True 0 []) 0 0 token_sched Mf_parked Mf_parked 0 None St_idle)
     (race (race_pool [] 0 True 1 [7]) 0 0 race_sched Mf_parked Mf_parked 1 None St_idle)"
  (is "race_step\<^sup>*\<^sup>* ?w ?v")
proof -
  let ?c = "\<lparr>cqe_user_data = k_work_tag, cqe_res = 8, cqe_flags = 0\<rparr>"
  have h: "1 < length (workers ?w)" "length (drains ?w) = length (workers ?w)" "main_away (mains ?w ! 1)" "drains ?w ! 1 = Dr_idle"
    "cq (s_ring (workers ?w ! 1)) = ?c # []" "cqe_user_data ?c = k_work_tag" "sq (s_ring (workers ?w ! 1)) = []"
    by (simp_all add: race_def main_away_def token_sched_def empty_uring_def)
  have "drain_cqe (sq_of_size 8) no_complete pool_fds False ?c (pw_pool ?w, (workers ?w ! 1)\<lparr>s_ring := (s_ring (workers ?w ! 1))\<lparr>cq := []\<rparr>\<rparr>)
      = Ret (race_pool [] 0 True 1 [7], race_sched)"
    using race_drain by (simp add: race_def)
  from drain_run [OF h _ this] obtain ts where ts: "launched (race_pool [] 0 True 1 [7]) = launched (pw_pool ?w) @ ts"
    and run: "race_step\<^sup>*\<^sup>* ?w (?w\<lparr>pw_pool := race_pool [] 0 True 1 [7], workers := (workers ?w)[1 := race_sched],
      live := (live ?w)[1 := live ?w ! 1 + length ts], taken := taken ?w @ ts\<rparr>)" by auto
  have "ts = [7]" using ts by (simp add: race_def race_pool_def)
  then have "?w\<lparr>pw_pool := race_pool [] 0 True 1 [7], workers := (workers ?w)[1 := race_sched],
      live := (live ?w)[1 := live ?w ! 1 + length ts], taken := taken ?w @ ts\<rparr> = ?v"
    by (simp add: race_def race_pool_def)
  with run show ?thesis by simp
qed

lemma main_parks:
  assumes "i < length (workers w)" and "i < length (mains w)" and "mains w ! i = Mf_start" and "drains w ! i = Dr_idle" and "shutdown_mtx w = None"
    and "\<not> worker_pred (pw_pool w)"
  shows "(pool_step n cpl f)\<^sup>*\<^sup>* w (w\<lparr>mains := (mains w)[i := Mf_parked], shutdown_mtx := None\<rparr>)"
proof -
  have "pool_step n cpl f w (main_lock i w)" using assms by (intro ps_main_lock) auto
  moreover have "pool_step n cpl f (main_lock i w) (main_check i (main_lock i w))"
    using assms by (intro ps_main_check) (simp_all add: main_lock_def)
  moreover have "pool_step n cpl f (main_check i (main_lock i w)) (main_park i (main_check i (main_lock i w)))"
    using assms by (intro ps_main_park) (simp_all add: main_lock_def main_check_def)
  moreover have "main_park i (main_check i (main_lock i w)) = w\<lparr>mains := (mains w)[i := Mf_parked], shutdown_mtx := None\<rparr>"
    using assms by (simp add: main_park_def main_lock_def main_check_def)
  ultimately show ?thesis by (metis rtranclp.rtrancl_into_rtrancl rtranclp.rtrancl_refl)
qed

text \<open>Both main fibers park, a task is posted, and worker \<open>1\<close> launches it.\<close>

lemma race_launch: "race_step\<^sup>*\<^sup>* (start_world 2) (race (race_pool [] 0 True 1 [7]) 0 0 race_sched Mf_parked Mf_parked 1 None St_idle)"
proof -
  let ?w = "(start_world 2)\<lparr>mains := [Mf_parked, Mf_start], shutdown_mtx := None\<rparr>"
  let ?v = "(start_world 2)\<lparr>mains := [Mf_parked, Mf_parked], shutdown_mtx := None\<rparr>"
  have "race_step\<^sup>*\<^sup>* (start_world 2) ?w"
    using main_parks [of 0 "start_world 2" 8 no_complete "\<lambda>_. pool_fds"] by (simp add: start_world_def worker_pred_def numeral_2_eq_2)
  also have "race_step\<^sup>*\<^sup>* ?w ?v"
    using main_parks [of 1 ?w 8 no_complete "\<lambda>_. pool_fds"] by (simp add: start_world_def worker_pred_def numeral_2_eq_2)
  also have "race_step ?v (race (race_pool [Some 7] 0 True 0 []) 1 0 fresh_sched Mf_parked Mf_parked 0 None St_idle)"
    using ps_push [of 8 no_complete "\<lambda>_. pool_fds" ?v "Some 7"]
    by (simp add: post_push_def start_world_def race_def race_pool_def numeral_2_eq_2)
  also have "race_step (race (race_pool [Some 7] 0 True 0 []) 1 0 fresh_sched Mf_parked Mf_parked 0 None St_idle)
      (race (race_pool [Some 7] 1 True 0 []) 0 0 fresh_sched Mf_parked Mf_parked 0 None St_idle)"
    using ps_write [of "race (race_pool [Some 7] 0 True 0 []) 1 0 fresh_sched Mf_parked Mf_parked 0 None St_idle" 8 no_complete "\<lambda>_. pool_fds"]
    by (simp add: post_write_def race_def race_pool_def)
  also note race_read
  also note race_take
  finally show ?thesis .
qed

text \<open>The pool is stopped while the task runs; both main fibers are woken.\<close>

lemma race_stop:
  "race_step\<^sup>*\<^sup>* (race (race_pool [] 0 True 1 [7]) 0 0 race_sched Mf_parked Mf_parked 1 None St_idle)
     (race (race_pool [] 0 False 1 [7]) 0 0 race_sched Mf_woken Mf_woken 1 None St_done)"
proof -
  let ?w = "race (race_pool [] 0 True 1 [7]) 0 0 race_sched Mf_parked Mf_parked 1 None St_idle"
  have "race_step\<^sup>*\<^sup>* ?w ?w" by simp
  also have "race_step ?w (stop_request ?w)" by (rule ps_stop_request) (simp add: race_def)
  also have "race_step (stop_request ?w) (stop_lock (stop_request ?w))" by (rule ps_stop_lock) (simp_all add: race_def stop_request_def)
  also have "race_step (stop_lock (stop_request ?w)) (stop_store (stop_lock (stop_request ?w)))"
    by (rule ps_stop_store) (simp add: stop_lock_def)
  also have "race_step (stop_store (stop_lock (stop_request ?w))) (stop_notify (stop_store (stop_lock (stop_request ?w))))"
    by (rule ps_stop_notify) (simp add: stop_store_def)
  finally have "race_step\<^sup>*\<^sup>* ?w (stop_notify (stop_store (stop_lock (stop_request ?w))))" .
  moreover have "stop_notify (stop_store (stop_lock (stop_request ?w))) = race (race_pool [] 0 False 1 [7]) 0 0 race_sched Mf_woken Mf_woken 1 None St_done"
    by (simp add: stop_notify_def stop_store_def stop_lock_def stop_request_def notify_all_def race_def race_pool_def wake_def
        fire_pool_stop_idle fresh_sched_def race_sched_def)
  ultimately show ?thesis by simp
qed

text \<open>
  Worker \<open>0\<close> evaluates the predicate; then the task ends on worker \<open>1\<close>, whose notification
  finds nobody parked; then worker \<open>0\<close> parks. Worker \<open>1\<close> leaves.
\<close>

lemma race_lost:
  "race_step\<^sup>*\<^sup>* (race (race_pool [] 0 False 1 [7]) 0 0 race_sched Mf_woken Mf_woken 1 None St_done)
     (race (race_pool [] 0 False 0 [7]) 0 0 race_sched Mf_parked Mf_exited 0 None St_done)"
proof -
  let ?p1 = "race_pool [] 0 False 1 [7]" and ?p0 = "race_pool [] 0 False 0 [7]"
  note ev = race_def race_pool_def
  have "race_step\<^sup>*\<^sup>* (race ?p1 0 0 race_sched Mf_woken Mf_woken 1 None St_done) (race ?p1 0 0 race_sched Mf_woken Mf_woken 1 None St_done)" by simp
  also have "race_step \<dots> (race ?p1 0 0 race_sched Mf_check Mf_woken 1 (Some (Main 0)) St_done)"
    using ps_main_lock [of 0 "race ?p1 0 0 race_sched Mf_woken Mf_woken 1 None St_done" 8 no_complete "\<lambda>_. pool_fds"] by (simp add: ev main_lock_def)
  also have "race_step \<dots> (race ?p1 0 0 race_sched Mf_checked Mf_woken 1 (Some (Main 0)) St_done)"
    using ps_main_check [of 0 "race ?p1 0 0 race_sched Mf_check Mf_woken 1 (Some (Main 0)) St_done" 8 no_complete "\<lambda>_. pool_fds"]
    by (simp add: ev main_check_def worker_pred_def)
  also have "race_step \<dots> (race ?p0 0 1 race_sched Mf_checked Mf_woken 0 (Some (Main 0)) St_done)"
    using ps_finish [of 1 "race ?p1 0 0 race_sched Mf_checked Mf_woken 1 (Some (Main 0)) St_done" 8 no_complete "\<lambda>_. pool_fds"]
    by (simp add: ev finish_fiber_def main_away_def Let_def)
  also have "race_step \<dots> (race ?p0 0 0 race_sched Mf_checked Mf_woken 0 (Some (Main 0)) St_done)"
    using ps_finish_notify [of "race ?p0 0 1 race_sched Mf_checked Mf_woken 0 (Some (Main 0)) St_done" 8 no_complete "\<lambda>_. pool_fds"]
    by (simp add: ev finish_notify_def notify_all_def wake_def)
  also have "race_step \<dots> (race ?p0 0 0 race_sched Mf_parked Mf_woken 0 None St_done)"
    using ps_main_park [of 0 "race ?p0 0 0 race_sched Mf_checked Mf_woken 0 (Some (Main 0)) St_done" 8 no_complete "\<lambda>_. pool_fds"]
    by (simp add: ev main_park_def)
  also have "race_step \<dots> (race ?p0 0 0 race_sched Mf_parked Mf_check 0 (Some (Main 1)) St_done)"
    using ps_main_lock [of 1 "race ?p0 0 0 race_sched Mf_parked Mf_woken 0 None St_done" 8 no_complete "\<lambda>_. pool_fds"] by (simp add: ev main_lock_def)
  also have "race_step \<dots> (race ?p0 0 0 race_sched Mf_parked Mf_exited 0 None St_done)"
    using ps_main_check [of 1 "race ?p0 0 0 race_sched Mf_parked Mf_check 0 (Some (Main 1)) St_done" 8 no_complete "\<lambda>_. pool_fds"]
    by (simp add: ev main_check_def worker_pred_def)
  finally show ?thesis .
qed

text \<open>
  A wake-up can be lost. With two workers there is a run in which the pool is stopped, its
  only task has ended, nothing is in flight and no notification is pending, one worker has
  left, and the other is parked and stays parked in every continuation: the decrement of
  \<open>in_flight_\<close> and its \<open>notify_all\<close> do not take the mutex, so they can fall between the
  evaluation of the predicate and parking. Joining that worker never returns.
\<close>

lemma pool_lost_wakeup:
  "\<exists>w. race_step\<^sup>*\<^sup>* (start_world 2) w \<and> stopping w = St_done \<and> tasks (posted w) = [7] \<and> launched (pw_pool w) = [7]
     \<and> in_flight (pw_pool w) = 0 \<and> notifiers w = 0 \<and> live w = [0, 0] \<and> mains w = [Mf_parked, Mf_exited]
     \<and> (\<forall>w'. race_step\<^sup>*\<^sup>* w w' \<longrightarrow> mains w' ! 0 = Mf_parked)"
proof -
  let ?w = "race (race_pool [] 0 False 0 [7]) 0 0 race_sched Mf_parked Mf_exited 0 None St_done"
  have run: "race_step\<^sup>*\<^sup>* (start_world 2) ?w" using race_launch race_stop race_lost by (meson rtranclp_trans)
  have "fiber_pool_ctor 5 0 2 fresh_sched = Ret (start_world 2)" using start_world_ctor [of 2] by simp
  from run_inv [OF run _ pool_ctor_inv(1) [OF this scheduler_ctor_fresh [OF fresh_sched_ctor]]]
  have "stuck ?w" by (simp add: stuck_def race_def race_pool_def committed_def)
  then have "stuck w'" if "race_step\<^sup>*\<^sup>* ?w w'" for w' using stuck.run_keeps [OF that] by simp
  then show ?thesis using run by (intro exI [of _ ?w]) (simp add: stuck_def race_def race_pool_def)
qed

text \<open>A state in which one of two workers has left, for the exit property.\<close>

theorem pool_exit_safe_witness:
  "\<exists>w. race_step\<^sup>*\<^sup>* (start_world 2) w \<and> mains w ! 1 = Mf_exited \<and> live w ! 1 = 0 \<and> \<not> running (pw_pool w)
     \<and> in_flight (pw_pool w) = sum_list (live w) \<and> launched (pw_pool w) = [7]"
proof -
  let ?w = "race (race_pool [] 0 False 0 [7]) 0 0 race_sched Mf_parked Mf_exited 0 None St_done"
  have run: "race_step\<^sup>*\<^sup>* (start_world 2) ?w" using race_launch race_stop race_lost by (meson rtranclp_trans)
  have "fiber_pool_ctor 5 0 2 fresh_sched = Ret (start_world 2)" using start_world_ctor [of 2] by simp
  from pool_exit_safe [OF fresh_sched_ctor _ this run]
  have "\<forall>i < length (workers ?w). mains ?w ! i = Mf_exited \<longrightarrow> live ?w ! i = 0 \<and> \<not> running (pw_pool ?w)"
    "in_flight (pw_pool ?w) = sum_list (live ?w)" by simp_all
  moreover have "1 < length (workers ?w)" "mains ?w ! 1 = Mf_exited" "launched (pw_pool ?w) = [7]" by (simp_all add: race_def race_pool_def)
  ultimately show ?thesis using run by blast
qed

end
