(* ===== verification/Worker.thy ===== *)
theory Worker
  imports Fixed_Buffer_Pool Fixed_Fd_Table Fiber_Pool
begin

text \<open>
  The options and constructors of \<open>context\<close> (\<open>include/fiberexec/context.hpp\<close>) and the life of a
  worker thread (\<open>fiber_pool::worker\<close> in \<open>src/fiber_context.cpp\<close>): the scheduler, the buffer pool
  and the descriptor table it sets up, the thread-local pointers to them, and their
  destruction. The wait in between is modelled in \<open>Fiber_Pool\<close>.

  What a thread needs from outside is the record \<open>thread_env\<close>: the Boost channels of the two free
  lists, the answers of the two kernel registrations and the address of the storage. An
  exception that leaves the function of a \<open>std::thread\<close> terminates the program.
\<close>

subsection \<open>Options\<close>

record context_options =
  thread_count :: u32
  stack_size :: nat
  fixed_buffer_size :: nat
  fixed_buffer_count :: nat
  registered_fd_capacity :: nat

definition default_stack_size :: nat where
  "default_stack_size = 128 * 1024"

definition default_options :: "u32 \<Rightarrow> context_options" where
  "default_options hardware_concurrency = \<lparr>thread_count = hardware_concurrency, stack_size = default_stack_size,
     fixed_buffer_size = 0, fixed_buffer_count = 0, registered_fd_capacity = 0\<rparr>"

definition context_ctor :: "int \<Rightarrow> int \<Rightarrow> context_options \<Rightarrow> ('h, 't) sched \<Rightarrow> ('h, 't) pool_world outcome" where
  "context_ctor eventfd errno opts s0 = fiber_pool_ctor eventfd errno (thread_count opts) s0"

definition context_threads_ctor ::
  "u32 \<Rightarrow> int \<Rightarrow> int \<Rightarrow> u32 \<Rightarrow> nat \<Rightarrow> ('h, 't) sched \<Rightarrow> ('h, 't) pool_world outcome" where
  "context_threads_ctor hardware_concurrency eventfd errno tc ss =
     context_ctor eventfd errno ((default_options hardware_concurrency)\<lparr>thread_count := tc, stack_size := ss\<rparr>)"

subsection \<open>The thread\<close>

record ('c, 'd) thread_env =
  te_buf_channel :: "('c, u16) boost_channel"
  te_fd_channel :: "('d, u32) boost_channel"
  te_reg_buffers :: "span list \<Rightarrow> u32 \<Rightarrow> int"
  te_reg_files :: "int list \<Rightarrow> u32 \<Rightarrow> int"
  te_base :: nat

text \<open>
  \<open>tl_ring\<close> and \<open>tl_scheduler\<close> are set and cleared together; the scheduler they point to is there
  exactly as long. The optionals keep, after the destruction of their object, what the kernel
  still holds of it.
\<close>

record ('c, 'd, 'h, 't) worker_thread =
  tl_ring :: "('h, 't) sched option"
  fbp :: "'c fixed_buffer_pool option"
  fdt :: "'d fixed_fd_table option"
  tl_fixed_buffer_pool :: bool
  tl_fixed_fd_table :: bool

definition current_fixed_buffer_pool :: "('c, 'd, 'h, 't) worker_thread \<Rightarrow> 'c fixed_buffer_pool option" where
  "current_fixed_buffer_pool w = (if tl_fixed_buffer_pool w then fbp w else None)"

definition current_fd_table :: "('c, 'd, 'h, 't) worker_thread \<Rightarrow> 'd fixed_fd_table option" where
  "current_fd_table w = (if tl_fixed_fd_table w then fdt w else None)"

definition setup_buffers ::
  "('c, 'd) thread_env \<Rightarrow> context_options \<Rightarrow> ('c, 'd, 'h, 't) worker_thread \<Rightarrow> ('c, 'd, 'h, 't) worker_thread outcome" where
  "setup_buffers env opts w =
     (if 0 < fixed_buffer_size opts \<and> 0 < fixed_buffer_count opts
      then bind_outcome (fixed_buffer_pool_ctor (te_buf_channel env) (te_reg_buffers env) (tl_ring w \<noteq> None) (te_base env)
          (fixed_buffer_size opts) (fixed_buffer_count opts)) (\<lambda>p.
        Ret (w\<lparr>fbp := Some p, tl_fixed_buffer_pool := True\<rparr>))
      else Ret w)"

definition setup_files ::
  "('c, 'd) thread_env \<Rightarrow> context_options \<Rightarrow> ('c, 'd, 'h, 't) worker_thread \<Rightarrow> ('c, 'd, 'h, 't) worker_thread outcome" where
  "setup_files env opts w =
     (if 0 < registered_fd_capacity opts
      then bind_outcome (fixed_fd_table_ctor (te_fd_channel env) (te_reg_files env) (tl_ring w \<noteq> None)
          (registered_fd_capacity opts)) (\<lambda>t.
        Ret (w\<lparr>fdt := Some t, tl_fixed_fd_table := True\<rparr>))
      else Ret w)"

text \<open>\<open>worker()\<close> up to its wait. \<open>sc\<close> is the construction of the scheduler.\<close>

definition worker_begin ::
  "('c, 'd) thread_env \<Rightarrow> ('h, 't) sched outcome \<Rightarrow> context_options \<Rightarrow> ('c, 'd, 'h, 't) worker_thread outcome" where
  "worker_begin env sc opts =
     bind_outcome sc (\<lambda>s.
       bind_outcome (setup_buffers env opts
         \<lparr>tl_ring = Some s, fbp = None, fdt = None, tl_fixed_buffer_pool = False, tl_fixed_fd_table = False\<rparr>)
         (setup_files env opts))"

text \<open>The thread function is called by \<open>std::thread\<close>.\<close>

fun thread_function :: "'a outcome \<Rightarrow> 'a outcome" where
  "thread_function (Throw _) = Undefined Terminate"
| "thread_function r = r"

text \<open>Unregistering uses the ring.\<close>

definition destroy_files ::
  "('c, 'd) thread_env \<Rightarrow> ('c, 'd, 'h, 't) worker_thread \<Rightarrow> ('c, 'd, 'h, 't) worker_thread outcome" where
  "destroy_files env w =
     (case fdt w of
        None \<Rightarrow> Ret w
      | Some t \<Rightarrow> if ft_ring t \<and> tl_ring w = None then Undefined Dangling_handler
          else Ret (w\<lparr>fdt := Some (fixed_fd_table_dtor (te_fd_channel env) t)\<rparr>))"

definition destroy_buffers ::
  "('c, 'd) thread_env \<Rightarrow> ('c, 'd, 'h, 't) worker_thread \<Rightarrow> ('c, 'd, 'h, 't) worker_thread outcome" where
  "destroy_buffers env w =
     (case fbp w of
        None \<Rightarrow> Ret w
      | Some p \<Rightarrow> if fb_ring p \<and> tl_ring w = None then Undefined Dangling_handler
          else Ret (w\<lparr>fbp := Some (fixed_buffer_pool_dtor (te_buf_channel env) p)\<rparr>))"

text \<open>\<open>worker()\<close> after its wait: the pointers, then the locals in reverse order.\<close>

definition worker_return ::
  "('c, 'd) thread_env \<Rightarrow> ('c, 'd, 'h, 't) worker_thread \<Rightarrow> ('c, 'd, 'h, 't) worker_thread outcome" where
  "worker_return env w =
     bind_outcome (destroy_files env (w\<lparr>tl_fixed_buffer_pool := False, tl_fixed_fd_table := False\<rparr>)) (destroy_buffers env)"

definition scheduler_dtor :: "('c, 'd, 'h, 't) worker_thread \<Rightarrow> ('c, 'd, 'h, 't) worker_thread" where
  "scheduler_dtor w = w\<lparr>tl_ring := None\<rparr>"

text \<open>The end of the thread: \<open>worker()\<close> returns, then the thread-local scheduler is destroyed.\<close>

definition thread_end ::
  "('c, 'd) thread_env \<Rightarrow> ('c, 'd, 'h, 't) worker_thread \<Rightarrow> ('c, 'd, 'h, 't) worker_thread outcome" where
  "thread_end env w = map_outcome_state scheduler_dtor (worker_return env w)"

subsection \<open>Set-up and release\<close>

definition released :: "('c, 'd) thread_env \<Rightarrow> ('c, 'd, 'h, 't) worker_thread \<Rightarrow> bool" where
  "released env w \<longleftrightarrow> tl_ring w = None \<and> current_fixed_buffer_pool w = None \<and> current_fd_table w = None
     \<and> (\<forall>p. fbp w = Some p \<longrightarrow> registered p = [] \<and> channel_is_closed (te_buf_channel env) (free_list p))
     \<and> (\<forall>t. fdt w = Some t \<longrightarrow> kfiles t = Map.empty \<and> channel_is_closed (te_fd_channel env) (ft_free t))"

context fd_channel
begin

lemma ft_reach_ring:
  assumes "ft_reach bc upd t n w" and "ft_ok view (ft_start t)"
    and "partitioned (ft_ids view (ft_start t)) (ft_own view (ft_start t))"
    and "card (ft_ids view (ft_start t)) = capacity t"
  shows "ft_ring (fd_table w) = ft_ring t"
  using assms(1)
proof (induction rule: ft_reach.induct)
  case fr_start
  then show ?case by (simp add: ft_start_def)
next
  case (fr_step n w w')
  note inv = ft_reach_inv [OF fr_step.hyps(1) assms(2-4)]
  from ft_step_effect [OF _ _ fr_step.hyps(2) [unfolded ft_cstep_def]] inv have "ft_effect view w (Ret (w', None))"
    by (auto simp: ft_loses_def)
  then show ?case using fr_step.IH by (auto simp: ft_effect_def)
next
  case (fr_fail n w a fd w' e)
  note inv = ft_reach_inv [OF fr_fail.hyps(1) assms(2-4)]
  from ft_acquire_effect [of w a fd] inv fr_fail.hyps(2,3) have "ft_loses view w (Ret (w', Some e))"
    by (auto simp: ft_effect_def)
  then show ?case using fr_fail.IH by (auto simp: ft_loses_def)
qed

end

definition buffers_on :: "context_options \<Rightarrow> bool" where
  "buffers_on opts \<longleftrightarrow> 0 < fixed_buffer_size opts \<and> 0 < fixed_buffer_count opts"

definition buffers_refused :: "('c, 'd) thread_env \<Rightarrow> context_options \<Rightarrow> bool" where
  "buffers_refused env opts \<longleftrightarrow> buffers_on opts \<and>
     (let n = max (bit_ceil (fixed_buffer_count opts)) 2
      in te_reg_buffers env (fbp_slots (te_base env) (fixed_buffer_size opts) n) (word_of_nat n) < 0)"

definition files_refused :: "('c, 'd) thread_env \<Rightarrow> context_options \<Rightarrow> bool" where
  "files_refused env opts \<longleftrightarrow> 0 < registered_fd_capacity opts \<and>
     te_reg_files env (replicate (registered_fd_capacity opts) (- 1)) (word_of_nat (registered_fd_capacity opts)) < 0"

lemma setup_buffers_eval:
  assumes "boost_buffered_channel (te_buf_channel env) items ring_size" and "fixed_buffer_count opts \<le> 2 ^ 15"
    and "fixed_buffer_size opts * max (bit_ceil (fixed_buffer_count opts)) 2 \<le> vector_max_size" and "tl_ring w \<noteq> None"
  shows "if buffers_refused env opts then \<exists>e. setup_buffers env opts w = Throw e
    else if buffers_on opts then \<exists>p. setup_buffers env opts w = Ret (w\<lparr>fbp := Some p, tl_fixed_buffer_pool := True\<rparr>) \<and> fb_ring p
      \<and> fixed_buffer_pool_ctor (te_buf_channel env) (te_reg_buffers env) True (te_base env) (fixed_buffer_size opts) (fixed_buffer_count opts) = Ret p
    else setup_buffers env opts w = Ret w"
proof -
  have "fixed_buffer_count opts \<le> 2 ^ 16" using assms(2) by simp
  from ctor_eval [OF assms(1) this refl assms(3), of "te_reg_buffers env" True "te_base env"] show ?thesis
    using assms(4) by (auto simp: setup_buffers_def buffers_refused_def buffers_on_def Let_def)
qed

lemma setup_files_eval:
  assumes "boost_buffered_channel (te_fd_channel env) items ring_size" and "registered_fd_capacity opts < 2 ^ 32" and "tl_ring w \<noteq> None"
  shows "if files_refused env opts then \<exists>e. setup_files env opts w = Throw e
    else if 0 < registered_fd_capacity opts then \<exists>t. setup_files env opts w = Ret (w\<lparr>fdt := Some t, tl_fixed_fd_table := True\<rparr>) \<and> ft_ring t
      \<and> fixed_fd_table_ctor (te_fd_channel env) (te_reg_files env) True (registered_fd_capacity opts) = Ret t
    else setup_files env opts w = Ret w"
proof (cases "0 < registered_fd_capacity opts")
  case True
  from ft_ctor_eval [OF assms(1) True assms(2), of "te_reg_files env" True] show ?thesis
    using assms(3) True by (auto simp: setup_files_def files_refused_def)
qed (simp add: setup_files_def files_refused_def)

text \<open>Destroying the locals of a thread whose ring is alive releases everything.\<close>

lemma thread_end_releases:
  assumes "boost_buffered_channel (te_buf_channel env) items ring_size"
    and "boost_buffered_channel (te_fd_channel env) items' ring_size'" and "tl_ring w \<noteq> None"
    and "\<forall>p. fbp w = Some p \<longrightarrow> fb_ring p" and "\<forall>t. fdt w = Some t \<longrightarrow> ft_ring t"
  shows "\<exists>w'. thread_end env w = Ret w' \<and> released env w'"
  using assms(3-5) boost_buffered_channel.close_closed [OF assms(1)] boost_buffered_channel.close_closed [OF assms(2)]
  by (cases "fbp w"; cases "fdt w") (simp_all add: thread_end_def worker_return_def destroy_files_def destroy_buffers_def scheduler_dtor_def released_def
      current_fixed_buffer_pool_def current_fd_table_def fixed_fd_table_dtor_def fixed_buffer_pool_dtor_def Let_def
      channel_is_closed_def channel_close_def fun_eq_iff)

text \<open>What the fibers of a thread do with its pool and its table between set-up and release.\<close>

definition thread_uses ::
  "('c, 'd) thread_env \<Rightarrow> files_update \<Rightarrow> ('c, 'd, 'h, 't) worker_thread \<Rightarrow> 'c fb_world \<Rightarrow> nat \<Rightarrow> 'd fd_world \<Rightarrow> bool" where
  "thread_uses env upd w wb k wt \<longleftrightarrow> (\<forall>p. fbp w = Some p \<longrightarrow> (fb_cstep (te_buf_channel env))\<^sup>*\<^sup>* (fb_start p) wb)
     \<and> (\<forall>t. fdt w = Some t \<longrightarrow> ft_reach (te_fd_channel env) upd t k wt)"

definition after_use ::
  "'c fb_world \<Rightarrow> 'd fd_world \<Rightarrow> ('c, 'd, 'h, 't) worker_thread \<Rightarrow> ('c, 'd, 'h, 't) worker_thread" where
  "after_use wb wt w = w\<lparr>fbp := map_option (\<lambda>_. fb_the_pool wb) (fbp w), fdt := map_option (\<lambda>_. fd_table wt) (fdt w)\<rparr>"

lemma use_keeps_pool_ring:
  assumes "boost_buffered_channel bc items ring_size" and "bcnt \<le> 2 ^ 15"
    and "fixed_buffer_pool_ctor bc reg has_ring base bsz bcnt = Ret p" and "fb_ring p" and "(fb_cstep bc)\<^sup>*\<^sup>* (fb_start p) w"
  shows "fb_ring (fb_the_pool w)"
  using fb_run_facts(3) [OF assms(1-3,5)] assms(4) by auto

lemma use_keeps_table_ring:
  assumes "boost_buffered_channel bc items ring_size" and "clearing_succeeds upd" and "0 < cap" and "cap < 2 ^ 32"
    and "fixed_fd_table_ctor bc reg has_ring cap = Ret t" and "ft_ring t" and "ft_reach bc upd t k w"
  shows "ft_ring (fd_table w)"
  using fd_channel.ft_reach_ring [OF fd_channel_of_boost [OF assms(1,2)] assms(7) ft_ctor_start(1-3) [OF assms(1,3-5)]] assms(6)
  by simp

subsection \<open>The life of a worker thread\<close>

definition pool_set_up :: "('c, 'd) thread_env \<Rightarrow> context_options \<Rightarrow> ('c, 'd, 'h, 't) worker_thread \<Rightarrow> bool" where
  "pool_set_up env opts w \<longleftrightarrow> tl_ring w \<noteq> None \<and> tl_fixed_buffer_pool w = buffers_on opts
     \<and> (if buffers_on opts then \<exists>p. fbp w = Some p \<and> fb_ring p \<and> fixed_buffer_pool_ctor (te_buf_channel env) (te_reg_buffers env) True
          (te_base env) (fixed_buffer_size opts) (fixed_buffer_count opts) = Ret p else fbp w = None)"

definition table_set_up :: "('c, 'd) thread_env \<Rightarrow> context_options \<Rightarrow> ('c, 'd, 'h, 't) worker_thread \<Rightarrow> bool" where
  "table_set_up env opts w \<longleftrightarrow> tl_fixed_fd_table w = (0 < registered_fd_capacity opts)
     \<and> (if 0 < registered_fd_capacity opts then \<exists>t. fdt w = Some t \<and> ft_ring t \<and>
          fixed_fd_table_ctor (te_fd_channel env) (te_reg_files env) True (registered_fd_capacity opts) = Ret t else fdt w = None)"

lemma worker_begin_eval:
  fixes env :: "('c, 'd) thread_env" and s :: "('h, 't) sched"
  assumes "boost_buffered_channel (te_buf_channel env) items ring_size"
    and "boost_buffered_channel (te_fd_channel env) items' ring_size'"
    and "fixed_buffer_count opts \<le> 2 ^ 15" and "registered_fd_capacity opts < 2 ^ 32"
    and "fixed_buffer_size opts * max (bit_ceil (fixed_buffer_count opts)) 2 \<le> vector_max_size"
  shows "if buffers_refused env opts \<or> files_refused env opts then \<exists>e. worker_begin env (Ret s) opts = Throw e
    else \<exists>w. worker_begin env (Ret s) opts = Ret w \<and> pool_set_up env opts w \<and> table_set_up env opts w"
proof -
  let ?w0 = "\<lparr>tl_ring = Some s, fbp = None, fdt = None, tl_fixed_buffer_pool = False, tl_fixed_fd_table = False\<rparr>"
  have b: "if buffers_refused env opts then \<exists>e. setup_buffers env opts ?w0 = Throw e
    else \<exists>w. setup_buffers env opts ?w0 = Ret w \<and> pool_set_up env opts w \<and> fdt w = None \<and> \<not> tl_fixed_fd_table w"
    using setup_buffers_eval [OF assms(1,3,5), of ?w0] by (simp add: pool_set_up_def split: if_splits) force+
  have f: "if files_refused env opts then \<exists>e. setup_files env opts w = Throw e
    else \<exists>w'. setup_files env opts w = Ret w' \<and> pool_set_up env opts w' \<and> table_set_up env opts w'"
    if "pool_set_up env opts w" "fdt w = None" "\<not> tl_fixed_fd_table w" for w :: "('c, 'd, 'h, 't) worker_thread"
    using setup_files_eval [OF assms(2,4), of w] that by (simp add: pool_set_up_def table_set_up_def split: if_splits) force+
  show ?thesis using b f by (cases "buffers_refused env opts"; cases "files_refused env opts") (auto simp: worker_begin_def)
qed

text \<open>
  C22. A worker gives back what it sets up. Take options for at most \<open>2 ^ 15\<close> buffers that fit a
  vector and fewer than \<open>2 ^ 32\<close> descriptors, and a scheduler that was constructed. The thread
  has a buffer pool exactly when both buffer options are non-zero and a descriptor table
  exactly when its capacity is, visible through the thread-local pointers. Whatever its
  fibers then do with handles of both, the end of the thread unregisters everything while the
  ring is alive, closes the free lists and clears the pointers. When the kernel refuses a
  registration the exception leaves the thread function and terminates the program.
\<close>
theorem worker_lifecycle:
  assumes "boost_buffered_channel (te_buf_channel env) items ring_size"
    and "boost_buffered_channel (te_fd_channel env) items' ring_size'" and "clearing_succeeds upd"
    and "fixed_buffer_count opts \<le> 2 ^ 15" and "registered_fd_capacity opts < 2 ^ 32"
    and "fixed_buffer_size opts * max (bit_ceil (fixed_buffer_count opts)) 2 \<le> vector_max_size"
  shows "case thread_function (worker_begin env (Ret s) opts) of
      Ret w \<Rightarrow> \<not> buffers_refused env opts \<and> \<not> files_refused env opts
        \<and> (current_fixed_buffer_pool w \<noteq> None \<longleftrightarrow> 0 < fixed_buffer_size opts \<and> 0 < fixed_buffer_count opts)
        \<and> (current_fd_table w \<noteq> None \<longleftrightarrow> 0 < registered_fd_capacity opts)
        \<and> (\<forall>wb k wt. thread_uses env upd w wb k wt \<longrightarrow>
             (\<exists>w'. thread_end env (after_use wb wt w) = Ret w' \<and> released env w'))
    | Undefined u \<Rightarrow> u = Terminate \<and> (buffers_refused env opts \<or> files_refused env opts)
    | _ \<Rightarrow> False"
proof (cases "buffers_refused env opts \<or> files_refused env opts")
  case True
  then show ?thesis using worker_begin_eval [OF assms(1,2,4-6), of s] by auto
next
  case False
  then obtain w where w: "worker_begin env (Ret s) opts = Ret w" and b: "pool_set_up env opts w" and f: "table_set_up env opts w"
    using worker_begin_eval [OF assms(1,2,4-6), of s] by auto
  have "current_fixed_buffer_pool w \<noteq> None \<longleftrightarrow> 0 < fixed_buffer_size opts \<and> 0 < fixed_buffer_count opts"
    using b by (auto simp: current_fixed_buffer_pool_def pool_set_up_def buffers_on_def split: if_splits)
  moreover have "current_fd_table w \<noteq> None \<longleftrightarrow> 0 < registered_fd_capacity opts"
    using f by (auto simp: current_fd_table_def table_set_up_def split: if_splits)
  moreover have "\<exists>w'. thread_end env (after_use wb wt w) = Ret w' \<and> released env w'" if u: "thread_uses env upd w wb k wt" for wb k wt
  proof (rule thread_end_releases [OF assms(1,2)])
    show "tl_ring (after_use wb wt w) \<noteq> None" using b by (simp add: after_use_def pool_set_up_def)
    show "\<forall>p. fbp (after_use wb wt w) = Some p \<longrightarrow> fb_ring p"
      using b u use_keeps_pool_ring [OF assms(1,4)] by (auto simp: after_use_def thread_uses_def pool_set_up_def split: if_splits)
    show "\<forall>t. fdt (after_use wb wt w) = Some t \<longrightarrow> ft_ring t"
      using f u use_keeps_table_ring [OF assms(2,3) _ assms(5)] by (auto simp: after_use_def thread_uses_def table_set_up_def split: if_splits)
  qed
  ultimately show ?thesis using False w by simp
qed

definition buffers_env :: "(u16 ref_chan, u32 ref_chan) thread_env" where
  "buffers_env = \<lparr>te_buf_channel = ref_boost, te_fd_channel = ref_boost, te_reg_buffers = (\<lambda>_ _. 0), te_reg_files = (\<lambda>_ _. 0), te_base = 4096\<rparr>"

theorem worker_lifecycle_witness:
  "\<exists>w. thread_function (worker_begin buffers_env (Ret fresh_sched)
      ((default_options 4)\<lparr>fixed_buffer_size := 64, fixed_buffer_count := 8\<rparr>)) = Ret w
    \<and> current_fixed_buffer_pool w \<noteq> None \<and> current_fd_table w = None"
proof -
  let ?o = "(default_options 4)\<lparr>fixed_buffer_size := 64, fixed_buffer_count := 8\<rparr>"
  have "bit_ceil 8 \<le> 2 ^ 3" by (rule bit_ceil_least) simp
  then have v: "64 * max (bit_ceil 8) 2 \<le> vector_max_size" by (simp add: vector_max_size_def)
  have o: "fixed_buffer_size ?o = 64" "fixed_buffer_count ?o = 8" "registered_fd_capacity ?o = 0"
    by (simp_all add: default_options_def)
  have c: "te_buf_channel buffers_env = ref_boost" "te_fd_channel buffers_env = ref_boost" by (simp_all add: buffers_env_def)
  have u: "clearing_succeeds ref_update" by (simp add: ref_update_def clearing_succeeds_def)
  have "\<not> buffers_refused buffers_env ?o" "\<not> files_refused buffers_env ?o"
    by (simp_all add: buffers_refused_def files_refused_def buffers_env_def o Let_def)
  then show ?thesis
    using worker_lifecycle [of buffers_env rc_items rc_size rc_items rc_size ref_update ?o fresh_sched, unfolded c o,
        OF ref_bc.boost_buffered_channel_axioms ref_bc.boost_buffered_channel_axioms u _ _ v]
    by (auto split: outcome.splits)
qed

end
