(* ===== verification/Async_IO.thy ===== *)
theory Async_IO
  imports Submit Fixed_Buffer_Pool
begin

text \<open>
  \<open>src/async_io.cpp\<close>, \<open>include/fiberexec/detail/async_helpers.hpp\<close> and \<open>async_send_zc\<close> of
  \<open>src/fixed_buffer_pool.cpp\<close>: the I/O operations fibers call.

  Each operation is modelled by its part up to the suspension (named as in the source; it
  returns the exception thrown there, if any) and by the part that turns the completion's
  result into a return value or an exception (\<open>..._result\<close>). \<open>th\<close> is the scheduler of the
  calling thread, \<open>None\<close> outside a worker.
\<close>

subsection \<open>Helpers\<close>

definition begin_async_op :: "string \<Rightarrow> stop_token \<Rightarrow> ('h, 't) sched option \<Rightarrow> exn option" where
  "begin_async_op caller st th =
     (case th of
        None \<Rightarrow> Some (Runtime_error (caller @ '' called outside of a fiberexec fiber''))
      | Some _ \<Rightarrow> if stop_requested st then Some (System_error ECANCELED caller) else None)"

definition dispatch ::
  "'h op_env \<Rightarrow> nat option \<Rightarrow> int option \<Rightarrow> ('h, 't) sched \<Rightarrow> (('h, 't) sched \<times> exn option) outcome" where
  "dispatch e sqe timeout s =
     (case timeout of Some t \<Rightarrow> submit_and_wait_with_timeout e sqe t s | None \<Rightarrow> submit_and_wait e sqe s)"

text \<open>
  The shape the single-entry operations share: check, acquire an entry, prepare it (an
  unchecked null pointer is dereferenced here), dispatch.
\<close>

definition start_op ::
  "'h op_env \<Rightarrow> string \<Rightarrow> (sqe \<Rightarrow> sqe) \<Rightarrow> int option \<Rightarrow> ('h, 't) sched option \<Rightarrow>
   (('h, 't) sched option \<times> exn option) outcome" where
  "start_op e caller prep timeout th =
     (case begin_async_op caller (oe_fiber_st e) th of
        Some ex \<Rightarrow> Ret (th, Some ex)
      | None \<Rightarrow> (case th of
          None \<Rightarrow> Undefined Null_deref
        | Some s \<Rightarrow> (case io_uring_get_sqe (oe_lu e) (s_ring s) of
            (p, r1) \<Rightarrow> bind_outcome (edit_sqe p prep r1) (\<lambda>r2.
              map_outcome_state (\<lambda>(s', ex). (Some s', ex)) (dispatch e p timeout (s\<lparr>s_ring := r2\<rparr>))))))"

definition prep_fd :: "fd_ref \<Rightarrow> request \<Rightarrow> sqe \<Rightarrow> sqe" where
  "prep_fd fd rq e = e\<lparr>sqe_req := rq, sqe_flags := fixed_file_flag fd (sqe_flags e)\<rparr>"

definition prep_plain :: "request \<Rightarrow> sqe \<Rightarrow> sqe" where
  "prep_plain rq e = e\<lparr>sqe_req := rq\<rparr>"

text \<open>\<open>if (res < 0) throw std::system_error(-res, ...)\<close>, otherwise the result.\<close>

definition result_or_throw :: "string \<Rightarrow> int \<Rightarrow> int outcome" where
  "result_or_throw caller res = (if res < 0 then Throw (System_error (- res) caller) else Ret res)"

subsection \<open>Single-entry operations\<close>

type_synonym ('h, 't) op = "('h, 't) sched option \<Rightarrow> (('h, 't) sched option \<times> exn option) outcome"

definition async_read :: "'h op_env \<Rightarrow> fd_ref \<Rightarrow> span \<Rightarrow> int option \<Rightarrow> ('h, 't) op" where
  "async_read e fd buf timeout =
     start_op e ''async_read'' (prep_fd fd (Rq_read (fd_index fd) (sp_data buf) (word_of_nat (sp_size buf)) 0)) timeout"

definition async_write :: "'h op_env \<Rightarrow> fd_ref \<Rightarrow> span \<Rightarrow> int option \<Rightarrow> ('h, 't) op" where
  "async_write e fd buf timeout =
     start_op e ''async_write'' (prep_fd fd (Rq_write (fd_index fd) (sp_data buf) (word_of_nat (sp_size buf)) 0)) timeout"

definition async_accept :: "'h op_env \<Rightarrow> int \<Rightarrow> nat \<Rightarrow> nat \<Rightarrow> int option \<Rightarrow> ('h, 't) op" where
  "async_accept e fd addr addrlen timeout =
     start_op e ''async_accept'' (prep_plain (Rq_accept fd addr addrlen 0)) timeout"

definition async_openat :: "'h op_env \<Rightarrow> int \<Rightarrow> string \<Rightarrow> int \<Rightarrow> nat \<Rightarrow> int option \<Rightarrow> ('h, 't) op" where
  "async_openat e dirfd path flags mode timeout =
     start_op e ''async_openat'' (prep_plain (Rq_openat dirfd path flags mode)) timeout"

text \<open>\<open>async_close\<close> neither checks the fiber's stop token nor takes a timeout.\<close>

definition async_close :: "'h op_env \<Rightarrow> int \<Rightarrow> ('h, 't) op" where
  "async_close e fd th =
     (case th of
        None \<Rightarrow> Ret (th, Some (Runtime_error ''async_close called outside of a fiberexec fiber''))
      | Some s \<Rightarrow> (case io_uring_get_sqe (oe_lu e) (s_ring s) of
          (p, r1) \<Rightarrow> bind_outcome (edit_sqe p (prep_plain (Rq_close fd)) r1) (\<lambda>r2.
            map_outcome_state (\<lambda>(s', ex). (Some s', ex)) (submit_and_wait e p (s\<lparr>s_ring := r2\<rparr>)))))"

definition async_connect :: "'h op_env \<Rightarrow> fd_ref \<Rightarrow> nat \<Rightarrow> nat \<Rightarrow> int option \<Rightarrow> ('h, 't) op" where
  "async_connect e fd addr addrlen timeout =
     start_op e ''async_connect'' (prep_fd fd (Rq_connect (fd_index fd) addr addrlen)) timeout"

definition async_recv :: "'h op_env \<Rightarrow> fd_ref \<Rightarrow> span \<Rightarrow> int \<Rightarrow> int option \<Rightarrow> ('h, 't) op" where
  "async_recv e fd buf flags timeout =
     start_op e ''async_recv'' (prep_fd fd (Rq_recv (fd_index fd) (sp_data buf) (sp_size buf) flags)) timeout"

definition async_send :: "'h op_env \<Rightarrow> fd_ref \<Rightarrow> span \<Rightarrow> int \<Rightarrow> int option \<Rightarrow> ('h, 't) op" where
  "async_send e fd buf flags timeout =
     start_op e ''async_send'' (prep_fd fd (Rq_send (fd_index fd) (sp_data buf) (sp_size buf) flags)) timeout"

text \<open>A non-positive duration returns without a submission: \<open>Inr ()\<close> is that return.\<close>

definition async_sleep_for :: "'h op_env \<Rightarrow> int \<Rightarrow> ('h, 't) sched option \<Rightarrow>
    (('h, 't) sched option \<times> exn option + unit) outcome" where
  "async_sleep_for e duration th =
     (case begin_async_op ''async_sleep_for'' (oe_fiber_st e) th of
        Some ex \<Rightarrow> Ret (Inl (th, Some ex))
      | None \<Rightarrow> if duration \<le> 0 then Ret (Inr ())
          else map_outcome_state Inl
            (start_op e ''async_sleep_for'' (prep_plain (Rq_timeout (to_timespec duration))) None th))"

definition async_sleep_for_result :: "int \<Rightarrow> unit outcome" where
  "async_sleep_for_result res = (if res \<noteq> - ETIME then Throw (System_error (- res) ''async_sleep_for'') else Ret ())"

subsection \<open>Linked pairs\<close>

text \<open>Two entries are acquired and prepared one after the other, then submitted as a chain.\<close>

definition start_pair ::
  "'h op_env \<Rightarrow> string \<Rightarrow> (sqe \<Rightarrow> sqe) \<Rightarrow> (sqe \<Rightarrow> sqe) \<Rightarrow> ('h, 't) op" where
  "start_pair e caller prep0 prep1 th =
     (case begin_async_op caller (oe_fiber_st e) th of
        Some ex \<Rightarrow> Ret (th, Some ex)
      | None \<Rightarrow> (case th of
          None \<Rightarrow> Undefined Null_deref
        | Some s \<Rightarrow> (case io_uring_get_sqe (oe_lu e) (s_ring s) of
            (p0, r1) \<Rightarrow> bind_outcome (edit_sqe p0 prep0 r1) (\<lambda>r2.
              (case io_uring_get_sqe (oe_lu e) r2 of
                 (p1, r3) \<Rightarrow> bind_outcome (edit_sqe p1 prep1 r3) (\<lambda>r4.
                   map_outcome_state (\<lambda>(s', ex). (Some s', ex))
                     (submit_linked_and_wait e [p0, p1] 2 (s\<lparr>s_ring := r4\<rparr>))))))))"

definition async_send_recv :: "'h op_env \<Rightarrow> fd_ref \<Rightarrow> span \<Rightarrow> span \<Rightarrow> int \<Rightarrow> int \<Rightarrow> ('h, 't) op" where
  "async_send_recv e fd send_buf recv_buf send_flags recv_flags =
     start_pair e ''async_send_recv''
       (prep_fd fd (Rq_send (fd_index fd) (sp_data send_buf) (sp_size send_buf) send_flags))
       (prep_fd fd (Rq_recv (fd_index fd) (sp_data recv_buf) (sp_size recv_buf) recv_flags))"

definition async_send_recv_result :: "int \<Rightarrow> int \<Rightarrow> (int \<times> int) outcome" where
  "async_send_recv_result r0 r1 =
     (if r0 < 0 then Throw (System_error (- r0) ''async_send_recv (send)'')
      else if r1 < 0 then Throw (System_error (- r1) ''async_send_recv (recv)'')
      else Ret (r0, r1))"

definition async_write_fsync :: "'h op_env \<Rightarrow> fd_ref \<Rightarrow> span \<Rightarrow> ('h, 't) op" where
  "async_write_fsync e fd buf =
     start_pair e ''async_write_fsync''
       (prep_fd fd (Rq_write (fd_index fd) (sp_data buf) (word_of_nat (sp_size buf)) 0))
       (prep_fd fd (Rq_fsync (fd_index fd)))"

definition async_write_fsync_result :: "int \<Rightarrow> int \<Rightarrow> int outcome" where
  "async_write_fsync_result r0 r1 =
     (if r0 < 0 then Throw (System_error (- r0) ''async_write_fsync (write)'')
      else if r1 < 0 then Throw (System_error (- r1) ''async_write_fsync (fsync)'')
      else Ret r0)"

subsection \<open>Zero-copy send\<close>

text \<open>
  \<open>async_send_zc\<close> checks both the ring and the entry. The handler lives at address \<open>hd (oe_aws e)\<close>
  and \<open>mkzc\<close> makes it a handler of the scheduler; no stop callback is registered.
\<close>

definition async_send_zc ::
  "'h op_env \<Rightarrow> (send_zc_handler \<Rightarrow> 'h) \<Rightarrow> 'c fixed_buffer_pool \<Rightarrow> int \<Rightarrow> fixed_buffer \<Rightarrow> nat \<Rightarrow> int \<Rightarrow> ('h, 't) op" where
  "async_send_zc e mkzc pool fd buf nbytes flags th =
     (case th of
        None \<Rightarrow> Ret (th, Some (Runtime_error ''async_send_zc called outside of a fiberexec fiber''))
      | Some s \<Rightarrow> (case io_uring_get_sqe (oe_lu e) (s_ring s) of
          (None, r1) \<Rightarrow> Ret (Some (s\<lparr>s_ring := r1\<rparr>), Some (Runtime_error ''async_send_zc: io_uring ring full''))
        | (Some i, r1) \<Rightarrow>
            bind_outcome (fixed_buffer_data pool buf) (\<lambda>d.
            bind_outcome (edit_sqe (Some i) (\<lambda>q. set_data (hd (oe_aws e))
                (prep_plain (Rq_send_zc_fixed fd (sp_data d) nbytes flags (buf_index buf)) q)) r1) (\<lambda>r2.
              (case io_uring_submit (oe_lu e) r2 of
                 (ret, r3) \<Rightarrow> if ret < 0
                   then Ret (Some (drop_awaitables [hd (oe_aws e)] (s\<lparr>s_ring := r3\<rparr>)),
                     Some (System_error (- ret) ''io_uring_submit (async_send_zc)''))
                   else Ret (Some (s\<lparr>s_ring := r3,
                     handlers := (handlers s)(hd (oe_aws e) \<mapsto> mkzc (send_zc_new (oe_fiber e)))\<rparr>), None))))))"

subsection \<open>What the operations submit\<close>

text \<open>The entry an operation should submit, and the chain it forms with an optional timeout.\<close>

definition op_entry :: "bool \<Rightarrow> request \<Rightarrow> sqe" where
  "op_entry fixed rq = \<lparr>sqe_req = rq, sqe_flags = (if fixed then IOSQE_FIXED_FILE else 0), sqe_buf_group = 0, sqe_user_data = 0\<rparr>"

definition op_chain :: "u64 \<Rightarrow> int option \<Rightarrow> sqe \<Rightarrow> sqe list" where
  "op_chain aw timeout q =
     (case timeout of
        None \<Rightarrow> [q\<lparr>sqe_user_data := aw\<rparr>]
      | Some t \<Rightarrow> [q\<lparr>sqe_flags := sqe_flags q OR IOSQE_IO_LINK, sqe_user_data := aw\<rparr>,
                  (op_entry False (Rq_link_timeout (to_timespec t)))\<lparr>sqe_user_data := k_cancel_tag\<rparr>])"

lemma prep_entry:
  "prep_fd fd rq blank_sqe = op_entry (fd_fixed fd) rq" "prep_plain rq blank_sqe = op_entry False rq"
  by (simp_all add: prep_fd_def prep_plain_def blank_sqe_def op_entry_def fixed_file_flag_def)

text \<open>Room for two more entries.\<close>

definition has_room :: "'h op_env \<Rightarrow> ('h, 't) sched \<Rightarrow> bool" where
  "has_room e s \<longleftrightarrow> lu_sqe_available (oe_lu e) (s_ring s)
     \<and> (\<forall>x. lu_sqe_available (oe_lu e) ((s_ring s)\<lparr>sq := sq (s_ring s) @ [x]\<rparr>))"

lemma start_op_ok:
  assumes "submits (oe_lu e)" and "has_room e s" and "\<not> stop_requested (oe_fiber_st e)"
  shows "start_op e caller prep timeout (Some s) =
    Ret (Some (begin_wait e [hd (oe_aws e)]
      (submitted (sq (s_ring s) @ op_chain (hd (oe_aws e)) timeout (prep blank_sqe)) s)), None)"
proof -
  let ?s = "s\<lparr>s_ring := (s_ring s)\<lparr>sq := sq (s_ring s) @ [prep blank_sqe]\<rparr>\<rparr>"
  have get: "io_uring_get_sqe (oe_lu e) (s_ring s) = (Some (length (sq (s_ring s))), (s_ring s)\<lparr>sq := sq (s_ring s) @ [blank_sqe]\<rparr>)"
    using assms(2) by (simp add: has_room_def io_uring_get_sqe_def)
  have sq: "sq (s_ring ?s) = sq (s_ring s) @ [prep blank_sqe]" by simp
  have room: "lu_sqe_available (oe_lu e) ((s_ring ?s)\<lparr>sq := sq (s_ring s) @ [x]\<rparr>)" for x
    using assms(2) by (simp add: has_room_def)
  have "dispatch e (Some (length (sq (s_ring s)))) timeout ?s =
      Ret (begin_wait e [hd (oe_aws e)] (submitted (sq (s_ring s) @ op_chain (hd (oe_aws e)) timeout (prep blank_sqe)) s), None)"
    using submit_and_wait_ok [OF assms(1) sq] submit_and_wait_with_timeout_ok [OF assms(1) sq room]
    by (cases timeout)
      (simp_all add: dispatch_def op_chain_def set_data_def set_link_def link_timeout_sqe_def op_entry_def blank_sqe_def submitted_def)
  then show ?thesis using get assms(3) by (simp add: start_op_def begin_async_op_def)
qed

lemma async_close_ok:
  assumes "submits (oe_lu e)" and "has_room e s"
  shows "async_close e fd (Some s) = Ret (Some (begin_wait e [hd (oe_aws e)]
    (submitted (sq (s_ring s) @ [(op_entry False (Rq_close fd))\<lparr>sqe_user_data := hd (oe_aws e)\<rparr>]) s)), None)"
proof -
  have get: "io_uring_get_sqe (oe_lu e) (s_ring s) = (Some (length (sq (s_ring s))), (s_ring s)\<lparr>sq := sq (s_ring s) @ [blank_sqe]\<rparr>)"
    using assms(2) by (simp add: has_room_def io_uring_get_sqe_def)
  then show ?thesis
    using submit_and_wait_ok [OF assms(1), of "s\<lparr>s_ring := (s_ring s)\<lparr>sq := sq (s_ring s) @ [op_entry False (Rq_close fd)]\<rparr>\<rparr>"
        "sq (s_ring s)" "op_entry False (Rq_close fd)"]
    by (simp add: async_close_def set_data_def prep_entry)
qed

subsection \<open>What a waiting call has done\<close>

text \<open>
  A call that waits on the awaitables \<open>aws\<close>: the kernel has everything acquired before and
  then its own entries \<open>qs\<close>; the awaitables are live, the first with the fiber blocked on it;
  each stop callback cancels all of them, at once where the stop was requested before.
\<close>

definition op_waits :: "'h op_env \<Rightarrow> u64 list \<Rightarrow> sqe list \<Rightarrow> ('h, 't) sched \<Rightarrow> ('h, 't) sched \<Rightarrow> bool" where
  "op_waits e aws qs s s' \<longleftrightarrow>
     inflight (s_ring s') = inflight (s_ring s) @ sq (s_ring s) @ qs \<and> sq (s_ring s') = [] \<and> cq (s_ring s') = cq (s_ring s) \<and>
     (\<forall>a. handlers s' a =
        (if a \<in> set aws then Some (oe_mk e \<lparr>p_value = None, p_fiber = (if a = hd aws then Some (oe_fiber e) else None)\<rparr>)
         else handlers s a)) \<and>
     pool_cbs s' = pool_cbs s @ (if stop_requested (oe_pool_st e) then [] else [aws]) \<and>
     fiber_cbs s' = fiber_cbs s @ (if stop_possible (oe_fiber_st e) \<and> \<not> stop_requested (oe_fiber_st e) then [aws] else []) \<and>
     cancel_queue s' = cancel_queue s @ (if stop_requested (oe_pool_st e) then aws else [])
       @ (if stop_possible (oe_fiber_st e) \<and> stop_requested (oe_fiber_st e) then aws else []) \<and>
     ready s' = ready s \<and> spawned s' = spawned s"

text \<open>A stop request that comes later: the pool's source, the fiber's source.\<close>

definition stop_cancels :: "'h op_env \<Rightarrow> u64 list \<Rightarrow> ('h, 't) sched \<Rightarrow> bool" where
  "stop_cancels e aws s \<longleftrightarrow>
     (\<not> stop_requested (oe_pool_st e) \<longrightarrow> (\<exists>uds. cancel_queue (fire_pool_stop s) = cancel_queue s @ uds @ aws)) \<and>
     (stop_possible (oe_fiber_st e) \<and> \<not> stop_requested (oe_fiber_st e) \<longrightarrow>
        cancel_queue (fire_fiber_stop aws s) = cancel_queue s @ aws)"

lemma begin_wait_waits:
  assumes "aws \<noteq> []"
  shows "op_waits e aws qs s (begin_wait e aws (submitted (sq (s_ring s) @ qs) s))"
proof -
  have "hd aws \<in> set aws" using assms by simp
  then show ?thesis
    by (simp add: op_waits_def begin_wait_def register_pool_cb_def register_fiber_cb_def run_cancel_eval submitted_def fresh_promise_def
        Let_def)
qed

lemma op_waits_cancels:
  assumes "op_waits e aws qs s s'"
  shows "stop_cancels e aws s'"
proof -
  have "cancel_queue (fire_pool_stop s') = cancel_queue s' @ concat (pool_cbs s) @ aws" if "\<not> stop_requested (oe_pool_st e)"
    using assms that by (simp add: op_waits_def fire_pool_stop_eval)
  moreover have "aws \<in> set (fiber_cbs s')" if "stop_possible (oe_fiber_st e)" "\<not> stop_requested (oe_fiber_st e)"
    using assms that by (simp add: op_waits_def)
  ultimately show ?thesis by (auto simp: stop_cancels_def fire_fiber_stop_def run_cancel_eval)
qed

text \<open>The operations with a timeout, their names and the entries they stand for.\<close>

datatype io_call =
    C_read fd_ref span
  | C_write fd_ref span
  | C_accept int nat nat
  | C_openat int string int nat
  | C_connect fd_ref nat nat
  | C_recv fd_ref span int
  | C_send fd_ref span int

fun perform :: "'h op_env \<Rightarrow> int option \<Rightarrow> io_call \<Rightarrow> ('h, 't) op" where
  "perform e to (C_read fd buf) = async_read e fd buf to"
| "perform e to (C_write fd buf) = async_write e fd buf to"
| "perform e to (C_accept fd addr addrlen) = async_accept e fd addr addrlen to"
| "perform e to (C_openat fd path flags mode) = async_openat e fd path flags mode to"
| "perform e to (C_connect fd addr addrlen) = async_connect e fd addr addrlen to"
| "perform e to (C_recv fd buf flags) = async_recv e fd buf flags to"
| "perform e to (C_send fd buf flags) = async_send e fd buf flags to"

fun call_name :: "io_call \<Rightarrow> string" where
  "call_name (C_read fd buf) = ''async_read''"
| "call_name (C_write fd buf) = ''async_write''"
| "call_name (C_accept fd addr addrlen) = ''async_accept''"
| "call_name (C_openat fd path flags mode) = ''async_openat''"
| "call_name (C_connect fd addr addrlen) = ''async_connect''"
| "call_name (C_recv fd buf flags) = ''async_recv''"
| "call_name (C_send fd buf flags) = ''async_send''"

fun call_entry :: "io_call \<Rightarrow> sqe" where
  "call_entry (C_read fd buf) = op_entry (fd_fixed fd) (Rq_read (fd_index fd) (sp_data buf) (word_of_nat (sp_size buf)) 0)"
| "call_entry (C_write fd buf) = op_entry (fd_fixed fd) (Rq_write (fd_index fd) (sp_data buf) (word_of_nat (sp_size buf)) 0)"
| "call_entry (C_accept fd addr addrlen) = op_entry False (Rq_accept fd addr addrlen 0)"
| "call_entry (C_openat fd path flags mode) = op_entry False (Rq_openat fd path flags mode)"
| "call_entry (C_connect fd addr addrlen) = op_entry (fd_fixed fd) (Rq_connect (fd_index fd) addr addrlen)"
| "call_entry (C_recv fd buf flags) = op_entry (fd_fixed fd) (Rq_recv (fd_index fd) (sp_data buf) (sp_size buf) flags)"
| "call_entry (C_send fd buf flags) = op_entry (fd_fixed fd) (Rq_send (fd_index fd) (sp_data buf) (sp_size buf) flags)"

lemma perform_start: "\<exists>prep. prep blank_sqe = call_entry call \<and> perform e to call th = start_op e (call_name call) prep to th"
  by (cases call; simp only: perform.simps call_name.simps call_entry.simps; fold prep_entry;
      unfold async_read_def async_write_def async_accept_def async_openat_def async_connect_def async_recv_def async_send_def; blast)

lemma start_op_outside: "start_op e c prep to None = Ret (None, Some (Runtime_error (c @ '' called outside of a fiberexec fiber'')))"
  by (simp add: start_op_def begin_async_op_def)

lemma perform_outside: "perform e to call None = Ret (None, Some (Runtime_error (call_name call @ '' called outside of a fiberexec fiber'')))"
  using perform_start [of call e to None] by (auto simp: start_op_outside)



lemma start_pair_ok:
  assumes "submits (oe_lu e)" and "has_room e s" and "\<not> stop_requested (oe_fiber_st e)" and "oe_aws e = a0 # a1 # rest"
  shows "start_pair e caller prep0 prep1 (Some s) =
    Ret (Some (begin_wait e [a0, a1] (submitted (sq (s_ring s) @
      [set_link (set_data a0 (prep0 blank_sqe)), set_data a1 (prep1 blank_sqe)]) s)), None)"
proof -
  let ?n = "length (sq (s_ring s))"
  let ?r = "\<lambda>xs. (s_ring s)\<lparr>sq := sq (s_ring s) @ xs\<rparr>"
  have get: "io_uring_get_sqe (oe_lu e) (s_ring s) = (Some ?n, ?r [blank_sqe])"
    "io_uring_get_sqe (oe_lu e) (?r [x]) = (Some (Suc ?n), ?r [x, blank_sqe])" for x
    using assms(2) by (simp_all add: has_room_def io_uring_get_sqe_def)
  have ed: "edit_sqe (Some (Suc ?n)) f (?r [x, y]) = Ret (?r [x, f y])" for f x y
    by (simp add: edit_sqe_def nth_append list_update_append)
  let ?s = "s\<lparr>s_ring := ?r [prep0 blank_sqe, prep1 blank_sqe]\<rparr>"
  have sqes: "[Some ?n, Some (Suc ?n)] = map Some [?n..<?n + length [prep0 blank_sqe, prep1 blank_sqe]]"
    by (simp add: upt_rec)
  have sq: "sq (s_ring ?s) = sq (s_ring s) @ [prep0 blank_sqe, prep1 blank_sqe]" by simp
  have "submit_linked_and_wait e [Some ?n, Some (Suc ?n)] 2 ?s =
      Ret (begin_wait e [a0, a1] (submitted (sq (s_ring s) @
        [set_link (set_data a0 (prep0 blank_sqe)), set_data a1 (prep1 blank_sqe)]) ?s), None)"
    using submit_linked_eval [OF assms(1) sq sqes _ refl refl, of 2] assms(4) by simp
  then show ?thesis using get ed assms(3)
    by (simp add: start_pair_def begin_async_op_def submitted_def)
qed

text \<open>
  C26. Linked pairs. \<open>async_send_recv\<close> and \<open>async_write_fsync\<close> throw outside a worker and after
  the fiber's stop request, changing nothing. Otherwise they hand both entries to the kernel
  in one submission, after those acquired before: the two requests with the caller's
  arguments, the first linked to the second, each with an awaitable of its own; a later
  stop request of the pool or of the fiber queues the cancellation of both awaitables. When
  the fiber resumes, the failure of the first entry is reported before that of the second.
\<close>

theorem async_pairs_submit:
  assumes "submits (oe_lu e)" and "has_room e s" and "oe_aws e = a0 # a1 # rest"
    and "entry = (\<lambda>rq link aw. \<lparr>sqe_req = rq,
           sqe_flags = (if fd_fixed fd then IOSQE_FIXED_FILE else 0) OR (if link then IOSQE_IO_LINK else 0),
           sqe_buf_group = 0, sqe_user_data = aw\<rparr>)"
    and "outcomes = (\<lambda>op caller q0 q1.
           op None = Ret (None, Some (Runtime_error (caller @ '' called outside of a fiberexec fiber'')))
         \<and> (if stop_requested (oe_fiber_st e) then op (Some s) = Ret (Some s, Some (System_error ECANCELED caller))
            else \<exists>s'. op (Some s) = Ret (Some s', None) \<and> op_waits e [a0, a1] [entry q0 True a0, entry q1 False a1] s s'
              \<and> stop_cancels e [a0, a1] s'))"
  shows "outcomes (async_send_recv e fd sb rb sf rf) ''async_send_recv''
      (Rq_send (fd_index fd) (sp_data sb) (sp_size sb) sf) (Rq_recv (fd_index fd) (sp_data rb) (sp_size rb) rf)
    \<and> outcomes (async_write_fsync e fd sb) ''async_write_fsync''
      (Rq_write (fd_index fd) (sp_data sb) (word_of_nat (sp_size sb)) 0) (Rq_fsync (fd_index fd))
    \<and> (r0 < 0 \<longrightarrow> async_send_recv_result r0 r1 = Throw (System_error (- r0) ''async_send_recv (send)'')
         \<and> async_write_fsync_result r0 r1 = Throw (System_error (- r0) ''async_write_fsync (write)''))
    \<and> (0 \<le> r0 \<and> r1 < 0 \<longrightarrow> async_send_recv_result r0 r1 = Throw (System_error (- r1) ''async_send_recv (recv)'')
         \<and> async_write_fsync_result r0 r1 = Throw (System_error (- r1) ''async_write_fsync (fsync)''))
    \<and> (0 \<le> r0 \<and> 0 \<le> r1 \<longrightarrow> async_send_recv_result r0 r1 = Ret (r0, r1) \<and> async_write_fsync_result r0 r1 = Ret r0)"
proof -
  have out: "outcomes (start_pair e caller (prep_fd fd q0) (prep_fd fd q1)) caller q0 q1" for caller q0 q1
  proof (cases "stop_requested (oe_fiber_st e)")
    case True
    then show ?thesis by (simp add: assms(5) start_pair_def begin_async_op_def)
  next
    case False
    let ?qs = "[entry q0 True a0, entry q1 False a1]"
    have "start_pair e caller (prep_fd fd q0) (prep_fd fd q1) (Some s) = Ret (Some (begin_wait e [a0, a1] (submitted (sq (s_ring s) @ ?qs) s)), None)"
      using start_pair_ok [OF assms(1,2) False assms(3)] by (simp add: prep_entry op_entry_def set_link_def set_data_def assms(4))
    with begin_wait_waits [of "[a0, a1]" e ?qs s] op_waits_cancels False show ?thesis
      unfolding assms(5) by (auto simp: start_pair_def begin_async_op_def)
  qed
  show ?thesis unfolding async_send_recv_def async_write_fsync_def
    by (intro conjI impI out) (simp_all add: async_send_recv_result_def async_write_fsync_result_def)
qed

theorem async_pairs_submit_witness:
  "\<exists>s. async_write_fsync (example_env 8) (fd_ref_of_int 4) \<lparr>sp_data = 64, sp_size = 16\<rparr> (Some (example_sched [])) = Ret (Some s, None)
     \<and> map sqe_req (inflight (s_ring s)) = [Rq_write 4 64 16 0, Rq_fsync 4] \<and> map sqe_user_data (inflight (s_ring s)) = [4096, 8192]
     \<and> pool_cbs s = [[4096, 8192]]"
proof -
  let ?e = "example_env 8"
  have h: "submits (oe_lu ?e)" "has_room ?e (example_sched [])" "oe_aws ?e = 4096 # 8192 # []"
    by (simp_all add: example_env_def has_room_def example_sched_def empty_uring_def)
  have n: "\<not> stop_requested (oe_fiber_st ?e)" by (simp add: example_env_def no_token_def)
  let ?b = "\<lparr>sp_data = 64, sp_size = 16\<rparr>"
  from async_pairs_submit [OF h refl refl, where fd = "fd_ref_of_int 4" and sb = ?b and rb = ?b and sf = 0 and rf = 0 and ?r0.0 = 0 and ?r1.0 = 0] n obtain s
    where "async_write_fsync ?e (fd_ref_of_int 4) ?b (Some (example_sched [])) = Ret (Some s, None)"
      "op_waits ?e [4096, 8192] [\<lparr>sqe_req = Rq_write 4 64 16 0, sqe_flags = IOSQE_IO_LINK, sqe_buf_group = 0, sqe_user_data = 4096\<rparr>,
        \<lparr>sqe_req = Rq_fsync 4, sqe_flags = 0, sqe_buf_group = 0, sqe_user_data = 8192\<rparr>] (example_sched []) s"
    by (auto simp: fd_ref_of_int_def)
  then show ?thesis by (intro exI [of _ s]) (simp add: op_waits_def example_env_def example_sched_def empty_uring_def)
qed

subsection \<open>Failed submissions\<close>

text \<open>A submission that fails leaves the prepared entries in the queue and destroys the awaitable they name.\<close>

lemma start_op_fails:
  assumes "\<forall>r. lu_submit_ret (oe_lu e) r = ret" and "ret < 0" and "lu_sqe_available (oe_lu e) (s_ring s)" and "\<not> stop_requested (oe_fiber_st e)"
    and "timeout \<noteq> None \<Longrightarrow> \<forall>x. lu_sqe_available (oe_lu e) ((s_ring s)\<lparr>sq := sq (s_ring s) @ [x]\<rparr>)" and "aw = hd (oe_aws e)"
  shows "start_op e caller prep timeout (Some s) =
    Ret (Some (drop_awaitables [aw] (s\<lparr>s_ring := (s_ring s)\<lparr>sq := sq (s_ring s) @ op_chain aw timeout (prep blank_sqe)\<rparr>\<rparr>)),
         Some (System_error (- ret) ''io_uring_submit''))"
proof -
  let ?n = "length (sq (s_ring s))"
  let ?r = "\<lambda>xs. (s_ring s)\<lparr>sq := sq (s_ring s) @ xs\<rparr>"
  have get: "io_uring_get_sqe (oe_lu e) (s_ring s) = (Some ?n, ?r [blank_sqe])"
    using assms(3) by (simp add: io_uring_get_sqe_def)
  have get2: "io_uring_get_sqe (oe_lu e) (?r [x]) = (Some (Suc ?n), ?r [x, blank_sqe])" if "timeout \<noteq> None" for x
    using assms(5) [OF that] by (simp add: io_uring_get_sqe_def)
  have ed: "edit_sqe (Some (Suc ?n)) g (?r [x, y]) = Ret (?r [x, g y])" for g x y
    by (simp add: edit_sqe_def nth_append list_update_append)
  have "dispatch e (Some ?n) timeout (s\<lparr>s_ring := ?r [prep blank_sqe]\<rparr>) =
      Ret (drop_awaitables [aw] (s\<lparr>s_ring := ?r (op_chain aw timeout (prep blank_sqe))\<rparr>), Some (System_error (- ret) ''io_uring_submit''))"
    using assms(1,2) get2 ed
    by (cases timeout) (simp_all add: dispatch_def submit_and_wait_def submit_and_wait_with_timeout_def submit_then_wait_def io_uring_submit_def
        op_chain_def set_data_def set_link_def link_timeout_sqe_def op_entry_def blank_sqe_def assms(6) Let_def)
  then show ?thesis using get assms(4) by (simp add: start_op_def begin_async_op_def)
qed

text \<open>
  C34. A failed submission leaves a dangling entry behind. When \<open>io_uring_submit\<close> fails, the
  operation throws \<open>std::system_error\<close>, its awaitable is destroyed with the scope, and its
  entries, which name the awaitable, stay in the queue. The next operation of any fiber that
  waits on another awaitable and whose submission succeeds hands them to the kernel too, and the completion of such an entry
  is then dispatched to an address that is no handler.
\<close>

theorem failed_submit_dangles:
  assumes "\<forall>r. lu_submit_ret (oe_lu e) r = ret" and "ret < 0" and "has_room e s" and "\<not> stop_requested (oe_fiber_st e)"
    and "aw = hd (oe_aws e)" and "\<not> is_tag aw"
    and "submits (oe_lu e2)" and "has_room e2 (s\<lparr>s_ring := (s_ring s)\<lparr>sq := sq (s_ring s) @ op_chain aw to (call_entry call)\<rparr>\<rparr>)"
    and "\<not> stop_requested (oe_fiber_st e2)" and "hd (oe_aws e2) \<noteq> aw"
  shows "\<exists>s1 s2. perform e to call (Some s) = Ret (Some s1, Some (System_error (- ret) ''io_uring_submit''))
    \<and> sq (s_ring s1) = sq (s_ring s) @ op_chain aw to (call_entry call) \<and> handlers s1 aw = None
    \<and> perform e2 to2 call2 (Some s1) = Ret (Some s2, None)
    \<and> inflight (s_ring s2) = inflight (s_ring s) @ sq (s_ring s) @ op_chain aw to (call_entry call)
        @ op_chain (hd (oe_aws e2)) to2 (call_entry call2)
    \<and> (\<forall>c. cqe_user_data c = aw \<longrightarrow> drain_cqe lu cpl f b c (p, s2) = Undefined Dangling_handler)"
proof -
  let ?s1 = "drop_awaitables [aw] (s\<lparr>s_ring := (s_ring s)\<lparr>sq := sq (s_ring s) @ op_chain aw to (call_entry call)\<rparr>\<rparr>)"
  let ?qs = "op_chain (hd (oe_aws e2)) to2 (call_entry call2)"
  let ?s2 = "begin_wait e2 [hd (oe_aws e2)] (submitted (sq (s_ring ?s1) @ ?qs) ?s1)"
  obtain prep where p1: "prep blank_sqe = call_entry call" "perform e to call (Some s) = start_op e (call_name call) prep to (Some s)"
    using perform_start by blast
  obtain prep2 where p2: "prep2 blank_sqe = call_entry call2" "perform e2 to2 call2 (Some ?s1) = start_op e2 (call_name call2) prep2 to2 (Some ?s1)"
    using perform_start by blast
  have fails: "perform e to call (Some s) = Ret (Some ?s1, Some (System_error (- ret) ''io_uring_submit''))"
    using start_op_fails [OF assms(1,2) _ assms(4) _ assms(5), of s to "call_name call" prep] assms(3) p1 by (simp add: has_room_def)
  have ok: "perform e2 to2 call2 (Some ?s1) = Ret (Some ?s2, None)"
    using start_op_ok [OF assms(7) _ assms(9), of ?s1 "call_name call2" prep2 to2] assms(8) p2 by (simp add: has_room_def drop_awaitables_def)
  have w: "op_waits e2 [hd (oe_aws e2)] ?qs ?s1 ?s2" by (rule begin_wait_waits) simp
  then have "handlers ?s2 aw = None" using assms(10) by (simp add: op_waits_def drop_awaitables_def)
  then have "\<forall>c. cqe_user_data c = aw \<longrightarrow> drain_cqe lu cpl f b c (p, ?s2) = Undefined Dangling_handler"
    using assms(6) by (simp add: drain_cqe_def is_tag_def)
  with fails ok w show ?thesis by (intro exI [of _ ?s1] exI [of _ ?s2]) (simp add: op_waits_def drop_awaitables_def)
qed

definition failing_env :: "nat \<Rightarrow> int promise op_env" where
  "failing_env n = (example_env n)\<lparr>oe_lu := (sq_of_size n)\<lparr>lu_submit_ret := (\<lambda>_. - EINVAL)\<rparr>\<rparr>"

theorem failed_submit_dangles_witness:
  "\<exists>s1 s2. async_read (failing_env 8) (fd_ref_of_int 4) \<lparr>sp_data = 64, sp_size = 16\<rparr> None (Some (example_sched []))
      = Ret (Some s1, Some (System_error EINVAL ''io_uring_submit''))
    \<and> async_send ((example_env 8)\<lparr>oe_aws := [8192]\<rparr>) (fd_ref_of_int 5) \<lparr>sp_data = 128, sp_size = 16\<rparr> 0 None (Some s1) = Ret (Some s2, None)
    \<and> map sqe_req (inflight (s_ring s2)) = [Rq_read 4 64 16 0, Rq_send 5 128 16 0]
    \<and> drain_cqe (sq_of_size 8) (\<lambda>h r res fl. Ret (h, r, None)) \<lparr>eventfd_fd = 5, notify_fd = 6, work_efd_val = 0, notify_val = 0\<rparr>
        False \<lparr>cqe_user_data = 4096, cqe_res = 16, cqe_flags = 0\<rparr>
        (\<lparr>work_queue = [], efd = 0, running = True, in_flight = 2, pool_stop = False, launched = []\<rparr>, s2) = Undefined Dangling_handler"
proof -
  let ?e = "failing_env 8" and ?e2 = "(example_env 8)\<lparr>oe_aws := [8192]\<rparr>"
  let ?c = "C_read (fd_ref_of_int 4) \<lparr>sp_data = 64, sp_size = 16\<rparr>" and ?c2 = "C_send (fd_ref_of_int 5) \<lparr>sp_data = 128, sp_size = 16\<rparr> 0"
  note ev = failing_env_def example_env_def example_sched_def empty_uring_def no_token_def
  have h: "\<forall>r. lu_submit_ret (oe_lu ?e) r = - EINVAL" "- EINVAL < 0" "has_room ?e (example_sched [])" "\<not> stop_requested (oe_fiber_st ?e)"
    "4096 = hd (oe_aws ?e)" "\<not> is_tag 4096" "submits (oe_lu ?e2)"
    "has_room ?e2 (example_sched []\<lparr>s_ring := (s_ring (example_sched []))\<lparr>sq := sq (s_ring (example_sched [])) @ op_chain 4096 None (call_entry ?c)\<rparr>\<rparr>)"
    "\<not> stop_requested (oe_fiber_st ?e2)" "hd (oe_aws ?e2) \<noteq> 4096"
    by (simp_all add: ev has_room_def is_tag_def tag_defs op_chain_def)
  let ?cqe = "\<lparr>cqe_user_data = 4096, cqe_res = 16, cqe_flags = 0\<rparr>" and ?f = "\<lparr>eventfd_fd = 5, notify_fd = 6, work_efd_val = 0, notify_val = 0\<rparr>"
    and ?p = "\<lparr>work_queue = [], efd = 0, running = True, in_flight = 2, pool_stop = False, launched = []\<rparr>" and ?cpl = "\<lambda>h r res fl. Ret (h, r, None)"
  from failed_submit_dangles [OF h, of None ?c2 "sq_of_size 8" ?cpl ?f False ?p] obtain s1 s2
    where s1: "perform ?e None ?c (Some (example_sched [])) = Ret (Some s1, Some (System_error EINVAL ''io_uring_submit''))"
      and s2: "perform ?e2 None ?c2 (Some s1) = Ret (Some s2, None)"
      and i: "inflight (s_ring s2) = inflight (s_ring (example_sched [])) @ sq (s_ring (example_sched [])) @ op_chain 4096 None (call_entry ?c)
        @ op_chain (hd (oe_aws ?e2)) None (call_entry ?c2)"
      and d: "drain_cqe (sq_of_size 8) ?cpl ?f False ?cqe (?p, s2) = Undefined Dangling_handler" by auto
  have "map sqe_req (inflight (s_ring s2)) = [Rq_read 4 64 16 0, Rq_send 5 128 16 0]"
    unfolding i by (simp add: ev op_chain_def op_entry_def fd_ref_of_int_def)
  with s1 s2 d show ?thesis by (intro exI [of _ s1] exI [of _ s2]) simp
qed

text \<open>Operations called one after the other, with what each of them throws.\<close>

fun perform_all :: "('h op_env \<times> io_call) list \<Rightarrow> ('h, 't) sched option \<Rightarrow> (('h, 't) sched option \<times> exn option list) outcome" where
  "perform_all [] th = Ret (th, [])"
| "perform_all ((e, call) # calls) th = bind_outcome (perform e None call th) (\<lambda>(th', ex).
     map_outcome_state (\<lambda>(th'', exs). (th'', ex # exs)) (perform_all calls th'))"

lemma perform_all_fails:
  assumes "\<forall>r. lu_sqe_available lu r \<longleftrightarrow> length (sq r) < n" and "\<forall>r. lu_submit_ret lu r = ret" and "ret < 0"
    and "\<forall>(e, call) \<in> set calls. oe_lu e = lu \<and> \<not> stop_requested (oe_fiber_st e)" and "length (sq (s_ring s)) + length calls \<le> n"
  shows "\<exists>s'. perform_all calls (Some s) = Ret (Some s', replicate (length calls) (Some (System_error (- ret) ''io_uring_submit'')))
    \<and> sq (s_ring s') = sq (s_ring s) @ map (\<lambda>(e, call). (call_entry call)\<lparr>sqe_user_data := hd (oe_aws e)\<rparr>) calls
    \<and> inflight (s_ring s') = inflight (s_ring s)"
  using assms(4,5)
proof (induction calls arbitrary: s)
  case Nil
  then show ?case by simp
next
  case (Cons c calls)
  obtain e call where c: "c = (e, call)" by (cases c)
  obtain prep where p: "prep blank_sqe = call_entry call" "perform e None call (Some s) = start_op e (call_name call) prep None (Some s)"
    using perform_start by blast
  let ?s = "drop_awaitables [hd (oe_aws e)] (s\<lparr>s_ring := (s_ring s)\<lparr>sq := sq (s_ring s) @ [(call_entry call)\<lparr>sqe_user_data := hd (oe_aws e)\<rparr>]\<rparr>\<rparr>)"
  have "oe_lu e = lu" "\<not> stop_requested (oe_fiber_st e)" using Cons.prems(1) c by auto
  then have "perform e None call (Some s) = Ret (Some ?s, Some (System_error (- ret) ''io_uring_submit''))"
    using start_op_fails [of e ret s None "hd (oe_aws e)" "call_name call" prep] assms(1-3) Cons.prems(2) p by (simp add: op_chain_def)
  with Cons.IH [of ?s] Cons.prems show ?case by (auto simp: c drop_awaitables_def)
qed

text \<open>
  C35. Failed submissions use the queue up. On a ring of \<open>n\<close> entries whose submissions fail,
  \<open>n\<close> operations, each of which throws \<open>std::system_error\<close>, leave \<open>n\<close> entries in the queue, since no
  entry is given back. From then on the next operation of any fiber dereferences the null pointer
  that \<open>io_uring_get_sqe\<close> returns, and so does the worker when it re-arms one of its two
  reads; only \<open>async_send_zc\<close> checks the pointer, throws and leaves everything as it was.
\<close>

theorem failed_submits_fill_queue:
  assumes "\<forall>r. lu_sqe_available lu r \<longleftrightarrow> length (sq r) < n" and "\<forall>r. lu_submit_ret lu r = ret" and "ret < 0"
    and "\<forall>(e, call) \<in> set calls. oe_lu e = lu \<and> \<not> stop_requested (oe_fiber_st e)" and "sq (s_ring s) = []" and "length calls = n"
    and "oe_lu e = lu" and "\<not> stop_requested (oe_fiber_st e)"
  shows "\<exists>s'. perform_all calls (Some s) = Ret (Some s', replicate n (Some (System_error (- ret) ''io_uring_submit'')))
    \<and> sq (s_ring s') = map (\<lambda>(e, call). (call_entry call)\<lparr>sqe_user_data := hd (oe_aws e)\<rparr>) calls \<and> inflight (s_ring s') = inflight (s_ring s)
    \<and> perform e to call (Some s') = Undefined Null_deref \<and> async_close e sock (Some s') = Undefined Null_deref
    \<and> (0 < dur \<longrightarrow> async_sleep_for e dur (Some s') = Undefined Null_deref)
    \<and> async_send_recv e fd sb rb sf rf (Some s') = Undefined Null_deref \<and> async_write_fsync e fd sb (Some s') = Undefined Null_deref
    \<and> arm_work_efd lu f s' = Undefined Null_deref \<and> arm_notify lu f s' = Undefined Null_deref
    \<and> async_send_zc e mkzc pool sock fb nbytes flags (Some s') = Ret (Some s', Some (Runtime_error ''async_send_zc: io_uring ring full''))"
proof -
  have "length (sq (s_ring s)) + length calls \<le> n" using assms(5,6) by simp
  from perform_all_fails [OF assms(1-4) this] obtain s' where s': "perform_all calls (Some s) = Ret (Some s', replicate n (Some (System_error (- ret) ''io_uring_submit'')))"
    "sq (s_ring s') = map (\<lambda>(e, call). (call_entry call)\<lparr>sqe_user_data := hd (oe_aws e)\<rparr>) calls" "inflight (s_ring s') = inflight (s_ring s)"
    using assms(5,6) by auto
  have full: "io_uring_get_sqe lu (s_ring s') = (None, s_ring s')" using assms(1,6) s'(2) by (simp add: io_uring_get_sqe_def)
  have op: "start_op e caller prep to (Some s') = Undefined Null_deref" for caller prep to
    using full assms(7,8) by (simp add: start_op_def begin_async_op_def)
  obtain prep where "perform e to call (Some s') = start_op e (call_name call) prep to (Some s')" using perform_start by blast
  then have "perform e to call (Some s') = Undefined Null_deref" using op by simp
  moreover have "async_close e sock (Some s') = Undefined Null_deref" "0 < dur \<longrightarrow> async_sleep_for e dur (Some s') = Undefined Null_deref"
    "async_send_recv e fd sb rb sf rf (Some s') = Undefined Null_deref" "async_write_fsync e fd sb (Some s') = Undefined Null_deref"
    "arm_work_efd lu f s' = Undefined Null_deref" "arm_notify lu f s' = Undefined Null_deref"
    using full op assms(7,8)
    by (simp_all add: async_close_def async_sleep_for_def async_send_recv_def async_write_fsync_def start_pair_def begin_async_op_def
        arm_work_efd_def arm_notify_def arm_read_def)
  moreover have "async_send_zc e mkzc pool sock fb nbytes flags (Some s') = Ret (Some s', Some (Runtime_error ''async_send_zc: io_uring ring full''))"
    using full assms(7) by (simp add: async_send_zc_def)
  ultimately show ?thesis using s' by (intro exI [of _ s']) simp
qed

theorem failed_submits_fill_queue_witness:
  "\<exists>s'. perform_all (replicate k_ring_entries (failing_env k_ring_entries, C_read (fd_ref_of_int 4) \<lparr>sp_data = 64, sp_size = 16\<rparr>)) (Some (example_sched []))
      = Ret (Some s', replicate k_ring_entries (Some (System_error EINVAL ''io_uring_submit'')))
    \<and> length (sq (s_ring s')) = 256 \<and> async_close (failing_env k_ring_entries) 4 (Some s') = Undefined Null_deref"
proof -
  let ?n = k_ring_entries
  let ?cs = "replicate ?n (failing_env ?n, C_read (fd_ref_of_int 4) \<lparr>sp_data = 64, sp_size = 16\<rparr>)"
  note ev = failing_env_def example_env_def example_sched_def empty_uring_def no_token_def
  have h: "\<forall>r. lu_sqe_available (oe_lu (failing_env ?n)) r \<longleftrightarrow> length (sq r) < ?n" "\<forall>r. lu_submit_ret (oe_lu (failing_env ?n)) r = - EINVAL"
    "- EINVAL < 0" "\<forall>(e, call) \<in> set ?cs. oe_lu e = oe_lu (failing_env ?n) \<and> \<not> stop_requested (oe_fiber_st e)"
    "sq (s_ring (example_sched [])) = []" "length ?cs = ?n"
    by (simp_all add: ev)
  have n: "\<not> stop_requested (oe_fiber_st (failing_env ?n))" by (simp add: ev)
  have "\<exists>s'. perform_all ?cs (Some (example_sched [])) = Ret (Some s', replicate ?n (Some (System_error EINVAL ''io_uring_submit'')))
      \<and> length (sq (s_ring s')) = ?n \<and> async_close (failing_env ?n) 4 (Some s') = Undefined Null_deref"
    by (rule exE [OF failed_submits_fill_queue [OF h refl n, where sock = 4]]) auto
  then show ?thesis by (simp only: k_ring_entries_def)
qed

text \<open>
  Lengths are cut to 32 bits. \<open>async_read\<close> and \<open>async_write\<close> cast the size of the buffer to
  \<open>unsigned\<close>: two buffers at the same address whose sizes agree modulo \<open>2 ^ 32\<close> lead to the
  same submission, so a buffer of exactly 4 GiB is submitted as an empty one.
\<close>

lemma read_write_length_cut:
  assumes "n mod 2 ^ 32 = m mod 2 ^ 32"
  shows "async_read e fd \<lparr>sp_data = d, sp_size = n\<rparr> to th = async_read e fd \<lparr>sp_data = d, sp_size = m\<rparr> to th
    \<and> async_write e fd \<lparr>sp_data = d, sp_size = n\<rparr> to th = async_write e fd \<lparr>sp_data = d, sp_size = m\<rparr> to th"
proof -
  have "(word_of_nat n :: u32) = word_of_nat m"
    by (rule iffD2 [OF word_of_nat_eq_iff]) (use assms in \<open>simp add: take_bit_eq_mod\<close>)
  then show ?thesis by (simp add: async_read_def async_write_def)
qed

end
