(* ===== verification/Multishot_Recv.thy ===== *)
theory Multishot_Recv
  imports Ownership Uring
begin

text \<open>
  \<open>src/multishot_recv.cpp\<close> and \<open>include/fiberexec/multishot_recv.hpp\<close>: the multishot receive
  with a kernel buffer ring, and its RAII handle \<open>received_buffer\<close>.

  The ring of provided buffers is code of liburing and the kernel: its operations are a
  record of parameters, and the locale \<open>provided_buffers\<close> holds what they promise. A call of
  \<open>next\<close> that suspends is modelled by its parts before and after the wait.
\<close>

subsection \<open>The ring of provided buffers\<close>

type_synonym buf_entry = "nat \<times> u32 \<times> u16"

record 'b buf_ring_ops =
  br_setup :: "u32 \<Rightarrow> u16 \<Rightarrow> int + 'b"
  br_add :: "'b \<Rightarrow> buf_entry \<Rightarrow> int \<Rightarrow> int \<Rightarrow> 'b"
  br_advance :: "'b \<Rightarrow> int \<Rightarrow> 'b"
  br_mask :: "u32 \<Rightarrow> int"

text \<open>Adding entries at consecutive offsets, as the loop of the constructor does.\<close>

fun br_add_all :: "'b buf_ring_ops \<Rightarrow> int \<Rightarrow> int \<Rightarrow> buf_entry list \<Rightarrow> 'b \<Rightarrow> 'b" where
  "br_add_all bo msk off [] b = b"
| "br_add_all bo msk off (e # es) b = br_add_all bo msk (off + 1) es (br_add bo b e msk off)"

text \<open>
  What liburing documents: a new ring provides nothing, and entries added at the offsets
  from zero upwards are provided, in order, by advancing over them, while they fit.
\<close>

locale provided_buffers =
  fixes bo :: "'b buf_ring_ops" and avail :: "'b \<Rightarrow> buf_entry list" and entries :: "'b \<Rightarrow> nat"
  assumes setup_empty: "br_setup bo n g = Inr b \<Longrightarrow> avail b = [] \<and> entries b = unat n"
    and publish: "length (avail b) + length es \<le> entries b \<Longrightarrow>
      avail (br_advance bo (br_add_all bo (br_mask bo (word_of_nat (entries b))) 0 es b) (int (length es))) = avail b @ es"
    and publish_entries: "entries (br_advance bo (br_add bo b e m off) k) = entries b"
      "entries (br_advance bo (br_add_all bo m 0 es b) k) = entries b"

subsection \<open>State\<close>

record pending_item =
  pi_buf_id :: u16
  pi_size :: nat

text \<open>\<open>waiter_\<close> holds the fiber blocked on its promise; a null \<open>buf_ring_\<close> is \<open>None\<close>.\<close>

record 'b multishot_recv =
  mr_fd :: int
  bgid :: u16
  mr_buf_size :: nat
  mr_buf_count :: nat
  buf_storage :: span
  buf_ring :: "'b option"
  pending :: "pending_item list"
  waiter :: "nat option"
  mr_error :: int

record received_buffer =
  rb_owner :: bool
  rb_buf_id :: u16
  rb_size :: nat

subsection \<open>Operations\<close>

text \<open>The entries the constructor puts into the ring, one per slot of the storage.\<close>

fun recv_entries :: "span \<Rightarrow> nat \<Rightarrow> nat list \<Rightarrow> buf_entry list outcome" where
  "recv_entries st bsz [] = Ret []"
| "recv_entries st bsz (i # is) =
     bind_outcome (subspan st (size_mul i bsz) bsz) (\<lambda>sl.
       bind_outcome (recv_entries st bsz is) (\<lambda>rest. Ret ((sp_data sl, word_of_nat bsz, word_of_nat i) # rest)))"

definition recv_sqe :: "int \<Rightarrow> u16 \<Rightarrow> u64 \<Rightarrow> sqe \<Rightarrow> sqe" where
  "recv_sqe fd g self e =
     e\<lparr>sqe_req := Rq_recv_multishot fd, sqe_flags := sqe_flags e OR IOSQE_BUFFER_SELECT,
       sqe_buf_group := g, sqe_user_data := self\<rparr>"

text \<open>
  The constructor on the thread's ring and its counter \<open>tl_next_bgid\<close>; \<open>Inl\<close> is a throw. The
  counter has advanced in every case.
\<close>

definition multishot_recv_ctor ::
  "'b buf_ring_ops \<Rightarrow> liburing \<Rightarrow> nat \<Rightarrow> u64 \<Rightarrow> int \<Rightarrow> nat \<Rightarrow> nat \<Rightarrow> u16 \<Rightarrow> uring option \<Rightarrow>
   (u16 \<times> uring option \<times> (exn + 'b multishot_recv)) outcome" where
  "multishot_recv_ctor bo lu base self fd bsz bcnt next_bgid tl_ring =
     (if 2 ^ 63 < bcnt then Undefined Bit_ceil_range else
      let count = bit_ceil bcnt; next' = next_bgid + 1; total = size_mul bsz count in
      if bsz = 0 \<or> bcnt = 0
      then Ret (next', tl_ring, Inl (Invalid_argument ''multishot_recv: buf_size and buf_count must be non-zero''))
      else (case tl_ring of
        None \<Rightarrow> Ret (next', None, Inl (Runtime_error ''multishot_recv constructed outside of a fiberexec fiber''))
      | Some r \<Rightarrow>
        if 2 ^ 63 - 1 < total then Ret (next', tl_ring, Inl Length_error)
        else (case br_setup bo (word_of_nat count) next_bgid of
          Inl ret \<Rightarrow> Ret (next', tl_ring, Inl (System_error (- ret) ''io_uring_setup_buf_ring''))
        | Inr b \<Rightarrow> bind_outcome (recv_entries \<lparr>sp_data = base, sp_size = total\<rparr> bsz [0..<count]) (\<lambda>es.
            let b' = br_advance bo (br_add_all bo (br_mask bo (word_of_nat count)) 0 es b) (int count) in
            (case io_uring_get_sqe lu r of
               (None, r1) \<Rightarrow> Ret (next', Some r1, Inl (Runtime_error ''multishot_recv: io_uring ring full''))
             | (Some i, r1) \<Rightarrow> bind_outcome (edit_sqe (Some i) (recv_sqe fd next_bgid self) r1) (\<lambda>r2.
                 (case io_uring_submit lu r2 of
                    (ret, r3) \<Rightarrow> if ret < 0
                      then Ret (next', Some r3, Inl (System_error (- ret) ''io_uring_submit (multishot_recv)''))
                      else Ret (next', Some r3, Inr \<lparr>mr_fd = fd, bgid = next_bgid, mr_buf_size = bsz, mr_buf_count = count,
                        buf_storage = \<lparr>sp_data = base, sp_size = total\<rparr>, buf_ring = Some b', pending = [],
                        waiter = None, mr_error = 0\<rparr>))))))))"

definition recv_arm :: "liburing \<Rightarrow> u64 \<Rightarrow> 'b multishot_recv \<Rightarrow> uring \<Rightarrow> uring outcome" where
  "recv_arm lu self m r =
     (case io_uring_get_sqe lu r of
        (None, r1) \<Rightarrow> Ret r1
      | (Some i, r1) \<Rightarrow> bind_outcome (edit_sqe (Some i) (recv_sqe (mr_fd m) (bgid m) self) r1) (\<lambda>r2.
          Ret (snd (io_uring_submit lu r2))))"

definition recv_return_buffer :: "'b buf_ring_ops \<Rightarrow> u16 \<Rightarrow> 'b multishot_recv \<Rightarrow> 'b multishot_recv outcome" where
  "recv_return_buffer bo buf_id m =
     bind_outcome (subspan (buf_storage m) (size_mul (unat buf_id) (mr_buf_size m)) (mr_buf_size m)) (\<lambda>sl.
       (case buf_ring m of
          None \<Rightarrow> Undefined Null_deref
        | Some b \<Rightarrow> Ret (m\<lparr>buf_ring := Some (br_advance bo
            (br_add bo b (sp_data sl, word_of_nat (mr_buf_size m), buf_id) (br_mask bo (word_of_nat (mr_buf_count m))) 0) 1)\<rparr>)))"

definition cqe_buf_id :: "u32 \<Rightarrow> u16" where
  "cqe_buf_id flags = ucast (drop_bit IORING_CQE_BUFFER_SHIFT flags)"

text \<open>\<open>complete\<close>: also returns the fiber whose promise was fulfilled.\<close>

definition recv_complete ::
  "'b buf_ring_ops \<Rightarrow> liburing \<Rightarrow> u64 \<Rightarrow> 'b multishot_recv \<Rightarrow> uring \<Rightarrow> int \<Rightarrow> u32 \<Rightarrow>
   ('b multishot_recv \<times> uring \<times> nat option) outcome" where
  "recv_complete bo lu self m r res flags =
     (let has_buf = flags AND IORING_CQE_F_BUFFER \<noteq> 0; buf_id = cqe_buf_id flags in
      bind_outcome
        (if 0 < res then Ret (m\<lparr>pending := pending m @ [\<lparr>pi_buf_id = buf_id, pi_size = nat res\<rparr>]\<rparr>)
         else bind_outcome (if has_buf then recv_return_buffer bo buf_id m else Ret m) (\<lambda>m1.
                Ret (m1\<lparr>mr_error := (if res = 0 then - ENODATA else res)\<rparr>)))
        (\<lambda>m2. bind_outcome
          (if flags AND IORING_CQE_F_MORE = 0 \<and> 0 < res then recv_arm lu self m2 r else Ret r)
          (\<lambda>r'. Ret (m2\<lparr>waiter := None\<rparr>, r', waiter m2))))"

text \<open>The possible ends of a call of \<open>next\<close>; \<open>Nx_wait\<close> is the suspension in \<open>future.get()\<close>.\<close>

datatype 'a next_result = Nx_value 'a | Nx_none | Nx_throw exn | Nx_wait

definition take_item :: "pending_item \<Rightarrow> received_buffer" where
  "take_item p = \<lparr>rb_owner = True, rb_buf_id = pi_buf_id p, rb_size = pi_size p\<rparr>"

definition recv_ended :: "int \<Rightarrow> received_buffer next_result" where
  "recv_ended err =
     (if err = - ENODATA \<or> err = - ECANCELED \<or> err = - EINVAL then Nx_none
      else Nx_throw (System_error (- err) ''multishot_recv::next''))"

definition recv_next ::
  "nat \<Rightarrow> stop_token \<Rightarrow> 'b multishot_recv \<Rightarrow> 'b multishot_recv \<times> received_buffer next_result" where
  "recv_next fiber st m =
     (case pending m of
        p # ps \<Rightarrow> (m\<lparr>pending := ps\<rparr>, Nx_value (take_item p))
      | [] \<Rightarrow> if mr_error m \<noteq> 0 then (m, recv_ended (mr_error m))
          else if stop_requested st then (m\<lparr>mr_error := - ECANCELED\<rparr>, Nx_none)
          else (m\<lparr>waiter := Some fiber\<rparr>, Nx_wait))"

definition recv_next_resume :: "'b multishot_recv \<Rightarrow> 'b multishot_recv \<times> received_buffer next_result" where
  "recv_next_resume m =
     (case pending m of
        p # ps \<Rightarrow> (m\<lparr>pending := ps\<rparr>, Nx_value (take_item p))
      | [] \<Rightarrow> (m, recv_ended (mr_error m)))"

subsection \<open>The destructor\<close>

text \<open>
  The loop that returns the unconsumed buffers; \<open>while (next()) {}\<close> does the same to what is
  pending, since each returned handle dies at once.
\<close>

fun recv_return_items :: "'b buf_ring_ops \<Rightarrow> pending_item list \<Rightarrow> 'b multishot_recv \<Rightarrow> 'b multishot_recv outcome" where
  "recv_return_items bo [] m = Ret m"
| "recv_return_items bo (p # ps) m =
     bind_outcome (recv_return_buffer bo (pi_buf_id p) (m\<lparr>pending := ps\<rparr>)) (recv_return_items bo ps)"

text \<open>
  The destructor up to its end (\<open>True\<close>) or to a suspension in \<open>next\<close> (\<open>False\<close>); exceptions of
  \<open>next\<close> are swallowed. At its end the buffer ring is freed.
\<close>

definition recv_dtor_end :: "'b multishot_recv \<Rightarrow> 'b multishot_recv" where
  "recv_dtor_end m = m\<lparr>buf_ring := None\<rparr>"

definition recv_dtor_drain ::
  "'b buf_ring_ops \<Rightarrow> nat \<Rightarrow> stop_token \<Rightarrow> 'b multishot_recv \<Rightarrow> ('b multishot_recv \<times> bool) outcome" where
  "recv_dtor_drain bo fiber st m =
     bind_outcome (recv_return_items bo (pending m) m) (\<lambda>m1.
       (case recv_next fiber st m1 of
          (m2, Nx_wait) \<Rightarrow> Ret (m2, False)
        | (m2, _) \<Rightarrow> Ret (recv_dtor_end m2, True)))"

definition multishot_recv_dtor ::
  "'b buf_ring_ops \<Rightarrow> liburing \<Rightarrow> u64 \<Rightarrow> nat \<Rightarrow> stop_token \<Rightarrow> 'b multishot_recv \<Rightarrow> uring option \<Rightarrow>
   ('b multishot_recv \<times> uring option \<times> bool) outcome" where
  "multishot_recv_dtor bo lu self fiber st m tl_ring =
     bind_outcome (recv_return_items bo (pending m) m) (\<lambda>m1.
       if mr_error m1 = 0
       then bind_outcome (submit_cancel lu self tl_ring) (\<lambda>tl_ring'.
              bind_outcome (recv_dtor_drain bo fiber st m1) (\<lambda>(m2, fin). Ret (m2, tl_ring', fin)))
       else Ret (recv_dtor_end m1, tl_ring, True))"

text \<open>After the wait: the rest of that call of \<open>next\<close>, then the loop again.\<close>

definition recv_dtor_resume ::
  "'b buf_ring_ops \<Rightarrow> nat \<Rightarrow> stop_token \<Rightarrow> 'b multishot_recv \<Rightarrow> ('b multishot_recv \<times> bool) outcome" where
  "recv_dtor_resume bo fiber st m =
     (case recv_next_resume m of
        (m1, Nx_value b) \<Rightarrow> bind_outcome (recv_return_buffer bo (rb_buf_id b) m1) (recv_dtor_drain bo fiber st)
      | (m1, _) \<Rightarrow> Ret (recv_dtor_end m1, True))"

subsection \<open>The handle \<open>received_buffer\<close>\<close>

text \<open>The receiver, the live handles, the completions posted to it and not yet drained, the thread's ring.\<close>

record 'b recv_world =
  rw_recv :: "'b multishot_recv"
  rw_objs :: "nat \<Rightarrow> received_buffer option"
  rw_cq :: "(int \<times> u32) list"
  rw_ring :: uring

definition received_buffer_move_ctor :: "nat \<Rightarrow> nat \<Rightarrow> 'b recv_world \<Rightarrow> 'b recv_world outcome" where
  "received_buffer_move_ctor dst src w =
     (case rw_objs w src of
        None \<Rightarrow> Undefined Dangling_handler
      | Some oth \<Rightarrow> Ret (w\<lparr>rw_objs := (rw_objs w)(src \<mapsto> oth\<lparr>rb_owner := False\<rparr>, dst \<mapsto> oth)\<rparr>))"

definition received_buffer_release :: "'b buf_ring_ops \<Rightarrow> received_buffer \<Rightarrow> 'b recv_world \<Rightarrow> 'b recv_world outcome" where
  "received_buffer_release bo h w =
     (if rb_owner h then map_outcome_state (\<lambda>m. w\<lparr>rw_recv := m\<rparr>) (recv_return_buffer bo (rb_buf_id h) (rw_recv w)) else Ret w)"

definition received_buffer_move_assign :: "'b buf_ring_ops \<Rightarrow> nat \<Rightarrow> nat \<Rightarrow> 'b recv_world \<Rightarrow> 'b recv_world outcome" where
  "received_buffer_move_assign bo dst src w =
     (if dst = src then Ret w else
      (case (rw_objs w dst, rw_objs w src) of
         (Some me, Some oth) \<Rightarrow>
           bind_outcome (received_buffer_release bo me w) (\<lambda>w1.
             Ret (w1\<lparr>rw_objs := (rw_objs w1)(src \<mapsto> oth\<lparr>rb_owner := False\<rparr>, dst \<mapsto> oth)\<rparr>))
       | _ \<Rightarrow> Undefined Dangling_handler))"

definition received_buffer_dtor :: "'b buf_ring_ops \<Rightarrow> nat \<Rightarrow> 'b recv_world \<Rightarrow> 'b recv_world outcome" where
  "received_buffer_dtor bo a w =
     (case rw_objs w a of
        None \<Rightarrow> Undefined Dangling_handler
      | Some h \<Rightarrow> bind_outcome (received_buffer_release bo h w) (\<lambda>w1.
          Ret (w1\<lparr>rw_objs := (rw_objs w1)(a := None)\<rparr>)))"

definition received_buffer_data :: "'b multishot_recv \<Rightarrow> received_buffer \<Rightarrow> span outcome" where
  "received_buffer_data m h =
     (if rb_owner h then subspan (buf_storage m) (size_mul (unat (rb_buf_id h)) (mr_buf_size m)) (rb_size h)
      else Undefined Null_deref)"

subsection \<open>Steps\<close>

definition buffer_flags :: "u16 \<Rightarrow> u32 \<Rightarrow> u32" where
  "buffer_flags bid mf = IORING_CQE_F_BUFFER OR push_bit IORING_CQE_BUFFER_SHIFT (ucast bid) OR mf"

text \<open>A call of \<open>next\<close> whose result, if it is a buffer, is held by a new object at \<open>a\<close>.\<close>

definition deliver :: "nat \<Rightarrow> 'b recv_world \<Rightarrow> 'b multishot_recv \<times> received_buffer next_result \<Rightarrow> 'b recv_world" where
  "deliver a w mx =
     (case mx of
        (m, Nx_value h) \<Rightarrow> w\<lparr>rw_recv := m, rw_objs := (rw_objs w)(a \<mapsto> h)\<rparr>
      | (m, _) \<Rightarrow> w\<lparr>rw_recv := m\<rparr>)"

text \<open>
  The kernel fills the first provided buffer and reports it, or ends the request, with or
  without having selected a buffer; the scheduler drains a completion; the client calls
  \<open>next\<close> and moves, assigns and destroys handles.
\<close>

inductive recv_step ::
  "'b buf_ring_ops \<Rightarrow> ('b \<Rightarrow> buf_entry list) \<Rightarrow> ('b \<Rightarrow> nat) \<Rightarrow> liburing \<Rightarrow> u64 \<Rightarrow> 'b recv_world \<Rightarrow> 'b recv_world outcome \<Rightarrow> bool"
  for bo :: "'b buf_ring_ops" and avail :: "'b \<Rightarrow> buf_entry list" and entries :: "'b \<Rightarrow> nat" and lu :: liburing and self :: u64 where
  rs_kernel_data: "buf_ring (rw_recv w) = Some b \<Longrightarrow> avail b = (ad, len, bid) # avail b' \<Longrightarrow> entries b' = entries b \<Longrightarrow>
     0 < res \<Longrightarrow> res \<le> uint len \<Longrightarrow> mf \<in> {0, IORING_CQE_F_MORE} \<Longrightarrow>
     recv_step bo avail entries lu self w (Ret (w\<lparr>rw_recv := (rw_recv w)\<lparr>buf_ring := Some b'\<rparr>,
       rw_cq := rw_cq w @ [(res, buffer_flags bid mf)]\<rparr>))"
| rs_kernel_end: "res \<le> 0 \<Longrightarrow> recv_step bo avail entries lu self w (Ret (w\<lparr>rw_cq := rw_cq w @ [(res, 0)]\<rparr>))"
| rs_kernel_end_buf: "buf_ring (rw_recv w) = Some b \<Longrightarrow> avail b = (ad, len, bid) # avail b' \<Longrightarrow> entries b' = entries b \<Longrightarrow>
     res \<le> 0 \<Longrightarrow> recv_step bo avail entries lu self w (Ret (w\<lparr>rw_recv := (rw_recv w)\<lparr>buf_ring := Some b'\<rparr>,
       rw_cq := rw_cq w @ [(res, buffer_flags bid 0)]\<rparr>))"
| rs_drain: "rw_cq w = (res, flags) # cs \<Longrightarrow> recv_step bo avail entries lu self w
     (map_outcome_state (\<lambda>(m, r, _). w\<lparr>rw_recv := m, rw_ring := r, rw_cq := cs\<rparr>)
       (recv_complete bo lu self (rw_recv w) (rw_ring w) res flags))"
| rs_next: "rw_objs w a = None \<Longrightarrow> recv_step bo avail entries lu self w (Ret (deliver a w (recv_next fiber st (rw_recv w))))"
| rs_resume: "rw_objs w a = None \<Longrightarrow> recv_step bo avail entries lu self w (Ret (deliver a w (recv_next_resume (rw_recv w))))"
| rs_move_ctor: "rw_objs w dst = None \<Longrightarrow> rw_objs w src \<noteq> None \<Longrightarrow>
     recv_step bo avail entries lu self w (received_buffer_move_ctor dst src w)"
| rs_move_assign: "rw_objs w dst \<noteq> None \<Longrightarrow> rw_objs w src \<noteq> None \<Longrightarrow>
     recv_step bo avail entries lu self w (received_buffer_move_assign bo dst src w)"
| rs_dtor: "rw_objs w a \<noteq> None \<Longrightarrow> recv_step bo avail entries lu self w (received_buffer_dtor bo a w)"

subsection \<open>Flags of completions\<close>

lemma cqe_buf_id_buffer_flags:
  assumes "mf \<in> {0, IORING_CQE_F_MORE}"
  shows "cqe_buf_id (buffer_flags bid mf) = bid"
proof (rule bit_word_eqI)
  fix n assume n: "n < LENGTH(16)"
  have "\<not> bit (1 :: u32) (16 + n)" "\<not> bit (2 :: u32) (16 + n)" by (simp_all add: bit_simps)
  then show "bit (cqe_buf_id (buffer_flags bid mf)) n = bit bid n"
    using n assms by (auto simp: cqe_buf_id_def buffer_flags_def bit_simps flag_defs)
qed

lemma buffer_flags_bits:
  assumes "mf \<in> {0, IORING_CQE_F_MORE}"
  shows "buffer_flags bid mf AND IORING_CQE_F_BUFFER \<noteq> 0"
    and "buffer_flags bid mf AND IORING_CQE_F_MORE = mf"
proof -
  have "bit (buffer_flags bid mf AND IORING_CQE_F_BUFFER) 0"
    by (simp add: buffer_flags_def flag_defs bit_simps)
  then show "buffer_flags bid mf AND IORING_CQE_F_BUFFER \<noteq> 0" by (metis bit_0_eq bot_apply bot_bool_def)
  show "buffer_flags bid mf AND IORING_CQE_F_MORE = mf"
  proof (rule bit_word_eqI)
    fix n assume "n < LENGTH(32)"
    show "bit (buffer_flags bid mf AND IORING_CQE_F_MORE) n = bit mf n"
      using assms by (auto simp: buffer_flags_def flag_defs bit_simps)
  qed
qed

subsection \<open>Where the buffers are\<close>

definition rb_of :: "received_buffer \<Rightarrow> u16 option" where
  "rb_of h = (if rb_owner h then Some (rb_buf_id h) else None)"

definition cq_ids :: "(int \<times> u32) list \<Rightarrow> u16 list" where
  "cq_ids cs = map (\<lambda>(res, flags). cqe_buf_id flags) (filter (\<lambda>(res, flags). flags AND IORING_CQE_F_BUFFER \<noteq> 0) cs)"

definition ring_ids :: "('b \<Rightarrow> buf_entry list) \<Rightarrow> 'b option \<Rightarrow> u16 list" where
  "ring_ids avail ob = (case ob of None \<Rightarrow> [] | Some b \<Rightarrow> map (snd \<circ> snd) (avail b))"

text \<open>Not held by a handle: with the kernel, in an undrained completion, or pending.\<close>

definition recv_own :: "('b \<Rightarrow> buf_entry list) \<Rightarrow> 'b recv_world \<Rightarrow> (u16, nat) own" where
  "recv_own avail w = \<lparr>o_free = ring_ids avail (buf_ring (rw_recv w)) @ cq_ids (rw_cq w) @ map pi_buf_id (pending (rw_recv w)),
     o_held = held_by rb_of (rw_objs w)\<rparr>"

definition recv_ids :: "'b recv_world \<Rightarrow> u16 set" where
  "recv_ids w = set (map word_of_nat [0..<mr_buf_count (rw_recv w)])"

definition recv_entry :: "'b multishot_recv \<Rightarrow> u16 \<Rightarrow> buf_entry" where
  "recv_entry m i = (sp_data (buf_storage m) + unat i * mr_buf_size m, word_of_nat (mr_buf_size m), i)"

definition recv_layout :: "'b multishot_recv \<Rightarrow> bool" where
  "recv_layout m \<longleftrightarrow> sp_size (buf_storage m) = mr_buf_size m * mr_buf_count m
     \<and> mr_buf_size m * mr_buf_count m < size_t_mod \<and> mr_buf_count m \<le> 2 ^ 16"

definition recv_sizes :: "nat \<Rightarrow> 'b recv_world \<Rightarrow> bool" where
  "recv_sizes n w \<longleftrightarrow> (\<forall>p \<in> set (pending (rw_recv w)). pi_size p \<le> n)
     \<and> (\<forall>c \<in> set (rw_cq w). 0 < fst c \<longrightarrow> snd c AND IORING_CQE_F_BUFFER \<noteq> 0 \<and> nat (fst c) \<le> n)
     \<and> (\<forall>a h. rw_objs w a = Some h \<longrightarrow> rb_size h \<le> n)"

definition recv_ok :: "('b \<Rightarrow> buf_entry list) \<Rightarrow> ('b \<Rightarrow> nat) \<Rightarrow> 'b recv_world \<Rightarrow> bool" where
  "recv_ok avail entries w \<longleftrightarrow> recv_layout (rw_recv w) \<and> recv_sizes (mr_buf_size (rw_recv w)) w
     \<and> (\<exists>b. buf_ring (rw_recv w) = Some b \<and> entries b = mr_buf_count (rw_recv w)
          \<and> (\<forall>e \<in> set (avail b). e = recv_entry (rw_recv w) (snd (snd e))))"

lemma card_recv_ids: "recv_layout (rw_recv w) \<Longrightarrow> card (recv_ids w) = mr_buf_count (rw_recv w)"
  using distinct_card [OF distinct_map_word_of_nat [of "mr_buf_count (rw_recv w)", where 'a = 16]]
  by (simp add: recv_ids_def recv_layout_def)

lemma finite_recv_ids [simp]: "finite (recv_ids w)"
  by (simp add: recv_ids_def)

lemma recv_ids_bound: "recv_layout (rw_recv w) \<Longrightarrow> i \<in> recv_ids w \<Longrightarrow> unat i < mr_buf_count (rw_recv w)"
  using set_map_word_of_nat_unat [where 'a = 16, of i "mr_buf_count (rw_recv w)"]
  by (simp add: recv_ids_def recv_layout_def)

lemma recv_slot:
  assumes "recv_layout m" and "unat i < mr_buf_count m" and "n \<le> mr_buf_size m"
  shows "subspan (buf_storage m) (size_mul (unat i) (mr_buf_size m)) n =
    Ret \<lparr>sp_data = sp_data (buf_storage m) + unat i * mr_buf_size m, sp_size = n\<rparr>"
proof -
  have "unat i * mr_buf_size m + mr_buf_size m \<le> mr_buf_size m * mr_buf_count m" by (rule slot_in_range [OF assms(2)])
  with assms show ?thesis by (simp add: recv_layout_def size_mul_def subspan_Ret)
qed

definition recv_effect ::
  "('b \<Rightarrow> buf_entry list) \<Rightarrow> ('b \<Rightarrow> nat) \<Rightarrow> 'b recv_world \<Rightarrow> 'b recv_world outcome \<Rightarrow> bool" where
  "recv_effect avail entries w r \<longleftrightarrow> (\<exists>w'. r = Ret w' \<and> own_step\<^sup>*\<^sup>* (recv_own avail w) (recv_own avail w')
     \<and> recv_ok avail entries w' \<and> recv_ids w' = recv_ids w \<and> buf_storage (rw_recv w') = buf_storage (rw_recv w)
     \<and> mr_buf_size (rw_recv w') = mr_buf_size (rw_recv w))"

lemma cq_ids_simps [simp]:
  "cq_ids [] = []" "cq_ids (cs @ ds) = cq_ids cs @ cq_ids ds"
  "cq_ids ((res, flags) # cs) = (if flags AND IORING_CQE_F_BUFFER \<noteq> 0 then cqe_buf_id flags # cq_ids cs else cq_ids cs)"
  by (simp_all add: cq_ids_def)

context provided_buffers
begin

lemma return_buffer_effect:
  assumes "recv_layout m" and "unat i < mr_buf_count m" and "buf_ring m = Some b" and "entries b = mr_buf_count m"
    and "length (avail b) < entries b"
  obtains b' where "recv_return_buffer bo i m = Ret (m\<lparr>buf_ring := Some b'\<rparr>)"
    and "avail b' = avail b @ [recv_entry m i]" and "entries b' = entries b"
proof -
  let ?e = "recv_entry m i"
  let ?b = "br_advance bo (br_add bo b ?e (br_mask bo (word_of_nat (entries b))) 0) 1"
  have "avail ?b = avail b @ [?e]" using publish [of b "[?e]"] assms(5) by simp
  moreover have "recv_return_buffer bo i m = Ret (m\<lparr>buf_ring := Some ?b\<rparr>)"
    using recv_slot [OF assms(1,2), of "mr_buf_size m"] assms(3,4)
    by (simp add: recv_return_buffer_def recv_entry_def)
  ultimately show ?thesis using that [of ?b] publish_entries(1) by blast
qed

text \<open>An identifier that is not with the kernel leaves room for it in the ring.\<close>

lemma recv_room:
  assumes "recv_ok avail entries w" and "partitioned (recv_ids w) (recv_own avail w)" and "buf_ring (rw_recv w) = Some b"
    and "length (map (snd \<circ> snd) (avail b)) < length (o_free (recv_own avail w)) \<or> o_held (recv_own avail w) a = Some i"
  shows "length (avail b) < entries b"
proof -
  have len: "length (avail b) \<le> length (o_free (recv_own avail w))"
    using assms(3) by (simp add: recv_own_def ring_ids_def)
  have e: "entries b = card (recv_ids w)" using assms(1,3) card_recv_ids [of w] by (auto simp: recv_ok_def)
  have "length (o_free (recv_own avail w)) \<le> card (recv_ids w)"
    using partitioned_count(1) [OF assms(2) finite_recv_ids] by simp
  then show ?thesis
    using assms(4) partitioned_give_room [OF assms(2) finite_recv_ids, of a i] len e by auto
qed

lemma kernel_data_effect:
  assumes "recv_ok avail entries w" and "buf_ring (rw_recv w) = Some b" and "avail b = (ad, len, bid) # avail b'"
    and "entries b' = entries b" and "0 < res \<longrightarrow> res \<le> uint len" and "mf \<in> {0, IORING_CQE_F_MORE}"
  shows "recv_effect avail entries w (Ret (w\<lparr>rw_recv := (rw_recv w)\<lparr>buf_ring := Some b'\<rparr>,
       rw_cq := rw_cq w @ [(res, buffer_flags bid mf)]\<rparr>))"
proof -
  have "len = word_of_nat (mr_buf_size (rw_recv w))"
    using assms(1-3) by (auto simp: recv_ok_def recv_entry_def)
  then have "uint len \<le> int (mr_buf_size (rw_recv w))"
    by (simp add: uint_word_of_nat_le)
  with assms(5) have sz: "0 < res \<longrightarrow> nat res \<le> mr_buf_size (rw_recv w)" by linarith
  have "own_step\<^sup>*\<^sup>* (recv_own avail w) (recv_own avail (w\<lparr>rw_recv := (rw_recv w)\<lparr>buf_ring := Some b'\<rparr>,
       rw_cq := rw_cq w @ [(res, buffer_flags bid mf)]\<rparr>))"
    unfolding recv_own_def using assms(2,3) buffer_flags_bits(1) [OF assms(6)] cqe_buf_id_buffer_flags [OF assms(6)]
    by (simp add: own_reorder ring_ids_def)
  then show ?thesis using assms sz buffer_flags_bits(1) [OF assms(6)]
    by (auto simp: recv_effect_def recv_ok_def recv_layout_def recv_sizes_def recv_ids_def recv_entry_def)
qed

lemma drain_effect:
  assumes "recv_ok avail entries w" and "partitioned (recv_ids w) (recv_own avail w)" and "rw_cq w = (res, flags) # cs"
  shows "recv_effect avail entries w (map_outcome_state (\<lambda>(m, r, _). w\<lparr>rw_recv := m, rw_ring := r, rw_cq := cs\<rparr>)
       (recv_complete bo lu self (rw_recv w) (rw_ring w) res flags))"
proof -
  let ?m = "rw_recv w"
  obtain b where b: "buf_ring ?m = Some b" "entries b = mr_buf_count ?m"
      "\<forall>e \<in> set (avail b). e = recv_entry ?m (snd (snd e))" and lay: "recv_layout ?m"
    using assms(1) by (auto simp: recv_ok_def)
  have arm: "\<exists>r'. recv_arm lu self m r = Ret r'" for m :: "'b multishot_recv" and r
    by (cases "io_uring_get_sqe lu r") (simp add: recv_arm_def edit_sqe_def split: option.split)
  consider (data) "0 < res" | (ret) "res \<le> 0" "flags AND IORING_CQE_F_BUFFER \<noteq> 0"
    | (plain) "res \<le> 0" "flags AND IORING_CQE_F_BUFFER = 0" by linarith
  then show ?thesis
  proof cases
    case data
    then have flag: "flags AND IORING_CQE_F_BUFFER \<noteq> 0" and sz: "nat res \<le> mr_buf_size ?m"
      using assms(1,3) by (auto simp: recv_ok_def recv_sizes_def)
    let ?m' = "?m\<lparr>pending := pending ?m @ [\<lparr>pi_buf_id = cqe_buf_id flags, pi_size = nat res\<rparr>]\<rparr>"
    obtain r' where r': "(if flags AND IORING_CQE_F_MORE = 0 then recv_arm lu self ?m' (rw_ring w) else Ret (rw_ring w)) = Ret r'"
      using arm by (cases "flags AND IORING_CQE_F_MORE = 0") auto
    have "own_step\<^sup>*\<^sup>* (recv_own avail w) (recv_own avail (w\<lparr>rw_recv := ?m'\<lparr>waiter := None\<rparr>, rw_ring := r', rw_cq := cs\<rparr>))"
      unfolding recv_own_def using assms(3) flag by (simp add: own_reorder)
    then show ?thesis using data r' assms(1,3) sz
      by (auto simp: recv_effect_def recv_complete_def Let_def recv_ok_def recv_layout_def recv_sizes_def recv_ids_def recv_entry_def)
  next
    case ret
    have "cqe_buf_id flags \<in> recv_ids w"
      using partitioned_free_in [OF assms(2)] assms(3) ret by (simp add: recv_own_def)
    then have lt: "unat (cqe_buf_id flags) < mr_buf_count ?m" by (rule recv_ids_bound [OF lay])
    have "length (avail b) < entries b"
      using assms(3) ret b(1) by (intro recv_room [OF assms(1,2) b(1)]) (simp add: recv_own_def ring_ids_def)
    from return_buffer_effect [OF lay lt b(1,2) this] obtain b'
      where b': "recv_return_buffer bo (cqe_buf_id flags) ?m = Ret (?m\<lparr>buf_ring := Some b'\<rparr>)"
        "avail b' = avail b @ [recv_entry ?m (cqe_buf_id flags)]" "entries b' = entries b" by blast
    let ?m' = "?m\<lparr>buf_ring := Some b', mr_error := (if res = 0 then - ENODATA else res)\<rparr>"
    have "own_step\<^sup>*\<^sup>* (recv_own avail w) (recv_own avail (w\<lparr>rw_recv := ?m'\<lparr>waiter := None\<rparr>, rw_ring := rw_ring w, rw_cq := cs\<rparr>))"
      unfolding recv_own_def using assms(3) ret b(1) b'(2) by (simp add: own_reorder ring_ids_def recv_entry_def)
    then show ?thesis using ret b b' assms(1,3)
      by (auto simp: recv_effect_def recv_complete_def Let_def recv_ok_def recv_layout_def recv_sizes_def recv_ids_def recv_entry_def)
  next
    case plain
    then have "recv_own avail (w\<lparr>rw_recv := ?m\<lparr>mr_error := e, waiter := None\<rparr>, rw_cq := cs\<rparr>) = recv_own avail w" for e
      using assms(3) by (simp add: recv_own_def)
    then show ?thesis using plain assms(1,3)
      by (auto simp: recv_effect_def recv_complete_def Let_def recv_ok_def recv_layout_def recv_sizes_def recv_ids_def recv_entry_def)
  qed
qed

text \<open>Taking a pending item and handing it to a new handle.\<close>

lemma take_effect:
  assumes "recv_ok avail entries w" and "rw_objs w a = None" and "pending (rw_recv w) = p # ps"
  shows "recv_effect avail entries w (Ret (deliver a w ((rw_recv w)\<lparr>pending := ps\<rparr>, Nx_value (take_item p))))"
proof -
  have "own_step\<^sup>*\<^sup>* (recv_own avail w) (recv_own avail (deliver a w ((rw_recv w)\<lparr>pending := ps\<rparr>, Nx_value (take_item p))))"
    unfolding recv_own_def deliver_def using assms(2,3) own_acquire_any [of "held_by rb_of (rw_objs w)" a]
    by (simp add: held_by_None rb_of_def take_item_def)
  then show ?thesis using assms
    by (auto simp: recv_effect_def deliver_def recv_ok_def recv_layout_def recv_sizes_def recv_ids_def recv_entry_def take_item_def)
qed

text \<open>A call that takes nothing leaves the buffers where they are.\<close>

lemma idle_effect:
  assumes "recv_ok avail entries w" and "pending m = pending (rw_recv w)" and "buf_ring m = buf_ring (rw_recv w)"
    and "buf_storage m = buf_storage (rw_recv w)" and "mr_buf_size m = mr_buf_size (rw_recv w)"
    and "mr_buf_count m = mr_buf_count (rw_recv w)"
  shows "recv_effect avail entries w (Ret (w\<lparr>rw_recv := m\<rparr>))"
proof -
  have "recv_own avail (w\<lparr>rw_recv := m\<rparr>) = recv_own avail w" using assms by (simp add: recv_own_def)
  then show ?thesis using assms
    by (auto simp: recv_effect_def recv_ok_def recv_layout_def recv_sizes_def recv_ids_def recv_entry_def)
qed

lemma idle_self: "recv_ok avail entries w \<Longrightarrow> recv_effect avail entries w (Ret w)"
  using idle_effect [of w "rw_recv w"] by simp

lemma next_effect:
  assumes "recv_ok avail entries w" and "rw_objs w a = None"
  shows "recv_effect avail entries w (Ret (deliver a w (recv_next fiber st (rw_recv w))))"
    and "recv_effect avail entries w (Ret (deliver a w (recv_next_resume (rw_recv w))))"
proof -
  show "recv_effect avail entries w (Ret (deliver a w (recv_next fiber st (rw_recv w))))"
  proof (cases "pending (rw_recv w)")
    case Nil
    then show ?thesis
      by (auto simp: recv_next_def deliver_def recv_ended_def intro!: idle_effect [OF assms(1)] idle_self [OF assms(1)])
  next
    case (Cons p ps)
    then show ?thesis using take_effect [OF assms] by (simp add: recv_next_def)
  qed
  show "recv_effect avail entries w (Ret (deliver a w (recv_next_resume (rw_recv w))))"
  proof (cases "pending (rw_recv w)")
    case Nil
    then show ?thesis
      by (auto simp: recv_next_resume_def deliver_def recv_ended_def intro!: idle_effect [OF assms(1)] idle_self [OF assms(1)])
  next
    case (Cons p ps)
    then show ?thesis using take_effect [OF assms] by (simp add: recv_next_resume_def)
  qed
qed

lemma recv_release_effect:
  assumes "recv_ok avail entries w" and "partitioned (recv_ids w) (recv_own avail w)" and "rw_objs w a = Some h"
  obtains m b b' where "received_buffer_release bo h w = Ret (w\<lparr>rw_recv := m\<rparr>)"
    and "m = (rw_recv w)\<lparr>buf_ring := Some b'\<rparr>" and "buf_ring (rw_recv w) = Some b" and "entries b' = entries b"
    and "avail b' = avail b @ map (recv_entry (rw_recv w)) (opt_list (held_by rb_of (rw_objs w) a))"
proof -
  let ?m = "rw_recv w"
  obtain b where b: "buf_ring ?m = Some b" "entries b = mr_buf_count ?m" and lay: "recv_layout ?m"
    using assms(1) by (auto simp: recv_ok_def)
  show ?thesis
  proof (cases "rb_owner h")
    case False
    then show ?thesis using that [of ?m b b] b(1) assms(3)
      by (simp add: received_buffer_release_def held_by_def rb_of_def)
  next
    case True
    then have h: "o_held (recv_own avail w) a = Some (rb_buf_id h)"
      using assms(3) by (simp add: recv_own_def held_by_def rb_of_def)
    have lt: "unat (rb_buf_id h) < mr_buf_count ?m"
      using partitioned_held_in [OF assms(2) h] by (rule recv_ids_bound [OF lay])
    have "length (avail b) < entries b" using h by (intro recv_room [OF assms(1,2) b(1)]) blast
    from return_buffer_effect [OF lay lt b this] obtain b'
      where "recv_return_buffer bo (rb_buf_id h) ?m = Ret (?m\<lparr>buf_ring := Some b'\<rparr>)"
        "avail b' = avail b @ [recv_entry ?m (rb_buf_id h)]" "entries b' = entries b" by blast
    then show ?thesis using that [of "?m\<lparr>buf_ring := Some b'\<rparr>" b' b] True b(1) assms(3)
      by (simp add: received_buffer_release_def held_by_def rb_of_def)
  qed
qed

lemma recv_move_ctor_effect:
  assumes "recv_ok avail entries w" and "rw_objs w dst = None" and "rw_objs w src \<noteq> None"
  shows "recv_effect avail entries w (received_buffer_move_ctor dst src w)"
proof -
  from assms(3) obtain oth where oth: "rw_objs w src = Some oth" by blast
  let ?w = "w\<lparr>rw_objs := (rw_objs w)(src \<mapsto> oth\<lparr>rb_owner := False\<rparr>, dst \<mapsto> oth)\<rparr>"
  have "own_step\<^sup>*\<^sup>* (recv_own avail w) (recv_own avail ?w)"
    using own_move [of "held_by rb_of (rw_objs w)" dst _ src] assms(2) oth
    by (simp add: recv_own_def held_by_None held_by_Some rb_of_def)
  then show ?thesis using assms(1) oth
    by (auto simp: recv_effect_def received_buffer_move_ctor_def recv_ok_def recv_sizes_def recv_ids_def)
qed

lemma recv_ok_returned:
  assumes "recv_ok avail entries w" and "m = (rw_recv w)\<lparr>buf_ring := Some b'\<rparr>" and "buf_ring (rw_recv w) = Some b"
    and "entries b' = entries b" and "avail b' = avail b @ map (recv_entry (rw_recv w)) is"
    and "\<And>a h. objs a = Some h \<Longrightarrow> rb_size h \<le> mr_buf_size (rw_recv w)"
  shows "recv_ok avail entries (w\<lparr>rw_recv := m, rw_objs := objs\<rparr>)"
  using assms by (auto simp: recv_ok_def recv_sizes_def recv_layout_def recv_entry_def)

lemma recv_dtor_effect:
  assumes "recv_ok avail entries w" and "partitioned (recv_ids w) (recv_own avail w)" and "rw_objs w a \<noteq> None"
  shows "recv_effect avail entries w (received_buffer_dtor bo a w)"
proof -
  from assms(3) obtain h where h: "rw_objs w a = Some h" by blast
  from recv_release_effect [OF assms(1,2) h] obtain m b b'
    where rel: "received_buffer_release bo h w = Ret (w\<lparr>rw_recv := m\<rparr>)"
      and m: "m = (rw_recv w)\<lparr>buf_ring := Some b'\<rparr>" "buf_ring (rw_recv w) = Some b" "entries b' = entries b"
      "avail b' = avail b @ map (recv_entry (rw_recv w)) (opt_list (held_by rb_of (rw_objs w) a))" by blast
  let ?w = "w\<lparr>rw_recv := m, rw_objs := (rw_objs w)(a := None)\<rparr>"
  have "own_step\<^sup>*\<^sup>* (recv_own avail w) (recv_own avail ?w)"
    unfolding recv_own_def using m
    by (simp add: ring_ids_def own_release_reorder recv_entry_def comp_def)
  moreover have "recv_ok avail entries ?w"
    using assms(1) by (intro recv_ok_returned [OF assms(1) m]) (auto simp: recv_ok_def recv_sizes_def split: if_splits)
  ultimately show ?thesis using rel h m(1)
    by (simp add: recv_effect_def received_buffer_dtor_def recv_ids_def)
qed

lemma recv_move_assign_effect:
  assumes "recv_ok avail entries w" and "partitioned (recv_ids w) (recv_own avail w)"
    and "rw_objs w dst \<noteq> None" and "rw_objs w src \<noteq> None"
  shows "recv_effect avail entries w (received_buffer_move_assign bo dst src w)"
proof (cases "dst = src")
  case True
  then show ?thesis using idle_self [OF assms(1)] by (simp add: received_buffer_move_assign_def)
next
  case False
  from assms obtain me oth where o: "rw_objs w dst = Some me" "rw_objs w src = Some oth" by blast
  from recv_release_effect [OF assms(1,2) o(1)] obtain m b b'
    where rel: "received_buffer_release bo me w = Ret (w\<lparr>rw_recv := m\<rparr>)"
      and m: "m = (rw_recv w)\<lparr>buf_ring := Some b'\<rparr>" "buf_ring (rw_recv w) = Some b" "entries b' = entries b"
      "avail b' = avail b @ map (recv_entry (rw_recv w)) (opt_list (held_by rb_of (rw_objs w) dst))" by blast
  let ?objs = "(rw_objs w)(src \<mapsto> oth\<lparr>rb_owner := False\<rparr>, dst \<mapsto> oth)"
  let ?w = "w\<lparr>rw_recv := m, rw_objs := ?objs\<rparr>"
  have "held_by rb_of ?objs = (held_by rb_of (rw_objs w))(src := None, dst := held_by rb_of (rw_objs w) src)"
    using o by (simp add: held_by_Some rb_of_def)
  then have "own_step\<^sup>*\<^sup>* (recv_own avail w) (recv_own avail ?w)"
    unfolding recv_own_def using m
    by (simp add: ring_ids_def own_assign_reorder [OF False] recv_entry_def comp_def)
  moreover have "rb_size oth \<le> mr_buf_size (rw_recv w)" using assms(1) o(2) by (auto simp: recv_ok_def recv_sizes_def)
  then have "recv_ok avail entries ?w"
    using assms(1) by (intro recv_ok_returned [OF assms(1) m]) (auto simp: recv_ok_def recv_sizes_def split: if_splits)
  ultimately show ?thesis using rel o False m(1)
    by (simp add: recv_effect_def received_buffer_move_assign_def recv_ids_def)
qed

lemma recv_step_effect:
  assumes "recv_ok avail entries w" and "partitioned (recv_ids w) (recv_own avail w)"
    and "recv_step bo avail entries lu self w r"
  shows "recv_effect avail entries w r"
  using assms(3)
proof cases
  case (rs_kernel_end res)
  then have "recv_own avail (w\<lparr>rw_cq := rw_cq w @ [(res, 0)]\<rparr>) = recv_own avail w" by (simp add: recv_own_def)
  then show ?thesis using rs_kernel_end assms(1)
    by (auto simp: recv_effect_def recv_ok_def recv_sizes_def recv_ids_def)
qed (auto intro: kernel_data_effect [OF assms(1)] drain_effect [OF assms(1,2)] next_effect [OF assms(1)]
    recv_move_ctor_effect [OF assms(1)] recv_move_assign_effect [OF assms(1,2)] recv_dtor_effect [OF assms(1,2)])

end

definition recv_cstep ::
  "'b buf_ring_ops \<Rightarrow> ('b \<Rightarrow> buf_entry list) \<Rightarrow> ('b \<Rightarrow> nat) \<Rightarrow> liburing \<Rightarrow> u64 \<Rightarrow> 'b recv_world \<Rightarrow> 'b recv_world \<Rightarrow> bool" where
  "recv_cstep bo avail entries lu self w w' \<longleftrightarrow> recv_step bo avail entries lu self w (Ret w')"

sublocale provided_buffers \<subseteq> rb: raii_pool "recv_cstep bo avail entries lu self" "recv_own avail" recv_ids "recv_ok avail entries"
  for lu self
proof unfold_locales
  fix s t :: "'b recv_world"
  assume a: "recv_ok avail entries s" "partitioned (recv_ids s) (recv_own avail s)" "recv_cstep bo avail entries lu self s t"
  from recv_step_effect [OF a(1,2) a(3) [unfolded recv_cstep_def]]
  show "own_step\<^sup>*\<^sup>* (recv_own avail s) (recv_own avail t)" "recv_ok avail entries t \<and> recv_ids t = recv_ids s"
    by (auto simp: recv_effect_def)
qed

context provided_buffers
begin

lemma recv_run:
  assumes "(recv_cstep bo avail entries lu self)\<^sup>*\<^sup>* w0 w" and "recv_ok avail entries w0"
    and "partitioned (recv_ids w0) (recv_own avail w0)"
  shows "recv_ok avail entries w \<and> partitioned (recv_ids w) (recv_own avail w) \<and> recv_ids w = recv_ids w0
    \<and> buf_storage (rw_recv w) = buf_storage (rw_recv w0) \<and> mr_buf_size (rw_recv w) = mr_buf_size (rw_recv w0)"
  using assms(1)
proof (induction rule: rtranclp_induct)
  case base
  then show ?case using assms(2,3) by simp
next
  case (step u t)
  then have u: "recv_ok avail entries u" "partitioned (recv_ids u) (recv_own avail u)" by auto
  from recv_step_effect [OF u] step.hyps(2)
  have "buf_storage (rw_recv t) = buf_storage (rw_recv u)" "mr_buf_size (rw_recv t) = mr_buf_size (rw_recv u)"
    by (auto simp: recv_cstep_def recv_effect_def)
  with rb.step_partitioned [OF u step.hyps(2)] step.IH show ?case by auto
qed

end

text \<open>A ring of provided buffers as two lists: what was staged since offset zero, and what is provided.\<close>

record ref_ring =
  rr_size :: nat
  rr_staged :: "buf_entry list"
  rr_avail :: "buf_entry list"

definition ref_bufs :: "ref_ring buf_ring_ops" where
  "ref_bufs = \<lparr>br_setup = (\<lambda>n g. Inr \<lparr>rr_size = unat n, rr_staged = [], rr_avail = []\<rparr>),
     br_add = (\<lambda>b e msk off. b\<lparr>rr_staged := (if off = 0 then [e] else rr_staged b @ [e])\<rparr>),
     br_advance = (\<lambda>b k. b\<lparr>rr_avail := rr_avail b @ take (nat k) (rr_staged b), rr_staged := []\<rparr>),
     br_mask = (\<lambda>n. int (unat n) - 1)\<rparr>"

lemma ref_add_all:
  "0 < off \<Longrightarrow> br_add_all ref_bufs msk off es b = b\<lparr>rr_staged := rr_staged b @ es\<rparr>"
  by (induction es arbitrary: off b) (simp_all add: ref_bufs_def)

lemma ref_add_all_0:
  "br_add_all ref_bufs msk 0 es b = (if es = [] then b else b\<lparr>rr_staged := es\<rparr>)"
  by (cases es) (simp_all add: ref_add_all ref_bufs_def [THEN arg_cong [where f = br_add]])

interpretation ref_pb: provided_buffers ref_bufs rr_avail rr_size
  by unfold_locales (auto simp: ref_add_all_0 ref_bufs_def [THEN arg_cong [where f = br_advance]]
      ref_bufs_def [THEN arg_cong [where f = br_setup]] ref_bufs_def [THEN arg_cong [where f = br_add]])

subsection \<open>What construction gives\<close>

lemma recv_entries_fit:
  "recv_entries st bsz is = Ret es \<Longrightarrow> i \<in> set is \<Longrightarrow> size_mul i bsz + bsz \<le> sp_size st"
  by (induction "is" arbitrary: es) (auto simp: outcome_simps subspan_def split: if_splits)

lemma recv_entries_eval:
  assumes "\<And>i. i \<in> set is \<Longrightarrow> i * bsz + bsz \<le> sp_size st" and "sp_size st < size_t_mod"
  shows "recv_entries st bsz is = Ret (map (\<lambda>i. (sp_data st + i * bsz, word_of_nat bsz, word_of_nat i)) is)"
  using assms
proof (induction "is")
  case Nil
  then show ?case by simp
next
  case (Cons i "is")
  from Cons.prems(1) [of i] Cons.prems(2) have "size_mul i bsz = i * bsz"
    by (simp add: size_mul_def)
  with Cons show ?case by (simp add: subspan_Ret)
qed

definition recv_start :: "'b multishot_recv \<Rightarrow> uring \<Rightarrow> 'b recv_world" where
  "recv_start m r = \<lparr>rw_recv = m, rw_objs = (\<lambda>_. None), rw_cq = [], rw_ring = r\<rparr>"

lemma recv_ctor_cases:
  assumes "multishot_recv_ctor bo lu base self fd bsz bcnt g (Some r) = Ret (g', tr, Inr m)"
  obtains b es r' where "br_setup bo (word_of_nat (bit_ceil bcnt)) g = Inr b" and "0 < bsz"
    and "recv_entries \<lparr>sp_data = base, sp_size = size_mul bsz (bit_ceil bcnt)\<rparr> bsz [0..<bit_ceil bcnt] = Ret es"
    and "tr = Some r'" and "recv_sqe fd g self blank_sqe \<in> set (inflight r')"
    and "m = \<lparr>mr_fd = fd, bgid = g, mr_buf_size = bsz, mr_buf_count = bit_ceil bcnt,
        buf_storage = \<lparr>sp_data = base, sp_size = size_mul bsz (bit_ceil bcnt)\<rparr>,
        buf_ring = Some (br_advance bo (br_add_all bo (br_mask bo (word_of_nat (bit_ceil bcnt))) 0 es b) (int (bit_ceil bcnt))),
        pending = [], waiter = None, mr_error = 0\<rparr>"
  using assms unfolding multishot_recv_ctor_def Let_def
  by (auto simp: outcome_simps io_uring_get_sqe_def io_uring_submit_def split: if_splits sum.splits)

lemma recv_ctor_start:
  assumes "provided_buffers bo avail entries" and "bcnt \<le> 2 ^ 15"
    and "multishot_recv_ctor bo lu base self fd bsz bcnt g (Some r) = Ret (g', tr, Inr m)"
  shows "recv_ok avail entries (recv_start m r')" and "partitioned (recv_ids (recv_start m r')) (recv_own avail (recv_start m r'))"
    and "mr_buf_count m = bit_ceil bcnt"
proof -
  let ?n = "bit_ceil bcnt"
  have n: "?n \<le> 2 ^ 15" by (rule bit_ceil_least [OF assms(2)])
  from recv_ctor_cases [OF assms(3)] obtain b es where b: "br_setup bo (word_of_nat ?n) g = Inr b" "0 < bsz"
    and es: "recv_entries \<lparr>sp_data = base, sp_size = size_mul bsz ?n\<rparr> bsz [0..<?n] = Ret es"
    and m: "m = \<lparr>mr_fd = fd, bgid = g, mr_buf_size = bsz, mr_buf_count = ?n,
        buf_storage = \<lparr>sp_data = base, sp_size = size_mul bsz ?n\<rparr>,
        buf_ring = Some (br_advance bo (br_add_all bo (br_mask bo (word_of_nat ?n)) 0 es b) (int ?n)),
        pending = [], waiter = None, mr_error = 0\<rparr>" by blast
  have "size_mul i bsz + bsz \<le> size_mul bsz ?n" if "i < ?n" for i
    using recv_entries_fit [OF es, of i] that by simp
  from size_mul_no_overflow [OF this b(2)] have no: "bsz * ?n < size_t_mod" .
  then have sz: "size_mul bsz ?n = bsz * ?n" by (simp add: size_mul_def)
  have es': "es = map (\<lambda>i. (base + i * bsz, word_of_nat bsz, word_of_nat i)) [0..<?n]"
    using es recv_entries_eval [of "[0..<?n]" bsz "\<lparr>sp_data = base, sp_size = size_mul bsz ?n\<rparr>"] slot_in_range no sz by simp
  have u: "unat (word_of_nat ?n :: u32) = ?n" using n by (intro unat_word_of_nat_small) simp
  have bb: "avail b = []" "entries b = ?n" using provided_buffers.setup_empty [OF assms(1) b(1)] u by simp_all
  let ?b = "br_advance bo (br_add_all bo (br_mask bo (word_of_nat ?n)) 0 es b) (int ?n)"
  have av: "avail ?b = es" "entries ?b = ?n"
    using provided_buffers.publish [OF assms(1), of b es] provided_buffers.publish_entries(2) [OF assms(1)] bb es' by simp_all
  have ids: "map (snd \<circ> snd) es = map word_of_nat [0..<?n]" using es' by simp
  have un: "unat (word_of_nat i :: u16) = i" if "i < ?n" for i using that n by (intro unat_word_of_nat_small) simp
  have dist: "distinct (map word_of_nat [0..<?n] :: u16 list)" using n by (intro distinct_map_word_of_nat) simp
  show "recv_ok avail entries (recv_start m r')"
    using m av es' un n no sz
    by (auto simp: recv_ok_def recv_start_def recv_layout_def recv_sizes_def recv_entry_def)
  show "partitioned (recv_ids (recv_start m r')) (recv_own avail (recv_start m r'))"
    using m av ids dist by (simp add: partitioned_def recv_own_def recv_ids_def recv_start_def ring_ids_def)
  show "mr_buf_count m = ?n" using m by simp
qed

subsection \<open>Properties\<close>

lemma recv_data_spans:
  assumes "recv_layout m" and "rb_owner x" and "unat (rb_buf_id x) < mr_buf_count m" and "rb_size x \<le> mr_buf_size m"
    and "rb_owner y" and "unat (rb_buf_id y) < mr_buf_count m" and "rb_size y \<le> mr_buf_size m" and "rb_buf_id x \<noteq> rb_buf_id y"
  shows "\<exists>sx sy. received_buffer_data m x = Ret sx \<and> received_buffer_data m y = Ret sy
    \<and> sp_size sx = rb_size x \<and> sp_size sy = rb_size y
    \<and> span_bytes sx \<inter> span_bytes sy = {} \<and> span_bytes sx \<union> span_bytes sy \<subseteq> span_bytes (buf_storage m)"
proof -
  let ?b = "sp_data (buf_storage m)" and ?n = "mr_buf_size m"
  let ?i = "unat (rb_buf_id x)" and ?j = "unat (rb_buf_id y)"
  have "?i \<noteq> ?j" using assms(8) by (simp add: word_unat_eq_iff)
  then have disj: "{?b + ?i * ?n ..< ?b + ?i * ?n + ?n} \<inter> {?b + ?j * ?n ..< ?b + ?j * ?n + ?n} = {}"
    by (rule slots_disjoint)
  have "{?b + ?i * ?n ..< ?b + ?i * ?n + rb_size x} \<subseteq> {?b + ?i * ?n ..< ?b + ?i * ?n + ?n}"
    "{?b + ?j * ?n ..< ?b + ?j * ?n + rb_size y} \<subseteq> {?b + ?j * ?n ..< ?b + ?j * ?n + ?n}" using assms(4,7) by auto
  with disj have "{?b + ?i * ?n ..< ?b + ?i * ?n + rb_size x} \<inter> {?b + ?j * ?n ..< ?b + ?j * ?n + rb_size y} = {}" by blast
  moreover have "sp_size (buf_storage m) = ?n * mr_buf_count m" using assms(1) by (simp add: recv_layout_def)
  ultimately show ?thesis
    using recv_slot [OF assms(1,3,4)] recv_slot [OF assms(1,6,7)] assms(2,4,5,7)
      slot_in_range [OF assms(3), of ?n] slot_in_range [OF assms(6), of ?n]
    by (auto simp: received_buffer_data_def span_bytes_def)
qed

text \<open>
  C11. Ownership of receive buffers. After construction for at most \<open>2 ^ 15\<close> buffers and any
  interleaving of kernel completions, drained completions, calls of \<open>next\<close> and operations
  on handles, every buffer is in exactly one place: provided to the kernel, in an undrained
  completion, pending, or held by one handle. Every operation returns without undefined
  behaviour, and the spans of two handles have the received sizes, lie in the storage and
  do not overlap.
\<close>

theorem recv_buffer_safety:
  assumes "provided_buffers bo avail entries" and "bcnt \<le> 2 ^ 15"
    and "multishot_recv_ctor bo lu base self fd bsz bcnt g (Some r) = Ret (g', Some r', Inr m)"
    and "(recv_cstep bo avail entries lu self)\<^sup>*\<^sup>* (recv_start m r') w"
  shows "length (ring_ids avail (buf_ring (rw_recv w))) + length (cq_ids (rw_cq w)) + length (pending (rw_recv w))
        + card (dom (held_by rb_of (rw_objs w))) = bit_ceil bcnt
    \<and> distinct (ring_ids avail (buf_ring (rw_recv w)) @ cq_ids (rw_cq w) @ map pi_buf_id (pending (rw_recv w)))
    \<and> (\<forall>q. recv_step bo avail entries lu self w q \<longrightarrow> (\<exists>w'. q = Ret w'))
    \<and> (\<forall>a b x y. rw_objs w a = Some x \<and> rw_objs w b = Some y \<and> rb_owner x \<and> rb_owner y \<and> a \<noteq> b \<longrightarrow>
        (\<exists>sx sy. received_buffer_data (rw_recv w) x = Ret sx \<and> received_buffer_data (rw_recv w) y = Ret sy
          \<and> sp_size sx = rb_size x \<and> sp_size sy = rb_size y \<and> span_bytes sx \<inter> span_bytes sy = {}
          \<and> span_bytes sx \<union> span_bytes sy \<subseteq> span_bytes (buf_storage m)))"
proof -
  note start = recv_ctor_start(1,2) [OF assms(1-3), where r' = r'] recv_ctor_start(3) [OF assms(1-3)]
  from provided_buffers.recv_run [OF assms(1,4) start(1,2)]
  have ok: "recv_ok avail entries w" and part: "partitioned (recv_ids w) (recv_own avail w)"
    and ids: "recv_ids w = recv_ids (recv_start m r')" and st: "buf_storage (rw_recv w) = buf_storage m"
    by (auto simp: recv_start_def)
  have lay: "recv_layout (rw_recv w)" using ok by (simp add: recv_ok_def)
  have "card (recv_ids w) = bit_ceil bcnt"
    unfolding ids using card_recv_ids [of "recv_start m r'"] start(1,3) by (simp add: recv_ok_def recv_start_def)
  then have cnt: "length (o_free (recv_own avail w)) + card (dom (o_held (recv_own avail w))) = bit_ceil bcnt"
    using partitioned_count(1) [OF part finite_recv_ids] by simp
  have dist: "distinct (o_free (recv_own avail w))" using part by (simp add: partitioned_def)
  have steps: "\<exists>w'. q = Ret w'" if "recv_step bo avail entries lu self w q" for q
    using provided_buffers.recv_step_effect [OF assms(1) ok part that] by (auto simp: recv_effect_def)
  have held: "o_held (recv_own avail w) a = Some (rb_buf_id x)" if "rw_objs w a = Some x" "rb_owner x" for a x
    using that by (simp add: recv_own_def held_by_def rb_of_def)
  have spans: "\<exists>sx sy. received_buffer_data (rw_recv w) x = Ret sx \<and> received_buffer_data (rw_recv w) y = Ret sy
          \<and> sp_size sx = rb_size x \<and> sp_size sy = rb_size y \<and> span_bytes sx \<inter> span_bytes sy = {}
          \<and> span_bytes sx \<union> span_bytes sy \<subseteq> span_bytes (buf_storage m)"
    if xy: "rw_objs w a = Some x" "rw_objs w b = Some y" "rb_owner x" "rb_owner y" "a \<noteq> b" for a b x y
  proof -
    note hx = held [OF xy(1,3)] and hy = held [OF xy(2,4)]
    have ne: "rb_buf_id x \<noteq> rb_buf_id y" using partitioned_exclusive [OF part hx] hy xy(5) by auto
    have sz: "rb_size x \<le> mr_buf_size (rw_recv w)" "rb_size y \<le> mr_buf_size (rw_recv w)"
      using ok xy(1,2) by (auto simp: recv_ok_def recv_sizes_def)
    from recv_data_spans [OF lay xy(3) recv_ids_bound [OF lay partitioned_held_in [OF part hx]] sz(1)
        xy(4) recv_ids_bound [OF lay partitioned_held_in [OF part hy]] sz(2) ne] st
    show ?thesis by simp
  qed
  from cnt dist steps spans show ?thesis by (auto simp: recv_own_def)
qed

text \<open>A receiver with two buffers of sixteen bytes at address 64, on a ring with eight entries.\<close>

definition example_recv :: "ref_ring multishot_recv" where
  "example_recv = \<lparr>mr_fd = 5, bgid = 0, mr_buf_size = 16, mr_buf_count = 2, buf_storage = \<lparr>sp_data = 64, sp_size = 32\<rparr>,
     buf_ring = Some \<lparr>rr_size = 2, rr_staged = [], rr_avail = [(64, 16, 0), (80, 16, 1)]\<rparr>, pending = [], waiter = None, mr_error = 0\<rparr>"

definition example_recv_ring :: uring where
  "example_recv_ring = empty_uring\<lparr>inflight := [recv_sqe 5 0 4096 blank_sqe]\<rparr>"

lemma example_recv_ctor:
  "multishot_recv_ctor ref_bufs (sq_of_size 8) 64 4096 5 16 2 0 (Some empty_uring) = Ret (1, Some example_recv_ring, Inr example_recv)"
proof -
  have two: "bit_ceil 2 = 2" "[0..<2] = [0, Suc 0]" using bit_ceil_power [of 1] by (simp_all add: upt_rec)
  then show ?thesis
    by (simp add: multishot_recv_ctor_def Let_def size_mul_def size_t_mod_def subspan_def ref_bufs_def io_uring_get_sqe_def
        io_uring_submit_def sq_of_size_def example_recv_def example_recv_ring_def empty_uring_def edit_sqe_def)
qed

text \<open>The kernel fills buffer 0 with four bytes, the completion is drained and \<open>next\<close> hands the buffer out.\<close>

definition example_recv_world :: "ref_ring recv_world" where
  "example_recv_world = (recv_start (example_recv\<lparr>buf_ring := Some \<lparr>rr_size = 2, rr_staged = [], rr_avail = [(80, 16, 1)]\<rparr>\<rparr>) example_recv_ring)
     \<lparr>rw_objs := [0 \<mapsto> \<lparr>rb_owner = True, rb_buf_id = 0, rb_size = 4\<rparr>]\<rparr>"

lemma example_run_pending:
  "(recv_cstep ref_bufs rr_avail rr_size (sq_of_size 8) 4096)\<^sup>*\<^sup>* (recv_start example_recv example_recv_ring)
     (recv_start (example_recv\<lparr>buf_ring := Some \<lparr>rr_size = 2, rr_staged = [], rr_avail = [(80, 16, 1)]\<rparr>, pending := [\<lparr>pi_buf_id = 0, pi_size = 4\<rparr>]\<rparr>) example_recv_ring)"
proof -
  let ?R = "recv_cstep ref_bufs rr_avail rr_size (sq_of_size 8) 4096"
  let ?m = "example_recv\<lparr>buf_ring := Some \<lparr>rr_size = 2, rr_staged = [], rr_avail = [(80, 16, 1)]\<rparr>\<rparr>"
  let ?w0 = "recv_start example_recv example_recv_ring" and ?fl = "buffer_flags 0 IORING_CQE_F_MORE"
  let ?w1 = "(recv_start ?m example_recv_ring)\<lparr>rw_cq := [(4, ?fl)]\<rparr>"
  let ?w2 = "recv_start (?m\<lparr>pending := [\<lparr>pi_buf_id = 0, pi_size = 4\<rparr>]\<rparr>) example_recv_ring"
  have mf: "IORING_CQE_F_MORE \<in> {0, IORING_CQE_F_MORE}" by simp
  have "?R ?w0 ?w1" unfolding recv_cstep_def
    using rs_kernel_data [of ?w0 "\<lparr>rr_size = 2, rr_staged = [], rr_avail = [(64, 16, 0), (80, 16, 1)]\<rparr>" rr_avail 64 16 0
        "\<lparr>rr_size = 2, rr_staged = [], rr_avail = [(80, 16, 1)]\<rparr>" rr_size 4 IORING_CQE_F_MORE ref_bufs "sq_of_size 8" 4096]
    by (simp add: recv_start_def example_recv_def)
  moreover have "?R ?w1 ?w2" unfolding recv_cstep_def
    using rs_drain [of ?w1 4 ?fl "[]" ref_bufs rr_avail rr_size "sq_of_size 8" 4096] buffer_flags_bits [OF mf, of 0] cqe_buf_id_buffer_flags [OF mf, of 0]
    by (simp add: recv_start_def recv_complete_def example_recv_def Let_def flag_defs)
  ultimately show ?thesis by (meson rtranclp.rtrancl_into_rtrancl rtranclp.rtrancl_refl)
qed

lemma example_recv_run:
  "(recv_cstep ref_bufs rr_avail rr_size (sq_of_size 8) 4096)\<^sup>*\<^sup>* (recv_start example_recv example_recv_ring) example_recv_world"
proof -
  let ?w2 = "recv_start (example_recv\<lparr>buf_ring := Some \<lparr>rr_size = 2, rr_staged = [], rr_avail = [(80, 16, 1)]\<rparr>,
    pending := [\<lparr>pi_buf_id = 0, pi_size = 4\<rparr>]\<rparr>) example_recv_ring"
  have "recv_cstep ref_bufs rr_avail rr_size (sq_of_size 8) 4096 ?w2 example_recv_world" unfolding recv_cstep_def
    using rs_next [of ?w2 0 ref_bufs rr_avail rr_size "sq_of_size 8" 4096 7 no_token]
    by (simp add: recv_start_def recv_next_def deliver_def take_item_def example_recv_world_def example_recv_def)
  with example_run_pending show ?thesis by (rule rtranclp.rtrancl_into_rtrancl)
qed

theorem recv_buffer_safety_witness:
  "length (ring_ids rr_avail (buf_ring (rw_recv example_recv_world))) + length (cq_ids (rw_cq example_recv_world))
        + length (pending (rw_recv example_recv_world)) + card (dom (held_by rb_of (rw_objs example_recv_world))) = 2
    \<and> rw_objs example_recv_world 0 \<noteq> None"
proof -
  have "bit_ceil 2 = 2" using bit_ceil_power [of 1] by simp
  with recv_buffer_safety [OF ref_pb.provided_buffers_axioms _ example_recv_ctor example_recv_run]
  have "length (ring_ids rr_avail (buf_ring (rw_recv example_recv_world))) + length (cq_ids (rw_cq example_recv_world))
        + length (pending (rw_recv example_recv_world)) + card (dom (held_by rb_of (rw_objs example_recv_world))) = 2" by simp
  then show ?thesis by (simp add: example_recv_world_def)
qed

subsection \<open>Order and re-arming\<close>

text \<open>What one receiver sees: a completion handed to it, or a call of \<open>next\<close>.\<close>

datatype recv_event = Ev_complete int u32 | Ev_next stop_token | Ev_resume

fun recv_trace ::
  "'b buf_ring_ops \<Rightarrow> liburing \<Rightarrow> u64 \<Rightarrow> nat \<Rightarrow> recv_event list \<Rightarrow> 'b multishot_recv \<times> uring \<Rightarrow>
   (received_buffer list \<times> 'b multishot_recv \<times> uring) outcome" where
  "recv_trace bo lu self fiber [] (m, r) = Ret ([], m, r)"
| "recv_trace bo lu self fiber (Ev_complete res flags # evs) (m, r) =
     bind_outcome (recv_complete bo lu self m r res flags) (\<lambda>(m1, r1, _). recv_trace bo lu self fiber evs (m1, r1))"
| "recv_trace bo lu self fiber (Ev_next st # evs) (m, r) =
     (let (m1, x) = recv_next fiber st m in
      bind_outcome (recv_trace bo lu self fiber evs (m1, r)) (\<lambda>(out, mr).
        Ret ((case x of Nx_value b \<Rightarrow> [b] | _ \<Rightarrow> []) @ out, mr)))"
| "recv_trace bo lu self fiber (Ev_resume # evs) (m, r) =
     (let (m1, x) = recv_next_resume m in
      bind_outcome (recv_trace bo lu self fiber evs (m1, r)) (\<lambda>(out, mr).
        Ret ((case x of Nx_value b \<Rightarrow> [b] | _ \<Rightarrow> []) @ out, mr)))"

text \<open>The chunks a list of events brings, as the handles they should be delivered in.\<close>

fun chunks :: "recv_event list \<Rightarrow> received_buffer list" where
  "chunks [] = []"
| "chunks (Ev_complete res flags # evs) =
     (if 0 < res then [\<lparr>rb_owner = True, rb_buf_id = cqe_buf_id flags, rb_size = nat res\<rparr>] else []) @ chunks evs"
| "chunks (Ev_next _ # evs) = chunks evs"
| "chunks (Ev_resume # evs) = chunks evs"

text \<open>The buffers that completions without data bring: the kernel selected them and did not use them.\<close>

fun unused_bufs :: "recv_event list \<Rightarrow> u16 list" where
  "unused_bufs [] = []"
| "unused_bufs (Ev_complete res flags # evs) =
     (if res \<le> 0 \<and> flags AND IORING_CQE_F_BUFFER \<noteq> 0 then [cqe_buf_id flags] else []) @ unused_bufs evs"
| "unused_bufs (Ev_next _ # evs) = unused_bufs evs"
| "unused_bufs (Ev_resume # evs) = unused_bufs evs"

lemma append_shift: "xs @ ys = zs \<Longrightarrow> out @ ps = ys @ ds \<Longrightarrow> xs @ out @ ps = zs @ ds"
  by (metis append_assoc)

lemma recv_arm_eval:
  "recv_arm lu self m r = Ret (if lu_sqe_available lu r
     then snd (io_uring_submit lu (r\<lparr>sq := sq r @ [recv_sqe (mr_fd m) (bgid m) self blank_sqe]\<rparr>)) else r)"
  by (simp add: recv_arm_def io_uring_get_sqe_def)

text \<open>A completion: a chunk is queued, otherwise the end is recorded and an unused buffer goes back to the ring.\<close>

lemma recv_complete_cases:
  assumes "provided_buffers bo avail entries" and "recv_layout m" and "buf_ring m = Some b" and "entries b = mr_buf_count m"
    and "\<forall>i \<in> set (unused_bufs [Ev_complete res flags]). unat i < mr_buf_count m"
    and "length (avail b) + length (unused_bufs [Ev_complete res flags]) \<le> mr_buf_count m"
  shows "\<exists>r' fb b'. recv_complete bo lu self m r res flags = Ret (m\<lparr>buf_ring := Some b',
      pending := pending m @ (if 0 < res then [\<lparr>pi_buf_id = cqe_buf_id flags, pi_size = nat res\<rparr>] else []),
      mr_error := (if 0 < res then mr_error m else if res = 0 then - ENODATA else res), waiter := None\<rparr>, r', fb)
    \<and> avail b' = avail b @ map (recv_entry m) (unused_bufs [Ev_complete res flags]) \<and> entries b' = entries b"
proof (cases "res \<le> 0 \<and> flags AND IORING_CQE_F_BUFFER \<noteq> 0")
  case True
  then have "unat (cqe_buf_id flags) < mr_buf_count m" "length (avail b) < entries b" using assms(4-6) by simp_all
  from provided_buffers.return_buffer_effect [OF assms(1,2) this(1) assms(3,4) this(2)] obtain b'
    where "recv_return_buffer bo (cqe_buf_id flags) m = Ret (m\<lparr>buf_ring := Some b'\<rparr>)"
      "avail b' = avail b @ [recv_entry m (cqe_buf_id flags)]" "entries b' = entries b" by blast
  then show ?thesis using True by (intro exI [of _ r] exI [of _ "waiter m"] exI [of _ b']) (simp add: recv_complete_def Let_def)
next
  case False
  have b: "m\<lparr>buf_ring := Some b\<rparr> = m" using assms(3) by simp
  show ?thesis
  proof (cases "0 < res")
    case True
    then show ?thesis using b by (cases "flags AND IORING_CQE_F_MORE = 0") (auto simp: recv_complete_def Let_def recv_arm_eval intro!: exI [of _ b])
  next
    case res: False
    then show ?thesis using b False by (intro exI [of _ r] exI [of _ "waiter m"] exI [of _ b]) (simp add: recv_complete_def Let_def)
  qed
qed

lemma recv_next_pending:
  "(case snd (recv_next fiber st m) of Nx_value b \<Rightarrow> [b] | _ \<Rightarrow> []) @ map take_item (pending (fst (recv_next fiber st m)))
     = map take_item (pending m)"
  "(case snd (recv_next_resume m) of Nx_value b \<Rightarrow> [b] | _ \<Rightarrow> []) @ map take_item (pending (fst (recv_next_resume m)))
     = map take_item (pending m)"
  by (simp_all add: recv_next_def recv_next_resume_def recv_ended_def split: list.splits)

text \<open>What a call of \<open>next\<close> leaves alone.\<close>

lemma recv_next_frame:
  "buf_ring (fst (recv_next fiber st m)) = buf_ring m" "recv_layout (fst (recv_next fiber st m)) = recv_layout m"
  "mr_buf_count (fst (recv_next fiber st m)) = mr_buf_count m" "recv_entry (fst (recv_next fiber st m)) = recv_entry m"
  "buf_ring (fst (recv_next_resume m)) = buf_ring m" "recv_layout (fst (recv_next_resume m)) = recv_layout m"
  "mr_buf_count (fst (recv_next_resume m)) = mr_buf_count m" "recv_entry (fst (recv_next_resume m)) = recv_entry m"
  by (auto simp: recv_next_def recv_next_resume_def recv_layout_def recv_entry_def fun_eq_iff split: list.splits)

text \<open>
  C24. Delivery order. For every sequence of completions, calls of \<open>next\<close> and resumptions, the
  receiver never gets stuck, and the handles returned by \<open>next\<close> followed by what is still pending are
  exactly what was pending before followed by the chunks received, in order: nothing is
  lost, duplicated or reordered, also after an error or a stop request. The buffers of
  completions without data, which must be buffers of this receiver and fit its ring, are provided to the
  kernel again, in order and at their addresses, and no other buffer is.
\<close>

theorem recv_delivery_order:
  assumes "provided_buffers bo avail entries" and "recv_layout m" and "buf_ring m = Some b" and "entries b = mr_buf_count m"
    and "\<forall>i \<in> set (unused_bufs evs). unat i < mr_buf_count m" and "length (avail b) + length (unused_bufs evs) \<le> mr_buf_count m"
  shows "\<exists>out m' r' b'. recv_trace bo lu self fiber evs (m, r) = Ret (out, m', r')
    \<and> out @ map take_item (pending m') = map take_item (pending m) @ chunks evs
    \<and> buf_ring m' = Some b' \<and> avail b' = avail b @ map (recv_entry m) (unused_bufs evs)"
  using assms(2-6)
proof (induction evs arbitrary: m r b)
  case Nil
  then show ?case by simp
next
  case (Cons ev evs)
  show ?case
  proof (cases ev)
    case (Ev_complete res flags)
    let ?us = "unused_bufs [Ev_complete res flags]"
    let ?m = "\<lambda>b'. m\<lparr>buf_ring := Some b',
      pending := pending m @ (if 0 < res then [\<lparr>pi_buf_id = cqe_buf_id flags, pi_size = nat res\<rparr>] else []),
      mr_error := (if 0 < res then mr_error m else if res = 0 then - ENODATA else res), waiter := None\<rparr>"
    have us: "unused_bufs (ev # evs) = ?us @ unused_bufs evs" by (simp add: Ev_complete)
    have h: "\<forall>i \<in> set ?us. unat i < mr_buf_count m" "length (avail b) + length ?us \<le> mr_buf_count m" using Cons.prems(4,5) us by auto
    from recv_complete_cases [OF assms(1) Cons.prems(1-3) h, of lu self r] obtain r1 fb b1
      where c: "recv_complete bo lu self m r res flags = Ret (?m b1, r1, fb)" "avail b1 = avail b @ map (recv_entry m) ?us" "entries b1 = entries b"
      by blast
    have e: "recv_layout (?m b1) = recv_layout m" "recv_entry (?m b1) = recv_entry m" by (simp_all add: recv_layout_def recv_entry_def fun_eq_iff)
    have "\<exists>out m' r' b'. recv_trace bo lu self fiber evs (?m b1, r1) = Ret (out, m', r')
        \<and> out @ map take_item (pending m') = map take_item (pending (?m b1)) @ chunks evs
        \<and> buf_ring m' = Some b' \<and> avail b' = avail b1 @ map (recv_entry (?m b1)) (unused_bufs evs)"
      using Cons.prems c e us by (intro Cons.IH) auto
    then show ?thesis unfolding Ev_complete
      by (auto simp: c e [simplified] take_item_def [of "pending_item.make _ _", unfolded pending_item.defs])
  next
    case (Ev_next st)
    have "\<exists>out m' r' b'. recv_trace bo lu self fiber evs (fst (recv_next fiber st m), r) = Ret (out, m', r')
        \<and> out @ map take_item (pending m') = map take_item (pending (fst (recv_next fiber st m))) @ chunks evs
        \<and> buf_ring m' = Some b' \<and> avail b' = avail b @ map (recv_entry (fst (recv_next fiber st m))) (unused_bufs evs)"
      using Cons.prems by (intro Cons.IH) (simp_all add: recv_next_frame Ev_next)
    then obtain out m' r' b' where "recv_trace bo lu self fiber evs (fst (recv_next fiber st m), r) = Ret (out, m', r')"
        "out @ map take_item (pending m') = map take_item (pending (fst (recv_next fiber st m))) @ chunks evs"
        "buf_ring m' = Some b'" "avail b' = avail b @ map (recv_entry m) (unused_bufs evs)" by (auto simp: recv_next_frame)
    with append_shift [OF recv_next_pending(1) [of fiber st m]] show ?thesis
      unfolding Ev_next by (cases "recv_next fiber st m") simp
  next
    case Ev_resume
    have "\<exists>out m' r' b'. recv_trace bo lu self fiber evs (fst (recv_next_resume m), r) = Ret (out, m', r')
        \<and> out @ map take_item (pending m') = map take_item (pending (fst (recv_next_resume m))) @ chunks evs
        \<and> buf_ring m' = Some b' \<and> avail b' = avail b @ map (recv_entry (fst (recv_next_resume m))) (unused_bufs evs)"
      using Cons.prems by (intro Cons.IH) (simp_all add: recv_next_frame Ev_resume)
    then obtain out m' r' b' where "recv_trace bo lu self fiber evs (fst (recv_next_resume m), r) = Ret (out, m', r')"
        "out @ map take_item (pending m') = map take_item (pending (fst (recv_next_resume m))) @ chunks evs"
        "buf_ring m' = Some b'" "avail b' = avail b @ map (recv_entry m) (unused_bufs evs)" by (auto simp: recv_next_frame)
    with append_shift [OF recv_next_pending(2) [of m]] show ?thesis
      unfolding Ev_resume by (cases "recv_next_resume m") simp
  qed
qed

text \<open>Both buffers are out: one brings four bytes, the other comes back unused with the end of the stream.\<close>

theorem recv_delivery_order_witness:
  "\<exists>out m' r' b'. recv_trace ref_bufs (sq_of_size 8) 4096 7 [Ev_complete 4 (buffer_flags 0 IORING_CQE_F_MORE), Ev_next no_token,
      Ev_complete 0 (buffer_flags 1 0)] (example_recv\<lparr>buf_ring := Some \<lparr>rr_size = 2, rr_staged = [], rr_avail = []\<rparr>\<rparr>, example_recv_ring) = Ret (out, m', r')
    \<and> out @ map take_item (pending m') = [\<lparr>rb_owner = True, rb_buf_id = 0, rb_size = 4\<rparr>]
    \<and> buf_ring m' = Some b' \<and> rr_avail b' = [(80, 16, 1)]"
proof -
  let ?b = "\<lparr>rr_size = 2, rr_staged = [], rr_avail = []\<rparr>" and ?evs = "[Ev_complete 4 (buffer_flags 0 IORING_CQE_F_MORE), Ev_next no_token,
      Ev_complete 0 (buffer_flags 1 0)]"
  let ?m = "example_recv\<lparr>buf_ring := Some ?b\<rparr>"
  have id: "cqe_buf_id (buffer_flags 1 0) = 1" "cqe_buf_id (buffer_flags 0 IORING_CQE_F_MORE) = 0" by (simp_all add: cqe_buf_id_buffer_flags)
  have us: "unused_bufs ?evs = [1]" using buffer_flags_bits(1) [of 0 1] id by simp
  have "recv_layout ?m" "buf_ring ?m = Some ?b" "rr_size ?b = mr_buf_count ?m" "\<forall>i \<in> set (unused_bufs ?evs). unat i < mr_buf_count ?m"
    "length (rr_avail ?b) + length (unused_bufs ?evs) \<le> mr_buf_count ?m"
    using us by (simp_all add: recv_layout_def example_recv_def size_t_mod_def)
  from recv_delivery_order [OF ref_pb.provided_buffers_axioms this, of "sq_of_size 8" 4096 7 example_recv_ring] us show ?thesis
    by (auto simp: example_recv_def recv_entry_def id)
qed

text \<open>
  Re-arming. A chunk that ends the multishot request (the completion lacks \<open>IORING_CQE_F_MORE\<close>)
  is queued and wakes the waiter. With a free entry exactly one new request, for the same
  descriptor, buffer group and receiver, reaches the kernel. With a full submission queue
  nothing is submitted and no error is recorded: once the chunk is consumed, \<open>next\<close> waits
  although no request is in flight that could wake it.
\<close>

lemma recv_rearm:
  assumes "0 < res" and "flags AND IORING_CQE_F_MORE = 0" and "mr_error m = 0" and "pending m = []"
  shows "\<exists>m'. pending m' = [\<lparr>pi_buf_id = cqe_buf_id flags, pi_size = nat res\<rparr>] \<and> waiter m' = None \<and> mr_error m' = 0
    \<and> (lu_sqe_available lu r \<longrightarrow> 0 \<le> lu_submit_ret lu (r\<lparr>sq := sq r @ [recv_sqe (mr_fd m) (bgid m) self blank_sqe]\<rparr>) \<longrightarrow>
        recv_complete bo lu self m r res flags =
          Ret (m', r\<lparr>inflight := inflight r @ sq r @ [recv_sqe (mr_fd m) (bgid m) self blank_sqe], sq := []\<rparr>, waiter m))
    \<and> (\<not> lu_sqe_available lu r \<longrightarrow> recv_complete bo lu self m r res flags = Ret (m', r, waiter m)
        \<and> snd (recv_next fiber no_token (fst (recv_next fiber no_token m'))) = Nx_wait)"
  using assms
  by (intro exI [of _ "m\<lparr>pending := [\<lparr>pi_buf_id = cqe_buf_id flags, pi_size = nat res\<rparr>], waiter := None\<rparr>"])
    (auto simp: recv_complete_def Let_def recv_arm_eval submit_ok recv_next_def no_token_def)

subsection \<open>Destruction\<close>

context provided_buffers
begin

lemma return_items_effect:
  assumes "recv_layout m" and "\<forall>p \<in> set ps. unat (pi_buf_id p) < mr_buf_count m" and "buf_ring m = Some b" and "entries b = mr_buf_count m"
    and "length (avail b) + length ps \<le> entries b" and "pending m = ps"
  shows "\<exists>b'. recv_return_items bo ps m = Ret (m\<lparr>pending := [], buf_ring := Some b'\<rparr>)
    \<and> avail b' = avail b @ map (\<lambda>p. recv_entry m (pi_buf_id p)) ps"
  using assms
proof (induction ps arbitrary: m b)
  case Nil
  then show ?case by (intro exI [of _ b]) simp
next
  case (Cons p ps)
  let ?m = "m\<lparr>pending := ps\<rparr>"
  have "recv_layout ?m" "unat (pi_buf_id p) < mr_buf_count ?m" "buf_ring ?m = Some b" "entries b = mr_buf_count ?m" "length (avail b) < entries b"
    using Cons.prems by (simp_all add: recv_layout_def)
  from return_buffer_effect [OF this] obtain b1 where b1: "recv_return_buffer bo (pi_buf_id p) ?m = Ret (?m\<lparr>buf_ring := Some b1\<rparr>)"
    "avail b1 = avail b @ [recv_entry m (pi_buf_id p)]" "entries b1 = entries b" by (auto simp: recv_entry_def)
  have "\<exists>b'. recv_return_items bo ps (?m\<lparr>buf_ring := Some b1\<rparr>) = Ret (?m\<lparr>buf_ring := Some b1, pending := [], buf_ring := Some b'\<rparr>)
      \<and> avail b' = avail b1 @ map (\<lambda>p. recv_entry (?m\<lparr>buf_ring := Some b1\<rparr>) (pi_buf_id p)) ps"
    using Cons.prems b1 by (intro Cons.IH) (auto simp: recv_layout_def)
  then show ?case using b1 by (auto simp: recv_entry_def)
qed

end

text \<open>
  C27. Orderly destruction. After construction for at most \<open>2 ^ 15\<close> buffers and any interleaving of
  kernel completions, drained completions, calls of \<open>next\<close> and operations on handles, let the
  request still be live and no stop be requested. Then the destructor provides exactly the unconsumed
  buffers to the kernel again, in order and at their addresses, submits a cancel request for the
  receive and suspends. When the cancelled request reports its end (result \<open>-ECANCELED\<close>, no
  further completion) the waiting fiber is woken and the destructor ends, so the request is gone before the receiver is.
\<close>

theorem recv_dtor_waits:
  assumes "provided_buffers bo avail entries" and "bcnt \<le> 2 ^ 15"
    and "multishot_recv_ctor bo lu base self fd bsz bcnt g (Some r0) = Ret (g', Some r0', Inr m0)"
    and "(recv_cstep bo avail entries lu self)\<^sup>*\<^sup>* (recv_start m0 r0') w" and "m = rw_recv w" and "mr_error m = 0" and "\<not> stop_requested st"
    and "lu_sqe_available lu r" and "0 \<le> lu_submit_ret lu (r\<lparr>sq := sq r @ [cancel_sqe self blank_sqe]\<rparr>)"
  shows "\<exists>b b1 m1 m2. buf_ring m = Some b
    \<and> multishot_recv_dtor bo lu self fiber st m (Some r)
        = Ret (m1, Some (r\<lparr>inflight := inflight r @ sq r @ [cancel_sqe self blank_sqe], sq := []\<rparr>), False)
    \<and> pending m1 = [] \<and> waiter m1 = Some fiber
    \<and> buf_ring m1 = Some b1 \<and> avail b1 = avail b @ map (\<lambda>p. (base + unat (pi_buf_id p) * bsz, word_of_nat bsz, pi_buf_id p)) (pending m)
    \<and> recv_complete bo lu self m1 r' (- ECANCELED) 0 = Ret (m2, r', Some fiber)
    \<and> recv_dtor_resume bo fiber st m2 = Ret (recv_dtor_end m2, True)"
proof -
  note start = recv_ctor_start(1,2) [OF assms(1-3), where r' = r0']
  from provided_buffers.recv_run [OF assms(1,4) start]
  have ok: "recv_ok avail entries w" and part: "partitioned (recv_ids w) (recv_own avail w)"
    and st: "buf_storage (rw_recv w) = buf_storage m0" "mr_buf_size (rw_recv w) = mr_buf_size m0" by (auto simp: recv_start_def)
  have m0: "sp_data (buf_storage m0) = base" "mr_buf_size m0 = bsz" by (rule recv_ctor_cases [OF assms(3)]; simp)+
  obtain b where b: "buf_ring m = Some b" "entries b = mr_buf_count m" and lay: "recv_layout m" using ok assms(5) by (auto simp: recv_ok_def)
  have "\<forall>p \<in> set (pending m). pi_buf_id p \<in> recv_ids w" using partitioned_free_in [OF part] assms(5) by (auto simp: recv_own_def)
  then have ids: "\<forall>p \<in> set (pending m). unat (pi_buf_id p) < mr_buf_count m" using recv_ids_bound [of w] lay assms(5) by auto
  have "length (avail b) + length (pending m) \<le> length (o_free (recv_own avail w))" using b(1) assms(5) by (simp add: recv_own_def ring_ids_def)
  also have "\<dots> \<le> entries b" using partitioned_count(1) [OF part finite_recv_ids] card_recv_ids [of w] lay b(2) assms(5) by simp
  finally have room: "length (avail b) + length (pending m) \<le> entries b" .
  from provided_buffers.return_items_effect [OF assms(1) lay ids b room refl] obtain b'
    where ret: "recv_return_items bo (pending m) m = Ret (m\<lparr>pending := [], buf_ring := Some b'\<rparr>)"
      and av: "avail b' = avail b @ map (\<lambda>p. recv_entry m (pi_buf_id p)) (pending m)" by blast
  have en: "recv_entry m i = (base + unat i * bsz, word_of_nat bsz, i)" for i using st m0 assms(5) by (simp add: recv_entry_def)
  let ?m1 = "m\<lparr>pending := [], buf_ring := Some b', waiter := Some fiber\<rparr>"
  have "multishot_recv_dtor bo lu self fiber st m (Some r)
        = Ret (?m1, Some (r\<lparr>inflight := inflight r @ sq r @ [cancel_sqe self blank_sqe], sq := []\<rparr>), False)"
    using assms(6-9) by (simp add: multishot_recv_dtor_def ret submit_cancel_def io_uring_get_sqe_def submit_ok recv_dtor_drain_def recv_next_def)
  then show ?thesis using b(1) av en
    by (intro exI [of _ b] exI [of _ b'] exI [of _ ?m1] exI [of _ "?m1\<lparr>mr_error := - ECANCELED, waiter := None\<rparr>"])
      (simp add: recv_complete_def Let_def recv_dtor_resume_def recv_next_resume_def recv_ended_def)
qed

text \<open>A received chunk is still pending when the receiver is destroyed.\<close>

theorem recv_dtor_waits_witness:
  "\<exists>m1 r1. multishot_recv_dtor ref_bufs (sq_of_size 8) 4096 7 no_token
      (example_recv\<lparr>buf_ring := Some \<lparr>rr_size = 2, rr_staged = [], rr_avail = [(80, 16, 1)]\<rparr>, pending := [\<lparr>pi_buf_id = 0, pi_size = 4\<rparr>]\<rparr>)
      (Some example_recv_ring) = Ret (m1, Some r1, False)
    \<and> map sqe_req (inflight r1) = [Rq_recv_multishot 5, Rq_cancel 4096]
    \<and> (\<exists>b. buf_ring m1 = Some b \<and> rr_avail b = [(80, 16, 1), (64, 16, 0)])"
proof -
  let ?m = "example_recv\<lparr>buf_ring := Some \<lparr>rr_size = 2, rr_staged = [], rr_avail = [(80, 16, 1)]\<rparr>, pending := [\<lparr>pi_buf_id = 0, pi_size = 4\<rparr>]\<rparr>"
  have h: "?m = rw_recv (recv_start ?m example_recv_ring)" "mr_error ?m = 0" "\<not> stop_requested no_token" "lu_sqe_available (sq_of_size 8) example_recv_ring"
    "0 \<le> lu_submit_ret (sq_of_size 8) (example_recv_ring\<lparr>sq := sq example_recv_ring @ [cancel_sqe 4096 blank_sqe]\<rparr>)"
    by (simp_all add: recv_start_def example_recv_def no_token_def example_recv_ring_def empty_uring_def sq_of_size_def)
  from recv_dtor_waits [OF ref_pb.provided_buffers_axioms _ example_recv_ctor example_run_pending h, of 7 example_recv_ring] show ?thesis
    by (auto simp: example_recv_def example_recv_ring_def empty_uring_def recv_sqe_def cancel_sqe_def)
qed

text \<open>
  C36. Destruction after a stop request leaves the request behind. Whenever construction
  succeeded and a stop has been requested, \<open>next\<close> on the idle receiver records \<open>-ECANCELED\<close>
  although nothing was cancelled. The destructor then returns without cancelling; called
  directly, it submits the cancel request but does not wait. Either way it ends, and frees
  the buffer ring, while the multishot request naming the receiver is still in flight.
\<close>

theorem recv_stop_dangles:
  assumes "multishot_recv_ctor bo lu base self fd bsz bcnt g (Some r) = Ret (g', Some r', Inr m)" and "stop_requested st"
  shows "recv_sqe fd g self blank_sqe \<in> set (inflight r')
    \<and> snd (recv_next fiber st m) = Nx_none
    \<and> multishot_recv_dtor bo lu self fiber st (fst (recv_next fiber st m)) (Some r')
        = Ret (recv_dtor_end (fst (recv_next fiber st m)), Some r', True)
    \<and> (\<exists>m2 r2. multishot_recv_dtor bo lu self fiber st m (Some r') = Ret (m2, Some r2, True) \<and> buf_ring m2 = None
        \<and> recv_sqe fd g self blank_sqe \<in> set (inflight r2))"
proof (rule recv_ctor_cases [OF assms(1)])
  fix b es r1 assume "Some r' = Some r1" and "recv_sqe fd g self blank_sqe \<in> set (inflight r1)"
    and m: "m = \<lparr>mr_fd = fd, bgid = g, mr_buf_size = bsz, mr_buf_count = bit_ceil bcnt,
        buf_storage = \<lparr>sp_data = base, sp_size = size_mul bsz (bit_ceil bcnt)\<rparr>,
        buf_ring = Some (br_advance bo (br_add_all bo (br_mask bo (word_of_nat (bit_ceil bcnt))) 0 es b) (int (bit_ceil bcnt))),
        pending = [], waiter = None, mr_error = 0\<rparr>"
  then show ?thesis
    using assms(2) by (auto simp: m recv_next_def multishot_recv_dtor_def submit_cancel_def recv_dtor_drain_def recv_dtor_end_def
        io_uring_get_sqe_def io_uring_submit_def)
qed

theorem recv_stop_dangles_witness:
  "multishot_recv_dtor ref_bufs (sq_of_size 8) 4096 7 \<lparr>stop_possible = True, stop_requested = True\<rparr>
      (fst (recv_next 7 \<lparr>stop_possible = True, stop_requested = True\<rparr> example_recv)) (Some example_recv_ring)
    = Ret (recv_dtor_end (example_recv\<lparr>mr_error := - ECANCELED\<rparr>), Some example_recv_ring, True)
    \<and> map sqe_req (inflight example_recv_ring) = [Rq_recv_multishot 5]"
  using recv_stop_dangles [OF example_recv_ctor, of "\<lparr>stop_possible = True, stop_requested = True\<rparr>" 7]
  by (simp add: recv_next_def example_recv_def example_recv_ring_def recv_sqe_def)

end
