(* ===== verification/Multishot_Acceptor.thy ===== *)
theory Multishot_Acceptor
  imports Async_IO Multishot_Recv
begin

text \<open>
  \<open>src/multishot_acceptor.cpp\<close> and \<open>include/fiberexec/multishot_acceptor.hpp\<close>: one accept
  request that keeps producing connections.

  \<open>self\<close> is the address of the acceptor, which is the \<open>user_data\<close> of its request. \<open>next\<close> is
  modelled up to its suspension and from it on; the value of the promise travels from
  \<open>complete\<close> to the suspended call. The destructor is modelled as a little machine: it
  suspends in \<open>async_close\<close> or in \<open>next\<close>, and each resumption runs it to the next suspension
  or to its end.
\<close>

subsection \<open>State and operations\<close>

record acceptor =
  server_fd :: int
  acc_addr :: nat
  acc_addrlen :: nat
  pending_fds :: "int list"
  acc_waiter :: "nat option"
  acc_error :: int

definition accept_sqe :: "int \<Rightarrow> nat \<Rightarrow> nat \<Rightarrow> u64 \<Rightarrow> sqe \<Rightarrow> sqe" where
  "accept_sqe fd addr addrlen self e = e\<lparr>sqe_req := Rq_accept_multishot fd addr addrlen 0, sqe_user_data := self\<rparr>"

definition multishot_acceptor_ctor :: "liburing \<Rightarrow> u64 \<Rightarrow> int \<Rightarrow> nat \<Rightarrow> nat \<Rightarrow> uring option \<Rightarrow> (uring option \<times> (exn + acceptor)) outcome" where
  "multishot_acceptor_ctor lu self fd addr addrlen tl_ring =
     (case tl_ring of
        None \<Rightarrow> Ret (None, Inl (Runtime_error ''multishot_acceptor constructed outside of a fiberexec fiber''))
      | Some r \<Rightarrow> (case io_uring_get_sqe lu r of
          (None, r1) \<Rightarrow> Ret (Some r1, Inl (Runtime_error ''multishot_acceptor: io_uring ring full''))
        | (Some i, r1) \<Rightarrow> bind_outcome (edit_sqe (Some i) (accept_sqe fd addr addrlen self) r1) (\<lambda>r2.
            (case io_uring_submit lu r2 of
               (ret, r3) \<Rightarrow> if ret < 0
                 then Ret (Some r3, Inl (System_error (- ret) ''io_uring_submit (multishot_accept)''))
                 else Ret (Some r3, Inr \<lparr>server_fd = fd, acc_addr = addr, acc_addrlen = addrlen, pending_fds = [], acc_waiter = None, acc_error = 0\<rparr>)))))"

text \<open>\<open>complete\<close> also returns the fiber whose promise was fulfilled, with the value.\<close>

definition acc_complete ::
  "liburing \<Rightarrow> u64 \<Rightarrow> acceptor \<Rightarrow> uring \<Rightarrow> int \<Rightarrow> u32 \<Rightarrow> (acceptor \<times> uring \<times> (nat \<times> int) option) outcome" where
  "acc_complete lu self a r res flags =
     (let (a1, woken) =
        (if res < 0
         then (case acc_waiter a of
             Some f \<Rightarrow> (a\<lparr>acc_error := res, acc_waiter := None\<rparr>, Some (f, res))
           | None \<Rightarrow> (a\<lparr>acc_error := res\<rparr>, None))
         else (case acc_waiter a of
             Some f \<Rightarrow> (a\<lparr>acc_waiter := None\<rparr>, Some (f, res))
           | None \<Rightarrow> (a\<lparr>pending_fds := pending_fds a @ [res]\<rparr>, None)))
      in if flags AND IORING_CQE_F_MORE = 0 \<and> 0 \<le> res
         then (case io_uring_get_sqe lu r of
             (None, r1) \<Rightarrow> Ret (a1, r1, woken)
           | (Some i, r1) \<Rightarrow> bind_outcome (edit_sqe (Some i) (accept_sqe (server_fd a1) (acc_addr a1) (acc_addrlen a1) self) r1) (\<lambda>r2.
               Ret (a1, snd (io_uring_submit lu r2), woken)))
         else Ret (a1, r, woken))"

definition acc_ended :: "int \<Rightarrow> int next_result" where
  "acc_ended err =
     (if err = - ECANCELED \<or> err = - EINVAL then Nx_none else Nx_throw (System_error (- err) ''multishot_acceptor::next''))"

definition acc_next :: "nat \<Rightarrow> stop_token \<Rightarrow> acceptor \<Rightarrow> acceptor \<times> int next_result" where
  "acc_next fiber st a =
     (case pending_fds a of
        fd # fds \<Rightarrow> (a\<lparr>pending_fds := fds\<rparr>, Nx_value fd)
      | [] \<Rightarrow> if acc_error a \<noteq> 0 then (a, acc_ended (acc_error a))
          else if stop_requested st then (a\<lparr>acc_error := - ECANCELED\<rparr>, Nx_none)
          else (a\<lparr>acc_waiter := Some fiber\<rparr>, Nx_wait))"

text \<open>From \<open>future.get()\<close> on.\<close>

definition acc_next_resume :: "int \<Rightarrow> int next_result" where
  "acc_next_resume res = (if res < 0 then acc_ended res else Nx_value res)"

subsection \<open>The destructor\<close>

text \<open>
  Where it is suspended: closing the front of the queue after the request ended, closing a
  connection got from \<open>next\<close>, or in \<open>next\<close>. Every exception ends it.
\<close>

datatype acc_dtor = Dt_closing | Dt_draining | Dt_next | Dt_done

definition acc_dtor_close :: "'h op_env \<Rightarrow> int \<Rightarrow> acc_dtor \<Rightarrow> acceptor \<Rightarrow> ('h, 't) sched option \<Rightarrow>
    (acceptor \<times> ('h, 't) sched option \<times> acc_dtor) outcome" where
  "acc_dtor_close e fd d a th =
     bind_outcome (async_close e fd th) (\<lambda>(th', ex). Ret (a, th', if ex = None then d else Dt_done))"

definition acc_dtor_ended :: "'h op_env \<Rightarrow> acceptor \<Rightarrow> ('h, 't) sched option \<Rightarrow>
    (acceptor \<times> ('h, 't) sched option \<times> acc_dtor) outcome" where
  "acc_dtor_ended e a th =
     (case pending_fds a of [] \<Rightarrow> Ret (a, th, Dt_done) | fd # _ \<Rightarrow> acc_dtor_close e fd Dt_closing a th)"

definition acc_dtor_drain :: "'h op_env \<Rightarrow> acceptor \<Rightarrow> ('h, 't) sched option \<Rightarrow>
    (acceptor \<times> ('h, 't) sched option \<times> acc_dtor) outcome" where
  "acc_dtor_drain e a th =
     (case acc_next (oe_fiber e) (oe_fiber_st e) a of
        (a1, Nx_value fd) \<Rightarrow> acc_dtor_close e fd Dt_draining a1 th
      | (a1, Nx_wait) \<Rightarrow> Ret (a1, th, Dt_next)
      | (a1, _) \<Rightarrow> Ret (a1, th, Dt_done))"

text \<open>The call; also the descriptors on which \<open>::shutdown\<close> was called.\<close>

definition multishot_acceptor_dtor :: "'h op_env \<Rightarrow> acceptor \<Rightarrow> ('h, 't) sched option \<Rightarrow>
    (int list \<times> acceptor \<times> ('h, 't) sched option \<times> acc_dtor) outcome" where
  "multishot_acceptor_dtor e a th =
     (if acc_error a \<noteq> 0 then map_outcome_state (Pair []) (acc_dtor_ended e a th)
      else map_outcome_state (Pair [server_fd a]) (acc_dtor_drain e a th))"

text \<open>A resumption, with the value the future delivers.\<close>

definition acc_dtor_resume :: "'h op_env \<Rightarrow> int \<Rightarrow> acceptor \<Rightarrow> ('h, 't) sched option \<Rightarrow> acc_dtor \<Rightarrow>
    (acceptor \<times> ('h, 't) sched option \<times> acc_dtor) outcome" where
  "acc_dtor_resume e res a th d =
     (case d of
        Dt_closing \<Rightarrow> (case result_or_throw ''async_close'' res of
            Ret _ \<Rightarrow> acc_dtor_ended e (a\<lparr>pending_fds := tl (pending_fds a)\<rparr>) th
          | _ \<Rightarrow> Ret (a, th, Dt_done))
      | Dt_draining \<Rightarrow> (case result_or_throw ''async_close'' res of
            Ret _ \<Rightarrow> acc_dtor_drain e a th
          | _ \<Rightarrow> Ret (a, th, Dt_done))
      | Dt_next \<Rightarrow> (case acc_next_resume res of
            Nx_value fd \<Rightarrow> acc_dtor_close e fd Dt_draining a th
          | _ \<Rightarrow> Ret (a, th, Dt_done))
      | Dt_done \<Rightarrow> Ret (a, th, Dt_done))"

subsection \<open>Steps\<close>

text \<open>
  The acceptor with its ring, the completions posted to it and not yet drained, the value of
  a fulfilled promise not yet taken by the suspended call, and two histories: connections
  accepted, connections returned by \<open>next\<close>.
\<close>

record acc_world =
  aw_acc :: acceptor
  aw_ring :: uring
  aw_cq :: "(int \<times> u32) list"
  aw_fut :: "int option"
  aw_in :: "int list"
  aw_out :: "int list"

definition acc_start :: "acceptor \<Rightarrow> uring \<Rightarrow> acc_world" where
  "acc_start a r = \<lparr>aw_acc = a, aw_ring = r, aw_cq = [], aw_fut = None, aw_in = [], aw_out = []\<rparr>"

definition got :: "int next_result \<Rightarrow> int list" where
  "got x = (case x of Nx_value fd \<Rightarrow> [fd] | _ \<Rightarrow> [])"

text \<open>
  The kernel posts a completion for a request in flight; one without \<open>IORING_CQE_F_MORE\<close> ends the
  request, and failures always do. The scheduler drains a completion. One fiber calls \<open>next\<close>
  and resumes once its promise is fulfilled.
\<close>

inductive acc_step :: "liburing \<Rightarrow> u64 \<Rightarrow> acc_world \<Rightarrow> acc_world \<Rightarrow> bool"
  for lu :: liburing and self :: u64 where
  as_more: "accept_sqe (server_fd (aw_acc w)) (acc_addr (aw_acc w)) (acc_addrlen (aw_acc w)) self blank_sqe \<in> set (inflight (aw_ring w)) \<Longrightarrow> 0 \<le> res \<Longrightarrow>
     acc_step lu self w (w\<lparr>aw_cq := aw_cq w @ [(res, IORING_CQE_F_MORE)], aw_in := aw_in w @ [res]\<rparr>)"
| as_last: "accept_sqe (server_fd (aw_acc w)) (acc_addr (aw_acc w)) (acc_addrlen (aw_acc w)) self blank_sqe \<in> set (inflight (aw_ring w)) \<Longrightarrow>
     acc_step lu self w (w\<lparr>aw_cq := aw_cq w @ [(res, 0)], aw_in := aw_in w @ (if 0 \<le> res then [res] else []),
       aw_ring := (aw_ring w)\<lparr>inflight := remove1 (accept_sqe (server_fd (aw_acc w)) (acc_addr (aw_acc w)) (acc_addrlen (aw_acc w)) self blank_sqe) (inflight (aw_ring w))\<rparr>\<rparr>)"
| as_drain: "aw_cq w = (res, flags) # cs \<Longrightarrow> acc_complete lu self (aw_acc w) (aw_ring w) res flags = Ret (a, r, woken) \<Longrightarrow>
     acc_step lu self w (w\<lparr>aw_acc := a, aw_ring := r, aw_cq := cs,
       aw_fut := (case woken of Some (_, v) \<Rightarrow> Some v | None \<Rightarrow> aw_fut w)\<rparr>)"
| as_next: "acc_waiter (aw_acc w) = None \<Longrightarrow> aw_fut w = None \<Longrightarrow> acc_next fiber st (aw_acc w) = (a, x) \<Longrightarrow>
     acc_step lu self w (w\<lparr>aw_acc := a, aw_out := aw_out w @ got x\<rparr>)"
| as_resume: "aw_fut w = Some v \<Longrightarrow>
     acc_step lu self w (w\<lparr>aw_fut := None, aw_out := aw_out w @ got (acc_next_resume v)\<rparr>)"

definition acc_taken :: "int option \<Rightarrow> int list" where
  "acc_taken v = (case v of Some x \<Rightarrow> if 0 \<le> x then [x] else [] | None \<Rightarrow> [])"

definition posted_fds :: "(int \<times> u32) list \<Rightarrow> int list" where
  "posted_fds cs = filter (\<lambda>x. 0 \<le> x) (map fst cs)"

definition acc_conserved :: "acc_world \<Rightarrow> bool" where
  "acc_conserved w \<longleftrightarrow>
     aw_out w @ acc_taken (aw_fut w) @ pending_fds (aw_acc w) @ posted_fds (aw_cq w) = aw_in w
     \<and> (acc_waiter (aw_acc w) \<noteq> None \<longrightarrow> pending_fds (aw_acc w) = [] \<and> aw_fut w = None \<and> acc_error (aw_acc w) = 0)"

lemma posted_fds_simps [simp]:
  "posted_fds [] = []" "posted_fds ((res, fl) # cs) = (if 0 \<le> res then [res] else []) @ posted_fds cs"
  "posted_fds (cs @ ds) = posted_fds cs @ posted_fds ds"
  by (simp_all add: posted_fds_def)

lemma acc_taken_simps [simp]: "acc_taken None = []" "acc_taken (Some v) = (if 0 \<le> v then [v] else [])"
  by (simp_all add: acc_taken_def)

lemma got_resume: "got (acc_next_resume v) = acc_taken (Some v)"
  by (simp add: got_def acc_next_resume_def acc_ended_def)

lemma acc_complete_eval:
  "acc_complete lu self a r res flags = Ret
     (a\<lparr>pending_fds := pending_fds a @ (if 0 \<le> res \<and> acc_waiter a = None then [res] else []),
        acc_error := (if res < 0 then res else acc_error a), acc_waiter := None\<rparr>,
      if flags AND IORING_CQE_F_MORE = 0 \<and> 0 \<le> res \<and> lu_sqe_available lu r
      then snd (io_uring_submit lu (r\<lparr>sq := sq r @ [accept_sqe (server_fd a) (acc_addr a) (acc_addrlen a) self blank_sqe]\<rparr>)) else r,
      map_option (\<lambda>f. (f, res)) (acc_waiter a))"
  by (cases "acc_waiter a") (auto simp: acc_complete_def Let_def io_uring_get_sqe_def)

lemma acc_next_got:
  assumes "acc_next fiber st a = (a', x)"
  shows "got x @ pending_fds a' = pending_fds a" and "server_fd a' = server_fd a \<and> acc_addr a' = acc_addr a \<and> acc_addrlen a' = acc_addrlen a"
    and "acc_waiter a' \<noteq> None \<Longrightarrow> acc_waiter a = None \<Longrightarrow> pending_fds a' = [] \<and> acc_error a' = 0"
    and "acc_error a' = 0 \<Longrightarrow> acc_error a = 0"
  using assms by (auto simp: acc_next_def acc_ended_def got_def split: list.splits if_splits)

lemma acc_step_conserved:
  assumes "acc_step lu self w w'" and "acc_conserved w"
  shows "acc_conserved w'"
  using assms
proof (cases rule: acc_step.cases)
  case (as_drain res flags cs a r woken)
  then show ?thesis using assms(2)
    by (cases "acc_waiter (aw_acc w)") (auto simp: acc_conserved_def acc_complete_eval)
next
  case (as_next fiber st a x)
  then show ?thesis using assms(2) acc_next_got(3) [OF as_next(4)]
    by (auto simp: acc_conserved_def acc_next_got(1) [OF as_next(4), symmetric])
next
  case (as_resume v)
  then show ?thesis using assms(2) by (auto simp: acc_conserved_def got_resume)
qed (auto simp: acc_conserved_def)

text \<open>
  Wake-up: as long as no end was recorded, a request is in flight or the last completion
  posted is one after which the acceptor re-arms.
\<close>

definition acc_armed :: "u64 \<Rightarrow> acc_world \<Rightarrow> bool" where
  "acc_armed self w \<longleftrightarrow> sq (aw_ring w) = [] \<and> (\<forall>c \<in> set (aw_cq w). snd c \<in> {0, IORING_CQE_F_MORE}) \<and>
     (acc_error (aw_acc w) = 0 \<longrightarrow>
       accept_sqe (server_fd (aw_acc w)) (acc_addr (aw_acc w)) (acc_addrlen (aw_acc w)) self blank_sqe \<in> set (inflight (aw_ring w))
       \<or> (aw_cq w \<noteq> [] \<and> snd (last (aw_cq w)) = 0))"

lemma acc_step_armed:
  assumes "acc_step lu self w w'" and "acc_armed self w" and "\<forall>r. sq r = [] \<longrightarrow> lu_sqe_available lu r" and "submits lu"
  shows "acc_armed self w'"
  using assms(1)
proof (cases rule: acc_step.cases)
  case (as_drain res flags cs a r woken)
  have m: "IORING_CQE_F_MORE AND IORING_CQE_F_MORE \<noteq> 0" by (simp add: flag_defs)
  have sub: "io_uring_submit lu r = (lu_submit_ret lu r, r\<lparr>inflight := inflight r @ sq r, sq := []\<rparr>)" for r
    using assms(4) by (simp add: submits_def submit_ok)
  have "lu_sqe_available lu (aw_ring w)" "flags \<in> {0, IORING_CQE_F_MORE}"
    using assms(2,3) as_drain(2) by (auto simp: acc_armed_def)
  then show ?thesis
    using as_drain assms(2) m by (cases cs) (auto simp: acc_armed_def acc_complete_eval sub split: if_splits)
next
  case (as_next fiber st a x)
  then show ?thesis using assms(2) acc_next_got(2,4) [OF as_next(4)] by (auto simp: acc_armed_def)
qed (use assms in \<open>auto simp: acc_armed_def\<close>)

lemma acc_ctor_cases:
  assumes "multishot_acceptor_ctor lu self fd addr addrlen (Some r) = Ret (tr, Inr a)"
  obtains "lu_sqe_available lu r" and "a = \<lparr>server_fd = fd, acc_addr = addr, acc_addrlen = addrlen, pending_fds = [], acc_waiter = None, acc_error = 0\<rparr>"
    and "tr = Some (r\<lparr>inflight := inflight r @ sq r @ [accept_sqe fd addr addrlen self blank_sqe], sq := []\<rparr>)"
  using assms by (auto simp: multishot_acceptor_ctor_def io_uring_get_sqe_def io_uring_submit_def split: if_splits)

lemma acc_run:
  assumes "multishot_acceptor_ctor lu self fd addr addrlen (Some r) = Ret (Some r', Inr a)"
    and "(acc_step lu self)\<^sup>*\<^sup>* (acc_start a r') w"
  shows "acc_conserved w"
    and "\<forall>r. sq r = [] \<longrightarrow> lu_sqe_available lu r \<Longrightarrow> submits lu \<Longrightarrow> acc_armed self w"
proof -
  have "acc_conserved (acc_start a r') \<and> acc_armed self (acc_start a r')"
    by (rule acc_ctor_cases [OF assms(1)]) (simp add: acc_conserved_def acc_armed_def acc_start_def)
  with assms(2) show "acc_conserved w"
    and "\<forall>r. sq r = [] \<longrightarrow> lu_sqe_available lu r \<Longrightarrow> submits lu \<Longrightarrow> acc_armed self w"
    by (induction rule: rtranclp_induct) (blast dest: acc_step_conserved acc_step_armed)+
qed

subsection \<open>Properties\<close>

text \<open>
  C21. No connection is lost or reordered. After construction and any interleaving of
  completions, drains, calls of \<open>next\<close> (stop requests included) and resumptions by one fiber,
  the connections returned by \<open>next\<close>, the one on its way through the promise, those
  pending and those in undrained completions are, in this order, exactly the connections the
  kernel accepted, in the order of acceptance. A fiber waits only while nothing is pending.
\<close>

theorem acceptor_delivery_order:
  assumes "multishot_acceptor_ctor lu self fd addr addrlen (Some r) = Ret (Some r', Inr a)"
    and "(acc_step lu self)\<^sup>*\<^sup>* (acc_start a r') w"
  shows "aw_out w @ acc_taken (aw_fut w) @ pending_fds (aw_acc w) @ posted_fds (aw_cq w) = aw_in w
    \<and> (acc_waiter (aw_acc w) \<noteq> None \<longrightarrow> pending_fds (aw_acc w) = [] \<and> acc_error (aw_acc w) = 0)"
  using acc_run(1) [OF assms] by (auto simp: acc_conserved_def)

definition example_acceptor :: acceptor where
  "example_acceptor = \<lparr>server_fd = 5, acc_addr = 0, acc_addrlen = 0, pending_fds = [], acc_waiter = None, acc_error = 0\<rparr>"

definition example_acc_ring :: uring where
  "example_acc_ring = empty_uring\<lparr>inflight := [accept_sqe 5 0 0 4096 blank_sqe]\<rparr>"

lemma example_acc_ctor:
  "multishot_acceptor_ctor (sq_of_size 8) 4096 5 0 0 (Some empty_uring) = Ret (Some example_acc_ring, Inr example_acceptor)"
  by (simp add: multishot_acceptor_ctor_def io_uring_get_sqe_def example_acceptor_def example_acc_ring_def empty_uring_def edit_sqe_def
      io_uring_submit_def sq_of_size_def)

text \<open>The kernel accepts descriptor 9, the scheduler drains the completion.\<close>

definition example_acc_world :: acc_world where
  "example_acc_world = (acc_start (example_acceptor\<lparr>pending_fds := [9]\<rparr>) example_acc_ring)\<lparr>aw_in := [9]\<rparr>"

lemma example_acc_run: "(acc_step (sq_of_size 8) 4096)\<^sup>*\<^sup>* (acc_start example_acceptor example_acc_ring) example_acc_world"
proof -
  let ?w = "acc_start example_acceptor example_acc_ring"
  let ?v = "?w\<lparr>aw_cq := [(9, IORING_CQE_F_MORE)], aw_in := [9]\<rparr>"
  have "acc_step (sq_of_size 8) 4096 ?w ?v"
    using as_more [of ?w 4096 9] by (simp add: acc_start_def example_acceptor_def example_acc_ring_def)
  moreover have "acc_step (sq_of_size 8) 4096 ?v example_acc_world"
    using as_drain [of ?v 9 IORING_CQE_F_MORE "[]" "sq_of_size 8" 4096]
    by (simp add: acc_complete_eval acc_start_def example_acceptor_def example_acc_world_def flag_defs)
  ultimately show ?thesis by (meson converse_rtranclp_into_rtranclp rtranclp.rtrancl_refl)
qed

theorem acceptor_delivery_order_witness:
  "aw_out example_acc_world @ acc_taken (aw_fut example_acc_world) @ pending_fds (aw_acc example_acc_world)
     @ posted_fds (aw_cq example_acc_world) = [9]"
  using acceptor_delivery_order [OF example_acc_ctor example_acc_run] by (simp add: example_acc_world_def)

text \<open>
  C23. A waiting fiber can be woken. If submissions are accepted and an empty submission
  queue has a free entry, then whenever a fiber is suspended in \<open>next\<close>, the accept request is
  in flight or a completion for it is waiting to be drained; and draining any completion
  wakes that fiber with its result.
\<close>

theorem acceptor_no_lost_wakeup:
  assumes "multishot_acceptor_ctor lu self fd addr addrlen (Some r) = Ret (Some r', Inr a)"
    and "(acc_step lu self)\<^sup>*\<^sup>* (acc_start a r') w"
    and "\<forall>r. sq r = [] \<longrightarrow> lu_sqe_available lu r" and "submits lu"
    and "acc_waiter (aw_acc w) = Some fiber"
  shows "(accept_sqe (server_fd (aw_acc w)) (acc_addr (aw_acc w)) (acc_addrlen (aw_acc w)) self blank_sqe \<in> set (inflight (aw_ring w)) \<or> aw_cq w \<noteq> [])
    \<and> (\<forall>res flags. \<exists>a' r''. acc_complete lu self (aw_acc w) (aw_ring w) res flags = Ret (a', r'', Some (fiber, res))
        \<and> acc_waiter a' = None)"
proof -
  have "acc_error (aw_acc w) = 0" using acc_run(1) [OF assms(1,2)] assms(5) by (simp add: acc_conserved_def)
  with acc_run(2) [OF assms(1-4)] assms(5) show ?thesis by (auto simp: acc_armed_def acc_complete_eval)
qed

theorem acceptor_no_lost_wakeup_witness:
  "\<exists>a'. acc_complete (sq_of_size 8) 4096 (example_acceptor\<lparr>acc_waiter := Some 7\<rparr>) example_acc_ring 9 0 = Ret a'
     \<and> snd (snd a') = Some (7, 9)"
proof -
  let ?w = "acc_start example_acceptor example_acc_ring"
  let ?v = "?w\<lparr>aw_acc := example_acceptor\<lparr>acc_waiter := Some 7\<rparr>\<rparr>"
  have "acc_step (sq_of_size 8) 4096 ?w ?v"
    using as_next [of ?w 7 no_token "example_acceptor\<lparr>acc_waiter := Some 7\<rparr>" Nx_wait]
    by (simp add: acc_start_def example_acceptor_def acc_next_def no_token_def got_def)
  then have run: "(acc_step (sq_of_size 8) 4096)\<^sup>*\<^sup>* ?w ?v" ..
  have "\<forall>r. sq r = [] \<longrightarrow> lu_sqe_available (sq_of_size 8) r" by simp
  from acceptor_no_lost_wakeup [OF example_acc_ctor run this submits_sq_of_size, of 7, THEN conjunct2]
  have "acc_waiter (aw_acc ?v) = Some 7 \<Longrightarrow> \<exists>a' r''. acc_complete (sq_of_size 8) 4096 (aw_acc ?v) (aw_ring ?v) 9 0 = Ret (a', r'', Some (7, 9))"
    by blast
  then show ?thesis by (auto simp: acc_start_def)
qed

subsection \<open>Destruction\<close>

lemma acc_dtor_close_ok:
  assumes "submits (oe_lu e)" and "has_room e s"
  shows "\<exists>s'. acc_dtor_close e fd d a (Some s) = Ret (a, Some s', d)
    \<and> inflight (s_ring s') = inflight (s_ring s) @ sq (s_ring s) @ [(op_entry False (Rq_close fd))\<lparr>sqe_user_data := hd (oe_aws e)\<rparr>]"
  by (simp add: acc_dtor_close_def async_close_ok [OF assms] begin_wait_def submitted_def register_pool_cb_def register_fiber_cb_def
      run_cancel_eval Let_def)

text \<open>
  The rest of a destruction that waits for a close: what each resumption is given, namely the
  result of the close and the state of the scheduler by then.
\<close>

fun acc_dtor_feed :: "('h op_env \<times> int \<times> ('h, 't) sched) list \<Rightarrow> acceptor \<times> ('h, 't) sched option \<times> acc_dtor \<Rightarrow>
    (acceptor \<times> ('h, 't) sched option \<times> acc_dtor) outcome" where
  "acc_dtor_feed [] x = Ret x"
| "acc_dtor_feed ((e, res, s) # fs) (a, th, d) = bind_outcome (acc_dtor_resume e res a (Some s) d) (acc_dtor_feed fs)"

definition feeds_ok :: "('h op_env \<times> int \<times> ('h, 't) sched) list \<Rightarrow> bool" where
  "feeds_ok fs \<longleftrightarrow> (\<forall>(e, res, s) \<in> set fs. submits (oe_lu e) \<and> has_room e s)"

lemma acc_dtor_feed_done: "acc_dtor_feed fs (a, th, Dt_done) = Ret (a, if fs = [] then th else Some (snd (snd (last fs))), Dt_done)"
  by (induction fs arbitrary: th) (auto simp: acc_dtor_resume_def)

lemma acc_dtor_feed_closing:
  assumes "feeds_ok fs" and "length fs = length (pending_fds a)" and "0 < length fs"
    and "k = length (takeWhile (\<lambda>(e, res, s). 0 \<le> res) fs)"
  shows "\<exists>th'. acc_dtor_feed fs (a, th, Dt_closing) = Ret (a\<lparr>pending_fds := drop k (pending_fds a)\<rparr>, th', Dt_done)"
  using assms
proof (induction fs arbitrary: a th k)
  case Nil
  then show ?case by simp
next
  case (Cons f fs)
  obtain e res s where f: "f = (e, res, s)" by (cases f)
  obtain fd fds where p: "pending_fds a = fd # fds" using Cons.prems(2) by (cases "pending_fds a") auto
  show ?case
  proof (cases "0 \<le> res")
    case False
    then show ?thesis using Cons.prems by (simp add: f acc_dtor_resume_def result_or_throw_def acc_dtor_feed_done)
  next
    case True
    let ?a = "a\<lparr>pending_fds := fds\<rparr>"
    show ?thesis
    proof (cases fds)
      case Nil
      then show ?thesis using Cons.prems True p by (simp add: f acc_dtor_resume_def result_or_throw_def acc_dtor_ended_def)
    next
      case (Cons fd' fds')
      have fs: "feeds_ok fs" "length fs = length (pending_fds ?a)" "0 < length fs"
        using Cons.prems(1,2) p Cons by (auto simp: feeds_ok_def f)
      have "submits (oe_lu e)" "has_room e s" using Cons.prems(1) by (auto simp: feeds_ok_def f)
      from acc_dtor_close_ok [OF this, of fd' Dt_closing ?a] obtain s'
        where "acc_dtor_close e fd' Dt_closing ?a (Some s) = Ret (?a, Some s', Dt_closing)" by blast
      then have "acc_dtor_resume e res a (Some s) Dt_closing = Ret (?a, Some s', Dt_closing)"
        using True p Cons by (simp add: acc_dtor_resume_def result_or_throw_def acc_dtor_ended_def)
      with Cons.IH [OF fs refl, of "Some s'"] Cons.prems(4) True p show ?thesis by (auto simp: f)
    qed
  qed
qed

text \<open>
  Destruction after the request ended. Connections still queued are closed one after the
  other, in order. If every close succeeds the destructor ends with an empty queue; the
  first close that fails ends it too, and the connections from that one on are never closed.
\<close>

lemma acceptor_dtor_closes:
  assumes "acc_error a \<noteq> 0" and "feeds_ok fs" and "length fs = length (pending_fds a)" and "submits (oe_lu e)" and "has_room e s"
    and "k = length (takeWhile (\<lambda>(e, res, s). 0 \<le> res) fs)"
  shows "\<exists>th d th'. multishot_acceptor_dtor e a (Some s) = Ret ([], a, th, d)
    \<and> acc_dtor_feed fs (a, th, d) = Ret (a\<lparr>pending_fds := drop k (pending_fds a)\<rparr>, th', Dt_done)"
proof (cases "pending_fds a")
  case Nil
  then show ?thesis using assms by (simp add: multishot_acceptor_dtor_def acc_dtor_ended_def)
next
  case (Cons fd fds)
  from acc_dtor_close_ok [OF assms(4,5), of fd Dt_closing a] obtain s'
    where "acc_dtor_close e fd Dt_closing a (Some s) = Ret (a, Some s', Dt_closing)" by blast
  then have "multishot_acceptor_dtor e a (Some s) = Ret ([], a, Some s', Dt_closing)"
    using assms(1) Cons by (simp add: multishot_acceptor_dtor_def acc_dtor_ended_def)
  moreover have "0 < length fs" using assms(3) Cons by simp
  from acc_dtor_feed_closing [OF assms(2,3) this assms(6), of "Some s'"]
  obtain th' where "acc_dtor_feed fs (a, Some s', Dt_closing) = Ret (a\<lparr>pending_fds := drop k (pending_fds a)\<rparr>, th', Dt_done)" by blast
  ultimately show ?thesis by blast
qed

text \<open>
  C37. Destruction of a live acceptor. Without a stop request the destructor shuts the server
  socket down and, with nothing queued, waits in \<open>next\<close>; when the kernel reports the end of
  the request (\<open>-EINVAL\<close>) the fiber is woken and the destructor ends. After a stop request it ends
  at once, and so it does after \<open>next\<close> has seen the stop request, then even without the
  shutdown: in both cases the accept request naming the acceptor is still in flight.
\<close>

theorem acceptor_dtor_live:
  assumes "multishot_acceptor_ctor lu self fd addr addrlen (Some (s_ring s)) = Ret (Some r', Inr a)"
    and "\<not> stop_requested (oe_fiber_st e)" and "stop_requested (oe_fiber_st e')"
  shows "\<exists>a1 a2 a3. accept_sqe fd addr addrlen self blank_sqe \<in> set (inflight r')
    \<and> multishot_acceptor_dtor e a (Some (s\<lparr>s_ring := r'\<rparr>)) = Ret ([fd], a1, Some (s\<lparr>s_ring := r'\<rparr>), Dt_next)
    \<and> acc_complete lu self a1 r'' (- EINVAL) 0 = Ret (a2, r'', Some (oe_fiber e, - EINVAL))
    \<and> acc_dtor_resume e (- EINVAL) a2 th Dt_next = Ret (a2, th, Dt_done)
    \<and> multishot_acceptor_dtor e' a (Some (s\<lparr>s_ring := r'\<rparr>)) = Ret ([fd], a3, Some (s\<lparr>s_ring := r'\<rparr>), Dt_done)
    \<and> acc_next (oe_fiber e') (oe_fiber_st e') a = (a3, Nx_none)
    \<and> multishot_acceptor_dtor e' a3 (Some (s\<lparr>s_ring := r'\<rparr>)) = Ret ([], a3, Some (s\<lparr>s_ring := r'\<rparr>), Dt_done)"
proof (rule acc_ctor_cases [OF assms(1)])
  assume a: "a = \<lparr>server_fd = fd, acc_addr = addr, acc_addrlen = addrlen, pending_fds = [], acc_waiter = None, acc_error = 0\<rparr>"
    and "Some r' = Some ((s_ring s)\<lparr>inflight := inflight (s_ring s) @ sq (s_ring s) @ [accept_sqe fd addr addrlen self blank_sqe], sq := []\<rparr>)"
  then show ?thesis using assms(2,3)
    by (intro exI [of _ "a\<lparr>acc_waiter := Some (oe_fiber e)\<rparr>"] exI [of _ "a\<lparr>acc_error := - EINVAL\<rparr>"] exI [of _ "a\<lparr>acc_error := - ECANCELED\<rparr>"])
      (simp add: a multishot_acceptor_dtor_def acc_dtor_drain_def acc_dtor_ended_def acc_next_def acc_complete_eval acc_dtor_resume_def
        acc_next_resume_def acc_ended_def)
qed

theorem acceptor_dtor_live_witness:
  "\<exists>a3. multishot_acceptor_dtor (example_env 8\<lparr>oe_fiber_st := \<lparr>stop_possible = True, stop_requested = True\<rparr>\<rparr>) example_acceptor
      (Some (example_sched []\<lparr>s_ring := example_acc_ring\<rparr>)) = Ret ([5], a3, Some (example_sched []\<lparr>s_ring := example_acc_ring\<rparr>), Dt_done)
    \<and> map sqe_req (inflight example_acc_ring) = [Rq_accept_multishot 5 0 0 0]"
proof -
  let ?e = "example_env 8"
  let ?e' = "?e\<lparr>oe_fiber_st := \<lparr>stop_possible = True, stop_requested = True\<rparr>\<rparr>"
  have "multishot_acceptor_ctor (sq_of_size 8) 4096 5 0 0 (Some (s_ring (example_sched []))) = Ret (Some example_acc_ring, Inr example_acceptor)"
    using example_acc_ctor by (simp add: example_sched_def empty_uring_def)
  moreover have "\<not> stop_requested (oe_fiber_st ?e)" "stop_requested (oe_fiber_st ?e')" by (simp_all add: example_env_def no_token_def)
  ultimately have "\<exists>a3. multishot_acceptor_dtor ?e' example_acceptor (Some (example_sched []\<lparr>s_ring := example_acc_ring\<rparr>))
      = Ret ([5], a3, Some (example_sched []\<lparr>s_ring := example_acc_ring\<rparr>), Dt_done)"
    using acceptor_dtor_live by blast
  then show ?thesis by (simp add: example_acc_ring_def accept_sqe_def)
qed

end
