(* ===== verification/Handlers.thy ===== *)
theory Handlers
  imports Multishot_Acceptor "HOL-Library.Sublist"
begin

text \<open>
  The classes derived from \<open>detail::cqe_handler\<close> (\<open>io_awaitable\<close> of \<open>src/fiber_context.cpp\<close>,
  \<open>send_zc_handler\<close> of \<open>src/fixed_buffer_pool.cpp\<close>, \<open>multishot_recv\<close> and \<open>multishot_acceptor\<close>) as one type,
  their virtual function \<open>complete\<close>, and what this gives for the scheduler: it meets the
  contract \<open>cqe_handlers\<close>, so draining is total, and a fiber that waits for a chain of
  operations gets their results.
\<close>

subsection \<open>The handler classes\<close>

text \<open>
  The multishot handlers carry their own address. An acceptor also carries the value of the
  promise it fulfilled last, which the suspended call of \<open>next\<close> has yet to take.
\<close>

datatype 'b handler =
    H_await "int promise"
  | H_zc send_zc_handler
  | H_recv u64 "'b multishot_recv"
  | H_accept u64 acceptor "int option"

definition await_complete :: "int promise \<Rightarrow> int \<Rightarrow> (int promise \<times> nat option) outcome" where
  "await_complete p res = map_outcome_state (\<lambda>p'. (p', p_fiber p)) (promise_set_value p res)"

definition complete_handler :: "liburing \<Rightarrow> 'b buf_ring_ops \<Rightarrow> 'b handler complete_fn" where
  "complete_handler lu bo h r res flags =
     (case h of
        H_await p \<Rightarrow> map_outcome_state (\<lambda>(p', w). (H_await p', r, w)) (await_complete p res)
      | H_zc z \<Rightarrow> map_outcome_state (\<lambda>z'. (H_zc z', r, if p_value (zc_promise z') = None then None else p_fiber (zc_promise z')))
          (send_zc_complete z res flags)
      | H_recv self m \<Rightarrow> map_outcome_state (\<lambda>(m', r', w). (H_recv self m', r', w)) (recv_complete bo lu self m r res flags)
      | H_accept self a fut \<Rightarrow> map_outcome_state
          (\<lambda>(a', r', w). (H_accept self a' (case w of None \<Rightarrow> fut | Some (_, v) \<Rightarrow> Some v), r', map_option fst w))
          (acc_complete lu self a r res flags))"

subsection \<open>What each class can be given\<close>

text \<open>
  One completion for an awaitable; for a zero-copy send a result and, if more was announced,
  a notification; for a receiver, ends that bring a buffer bring one of its own.
\<close>

fun zc_protocol :: "bool \<Rightarrow> (int \<times> u32) list \<Rightarrow> bool" where
  "zc_protocol finished [] = True"
| "zc_protocol finished ((res, flags) # xs) =
     (\<not> finished \<and> zc_protocol (flags AND IORING_CQE_F_NOTIF \<noteq> 0 \<or> flags AND IORING_CQE_F_MORE = 0) xs)"

definition recv_accepts :: "'b multishot_recv \<Rightarrow> (int \<times> u32) list \<Rightarrow> bool" where
  "recv_accepts m xs \<longleftrightarrow> buf_ring m \<noteq> None \<and>
     (\<forall>(res, flags) \<in> set xs. res \<le> 0 \<longrightarrow> flags AND IORING_CQE_F_BUFFER \<noteq> 0 \<longrightarrow>
        size_mul (unat (cqe_buf_id flags)) (mr_buf_size m) + mr_buf_size m \<le> sp_size (buf_storage m))"

definition handler_accepts :: "'b handler \<Rightarrow> (int \<times> u32) list \<Rightarrow> bool" where
  "handler_accepts h xs =
     (case h of
        H_await p \<Rightarrow> xs = [] \<or> (p_value p = None \<and> length xs = 1)
      | H_zc z \<Rightarrow> zc_protocol (p_value (zc_promise z) \<noteq> None) xs
      | H_recv self m \<Rightarrow> recv_accepts m xs
      | H_accept self a fut \<Rightarrow> True)"

lemma submit_empties: "sq (snd (io_uring_submit (sq_of_size n) r)) = []" "cq (snd (io_uring_submit lu r)) = cq r"
  by (simp_all add: io_uring_submit_def sq_of_size_def)

lemma await_complete_ok:
  "p_value p = None \<Longrightarrow> await_complete p res = Ret (p\<lparr>p_value := Some res\<rparr>, p_fiber p)"
  by (simp add: await_complete_def promise_set_value_def)

lemma zc_complete_accepts:
  assumes "zc_protocol (p_value (zc_promise z) \<noteq> None) ((res, flags) # xs)"
  shows "\<exists>z'. send_zc_complete z res flags = Ret z' \<and> zc_protocol (p_value (zc_promise z') \<noteq> None) xs"
  using assms
  by (cases "p_value (zc_promise z)") (auto simp: send_zc_complete_def send_zc_fulfil_def promise_set_value_def Let_def)

lemma recv_complete_accepts:
  assumes "recv_accepts m ((res, flags) # xs)" and "sq r = []"
  shows "\<exists>m' r' w. recv_complete bo (sq_of_size n) self m r res flags = Ret (m', r', w) \<and> recv_accepts m' xs
    \<and> sq r' = [] \<and> cq r' = cq r"
proof (cases "0 < res")
  case True
  then show ?thesis using assms
    by (auto simp: recv_complete_def Let_def recv_arm_eval recv_accepts_def submit_empties)
next
  case False
  then show ?thesis using assms
    by (auto simp: recv_complete_def Let_def recv_accepts_def recv_return_buffer_def subspan_Ret)
qed

lemma acc_complete_accepts:
  "sq r = [] \<Longrightarrow> \<exists>a' r' w. acc_complete (sq_of_size n) self a r res flags = Ret (a', r', w) \<and> sq r' = [] \<and> cq r' = cq r"
  by (simp add: acc_complete_eval submit_empties)

interpretation hs: cqe_handlers "complete_handler (sq_of_size n) bo" handler_accepts for n bo
proof
  fix h :: "'a handler" and res flags xs and r :: uring
  assume acc: "handler_accepts h ((res, flags) # xs)" and r: "sq r = []"
  show "\<exists>h' r' w. complete_handler (sq_of_size n) bo h r res flags = Ret (h', r', w) \<and> handler_accepts h' xs
    \<and> sq r' = [] \<and> cq r' = cq r"
  proof (cases h)
    case (H_await p)
    then show ?thesis using acc r by (simp add: complete_handler_def handler_accepts_def await_complete_ok)
  next
    case (H_zc z)
    then show ?thesis using acc r zc_complete_accepts [of z res flags xs]
      by (auto simp: complete_handler_def handler_accepts_def)
  next
    case (H_recv self m)
    then show ?thesis using acc recv_complete_accepts [OF _ r, of m res flags xs bo n self]
      by (auto simp: complete_handler_def handler_accepts_def)
  next
    case (H_accept self a fut)
    then show ?thesis using acc_complete_accepts [OF r, of n self a res flags]
      by (auto simp: complete_handler_def handler_accepts_def)
  qed
qed

subsection \<open>Waiting for a chain of operations\<close>

text \<open>
  \<open>wait_all\<close>: takes the results in the order of the awaitables, until one has none yet; the
  fiber is then blocked on that one. It returns the results taken and the awaitables left.
\<close>

fun wait_all :: "nat \<Rightarrow> u64 list \<Rightarrow> ('b handler, 't) sched \<Rightarrow> (('b handler, 't) sched \<times> int list \<times> u64 list) outcome" where
  "wait_all fiber [] s = Ret (s, [], [])"
| "wait_all fiber (a # as) s =
     (case handlers s a of
        Some (H_await p) \<Rightarrow> (case p_value p of
            Some v \<Rightarrow> map_outcome_state (\<lambda>(s', vs, rest). (s', v # vs, rest)) (wait_all fiber as s)
          | None \<Rightarrow> Ret (s\<lparr>handlers := (handlers s)(a \<mapsto> H_await (p\<lparr>p_fiber := Some fiber\<rparr>))\<rparr>, [], a # as))
      | _ \<Rightarrow> Undefined Dangling_handler)"

text \<open>The promise at an address.\<close>

definition promise_at :: "('b handler, 't) sched \<Rightarrow> u64 \<Rightarrow> int promise option" where
  "promise_at s a = (case handlers s a of Some (H_await p) \<Rightarrow> Some p | _ \<Rightarrow> None)"

lemma promise_at_Some: "promise_at s a = Some p \<longleftrightarrow> handlers s a = Some (H_await p)"
  by (auto simp: promise_at_def split: option.splits handler.splits)

lemma promise_at_ready [simp]: "promise_at (s\<lparr>ready := xs\<rparr>) a = promise_at s a"
  by (simp add: promise_at_def)

lemma drain_await:
  assumes "drain_cqe lu (complete_handler lu' bo) f b c (p, s) = Ret (p', s')" and "\<not> is_tag (cqe_user_data c)"
    and "promise_at s (cqe_user_data c) = Some q" and "p_value q = None"
  shows "promise_at s' (cqe_user_data c) = Some (q\<lparr>p_value := Some (cqe_res c)\<rparr>)"
    and "p_fiber q = Some fb \<Longrightarrow> fb \<in> set (ready s')"
  using assms
  by (auto simp: drain_cqe_def is_tag_def promise_at_Some complete_handler_def await_complete_ok Let_def awakened_def split: option.splits)

lemma drain_list_await:
  assumes "drain_list lu (complete_handler lu' bo) f cs (p, s) = Ret (p', s')" and "\<not> is_tag a" and "promise_at s a = Some q"
  shows "set (ready s) \<subseteq> set (ready s')
    \<and> (completions_for a cs = [] \<longrightarrow> promise_at s' a = Some q)
    \<and> (\<forall>res fl. p_value q = None \<longrightarrow> completions_for a cs = [(res, fl)] \<longrightarrow>
         promise_at s' a = Some (q\<lparr>p_value := Some res\<rparr>) \<and> (\<forall>fb. p_fiber q = Some fb \<longrightarrow> fb \<in> set (ready s')))"
  using assms(1,3)
proof (induction cs arbitrary: p s q)
  case Nil
  then show ?case by (simp add: completions_for_def)
next
  case (Cons c cs)
  let ?s = "s\<lparr>s_ring := (s_ring s)\<lparr>cq := tl (cq (s_ring s))\<rparr>\<rparr>"
  from Cons.prems(1) obtain p1 s1
    where d: "drain_cqe lu (complete_handler lu' bo) f False c (p, ?s) = Ret (p1, s1)"
      and rest: "drain_list lu (complete_handler lu' bo) f cs (p1, s1) = Ret (p', s')"
    by (auto simp: outcome_simps)
  have q: "promise_at ?s a = Some q" using Cons.prems(2) by (simp add: promise_at_def)
  have rdy: "set (ready s) \<subseteq> set (ready s1)" using drain_cqe_frame [OF d, of a] by simp
  show ?case
  proof (cases "cqe_user_data c = a")
    case False
    then have "promise_at s1 a = Some q" using drain_cqe_frame [OF d, of a] q by (simp add: promise_at_def)
    from Cons.IH [OF rest this] rdy False show ?thesis by (auto simp: completions_for_Cons)
  next
    case True
    show ?thesis
    proof (cases "p_value q")
      case None
      with True q drain_await [OF d] assms(2)
      have "promise_at s1 a = Some (q\<lparr>p_value := Some (cqe_res c)\<rparr>)"
        and "\<forall>fb. p_fiber q = Some fb \<longrightarrow> fb \<in> set (ready s1)" by auto
      from Cons.IH [OF rest this(1)] this(2) rdy True show ?thesis by (auto simp: completions_for_Cons)
    next
      case (Some v)
      with True q assms(2) d show ?thesis
        by (simp add: drain_cqe_def is_tag_def promise_at_Some complete_handler_def await_complete_def promise_set_value_def)
    qed
  qed
qed

text \<open>
  The rest of a wait. In each round other code of the worker runs (\<open>g\<close>, any change of the
  state), the completions \<open>cs\<close> are in the ring and are drained, and the fiber runs on if it
  has become ready.
\<close>

definition resume_wait :: "nat \<Rightarrow> u64 list \<Rightarrow> ('b handler, 't) sched \<Rightarrow> (('b handler, 't) sched \<times> int list \<times> u64 list) outcome" where
  "resume_wait fiber left s =
     (if fiber \<in> set (ready s) then wait_all fiber left (s\<lparr>ready := remove1 fiber (ready s)\<rparr>) else Ret (s, [], left))"

type_synonym ('b, 't) round = "('t pool \<times> ('b handler, 't) sched \<Rightarrow> 't pool \<times> ('b handler, 't) sched) \<times> cqe list"

fun wait_rounds :: "liburing \<Rightarrow> 'b buf_ring_ops \<Rightarrow> fds \<Rightarrow> nat \<Rightarrow> ('b, 't) round list \<Rightarrow>
    't pool \<times> ('b handler, 't) sched \<Rightarrow> u64 list \<Rightarrow> (('t pool \<times> ('b handler, 't) sched) \<times> int list \<times> u64 list) outcome" where
  "wait_rounds lu bo f fiber [] ps left = Ret (ps, [], left)"
| "wait_rounds lu bo f fiber ((g, cs) # rs) ps left =
     bind_outcome (drain_cqes lu (complete_handler lu bo) f (g ps)) (\<lambda>(p1, s1).
       bind_outcome (resume_wait fiber left s1) (\<lambda>(s2, vs, left').
         map_outcome_state (\<lambda>(ps', ws, left''). (ps', vs @ ws, left'')) (wait_rounds lu bo f fiber rs (p1, s2) left')))"

text \<open>
  What the other code leaves alone, and what it leaves in place: the awaitables of the
  waiting fiber, an empty submission queue, fewer cancel requests than entries, and a live
  handler for every other completion.
\<close>

definition round_ok :: "nat \<Rightarrow> u64 list \<Rightarrow> ('b, 't) round \<Rightarrow> bool" where
  "round_ok n aws rd \<longleftrightarrow> (\<forall>ps. (\<forall>a \<in> set aws. handlers (snd (fst rd ps)) a = handlers (snd ps) a)
     \<and> sq (s_ring (snd (fst rd ps))) = [] \<and> length (cancel_queue (snd (fst rd ps))) < n \<and> cq (s_ring (snd (fst rd ps))) = snd rd
     \<and> (\<forall>a. \<not> is_tag a \<longrightarrow> a \<notin> set aws \<longrightarrow> completions_for a (snd rd) \<noteq> [] \<longrightarrow>
          (\<exists>h. handlers (snd (fst rd ps)) a = Some h \<and> handler_accepts h (completions_for a (snd rd)))))"

text \<open>An awaitable whose result is \<open>v\<close>: still to come in \<open>cs\<close>, exactly once, or already there.\<close>

definition await_state :: "cqe list \<Rightarrow> u64 \<Rightarrow> int \<Rightarrow> int promise \<Rightarrow> bool" where
  "await_state cs a v q \<longleftrightarrow>
     (p_value q = None \<and> (\<exists>fl. completions_for a cs = [(v, fl)])) \<or> (p_value q = Some v \<and> completions_for a cs = [])"

definition await_inv :: "nat \<Rightarrow> (u64 \<Rightarrow> int) \<Rightarrow> u64 list \<Rightarrow> cqe list \<Rightarrow> u64 list \<Rightarrow> ('b handler, 't) sched \<Rightarrow> bool" where
  "await_inv fiber res aws cs left s \<longleftrightarrow>
     (\<forall>a \<in> set aws. \<not> is_tag a \<and> (\<exists>q. promise_at s a = Some q \<and> await_state cs a (res a) q)) \<and> set left \<subseteq> set aws \<and>
     (\<forall>a as. left = a # as \<longrightarrow> (\<exists>q. promise_at s a = Some q \<and> p_value q = None \<and> p_fiber q = Some fiber))"

lemma completions_for_append: "completions_for a (cs @ ds) = completions_for a cs @ completions_for a ds"
  by (simp add: completions_for_def)

lemma wait_all_eval:
  assumes "\<forall>a \<in> set left. \<exists>q. promise_at s a = Some q \<and> await_state cs a (res a) q" and "distinct left"
  shows "\<exists>s' left'. wait_all fiber left s = Ret (s', map res (take (length left - length left') left), left')
    \<and> suffix left' left \<and> ready s' = ready s
    \<and> (\<forall>a q. promise_at s a = Some q \<longrightarrow> (\<exists>q'. promise_at s' a = Some q' \<and> p_value q' = p_value q))
    \<and> (\<forall>a as. left' = a # as \<longrightarrow> (\<exists>q. promise_at s' a = Some q \<and> p_value q = None \<and> p_fiber q = Some fiber))"
  using assms
proof (induction left)
  case Nil
  then show ?case by (intro exI [of _ s] exI [of _ "[]"]) simp
next
  case (Cons a as)
  from Cons.prems(1) obtain q where q: "handlers s a = Some (H_await q)" "await_state cs a (res a) q"
    by (auto simp: promise_at_Some)
  show ?case
  proof (cases "p_value q")
    case None
    let ?s = "s\<lparr>handlers := (handlers s)(a \<mapsto> H_await (q\<lparr>p_fiber := Some fiber\<rparr>))\<rparr>"
    show ?thesis using q(1) None
      by (intro exI [of _ ?s] exI [of _ "a # as"]) (auto simp: promise_at_Some)
  next
    case (Some v)
    then have v: "v = res a" using q(2) by (simp add: await_state_def)
    from Cons obtain s' left' where IH: "wait_all fiber as s = Ret (s', map res (take (length as - length left') as), left')"
      "suffix left' as" "ready s' = ready s"
      "\<forall>a q. promise_at s a = Some q \<longrightarrow> (\<exists>q'. promise_at s' a = Some q' \<and> p_value q' = p_value q)"
      "\<forall>a as. left' = a # as \<longrightarrow> (\<exists>q. promise_at s' a = Some q \<and> p_value q = None \<and> p_fiber q = Some fiber)" by auto
    have "length left' \<le> length as" using IH(2) by (rule suffix_length_le)
    then show ?thesis using IH q(1) Some v
      by (intro exI [of _ s'] exI [of _ left']) (simp add: suffix_Cons Suc_diff_le)
  qed
qed

lemma await_state_split:
  assumes "await_state (cs @ ds) a v q"
  shows "(completions_for a cs = [] \<and> await_state ds a v q)
    \<or> (\<exists>fl. completions_for a cs = [(v, fl)] \<and> p_value q = None \<and> await_state ds a v (q\<lparr>p_value := Some v\<rparr>))"
  using assms by (auto simp: await_state_def completions_for_append append_eq_Cons_conv)

lemma round_drain:
  assumes inv: "await_inv fiber res aws (cs @ rest) left s" and rd: "round_ok n aws (g, cs)"
  shows "\<exists>p1 s1. drain_cqes (sq_of_size n) (complete_handler (sq_of_size n) bo) f (g (p, s)) = Ret (p1, s1)
    \<and> (\<forall>a \<in> set aws. \<exists>q. promise_at s1 a = Some q \<and> await_state rest a (res a) q)
    \<and> (\<forall>a as. left = a # as \<longrightarrow> (\<exists>q. promise_at s1 a = Some q \<and> p_fiber q = Some fiber \<and> (p_value q = None \<or> fiber \<in> set (ready s1))))"
proof -
  obtain p0 s0 where g: "g (p, s) = (p0, s0)" by (cases "g (p, s)")
  have s0: "\<forall>a \<in> set aws. handlers s0 a = handlers s a" "sq (s_ring s0) = []" "length (cancel_queue s0) < n" "cq (s_ring s0) = cs"
    "\<forall>a. \<not> is_tag a \<longrightarrow> a \<notin> set aws \<longrightarrow> completions_for a cs \<noteq> [] \<longrightarrow> (\<exists>h. handlers s0 a = Some h \<and> handler_accepts h (completions_for a cs))"
    using rd [unfolded round_ok_def, THEN spec, of "(p, s)"] by (simp_all add: g)
  have q: "\<exists>q. promise_at s0 a = Some q \<and> await_state (cs @ rest) a (res a) q \<and> promise_at s a = Some q" if "a \<in> set aws" for a
    using inv s0(1) that by (auto simp: await_inv_def promise_at_def)
  have acc: "handler_accepts (H_await q) (completions_for a cs)" if "await_state (cs @ rest) a (res a) q" for a q
    using await_state_split [OF that] by (auto simp: handler_accepts_def)
  have "dispatchable handler_accepts cs (handlers s0)"
    using s0(5) q acc unfolding dispatchable_def promise_at_Some by metis
  from hs.drain_list_total [OF this s0(2,3,4)] obtain p1 s1
    where d: "drain_list (sq_of_size n) (complete_handler (sq_of_size n) bo) f cs (p0, s0) = Ret (p1, s1)" by blast
  have tag: "\<not> is_tag a" if "a \<in> set aws" for a using inv that by (auto simp: await_inv_def)
  have each: "\<exists>q'. promise_at s1 a = Some q' \<and> await_state rest a (res a) q' \<and> p_fiber q' = p_fiber q
      \<and> (p_value q' = None \<or> p_value q \<noteq> None \<or> (\<forall>fb. p_fiber q = Some fb \<longrightarrow> fb \<in> set (ready s1)))"
    if a: "a \<in> set aws" and pa: "promise_at s a = Some q" for a q
  proof -
    have p0: "promise_at s0 a = Some q" "await_state (cs @ rest) a (res a) q" using assms q [OF a] pa by auto
    note fx = drain_list_await [OF d tag [OF a] p0(1)]
    from await_state_split [OF p0(2)] show ?thesis
    proof (elim disjE exE conjE)
      assume "completions_for a cs = []" "await_state rest a (res a) q"
      then show ?thesis using fx by (intro exI [of _ q]) auto
    next
      fix fl assume "completions_for a cs = [(res a, fl)]" "p_value q = None" "await_state rest a (res a) (q\<lparr>p_value := Some (res a)\<rparr>)"
      then show ?thesis using fx by (intro exI [of _ "q\<lparr>p_value := Some (res a)\<rparr>"]) auto
    qed
  qed
  have "\<forall>a \<in> set aws. \<exists>q. promise_at s1 a = Some q \<and> await_state rest a (res a) q"
    using each q by metis
  moreover have "\<exists>q. promise_at s1 a = Some q \<and> p_fiber q = Some fiber \<and> (p_value q = None \<or> fiber \<in> set (ready s1))"
    if l: "left = a # as" for a as
  proof -
    have "a \<in> set aws" "\<exists>q. promise_at s a = Some q \<and> p_value q = None \<and> p_fiber q = Some fiber"
      using inv l by (auto simp: await_inv_def)
    then show ?thesis using each by metis
  qed
  ultimately show ?thesis using d g s0(4) by (auto simp: drain_cqes_def)
qed

lemma wait_rounds_total:
  assumes "await_inv fiber res aws (concat (map snd rs)) left s" and "distinct left" and "\<forall>rd \<in> set rs. round_ok n aws rd"
  shows "\<exists>ps. wait_rounds (sq_of_size n) bo f fiber rs (p, s) left = Ret (ps, map res left, [])"
  using assms
proof (induction rs arbitrary: p s left)
  case Nil
  then show ?case by (cases left) (auto simp: await_inv_def await_state_def completions_for_def)
next
  case (Cons rd rs)
  obtain g cs where rd: "rd = (g, cs)" by (cases rd)
  let ?rest = "concat (map snd rs)"
  have sub: "set left \<subseteq> set aws" and tags: "\<forall>a \<in> set aws. \<not> is_tag a" using Cons.prems(1) by (auto simp: await_inv_def)
  from round_drain [of fiber res aws cs ?rest left s n g bo f p] Cons.prems rd obtain p1 s1
    where d: "drain_cqes (sq_of_size n) (complete_handler (sq_of_size n) bo) f (g (p, s)) = Ret (p1, s1)"
      and all: "\<forall>a \<in> set aws. \<exists>q. promise_at s1 a = Some q \<and> await_state ?rest a (res a) q"
      and hd: "\<forall>a as. left = a # as \<longrightarrow> (\<exists>q. promise_at s1 a = Some q \<and> p_fiber q = Some fiber \<and> (p_value q = None \<or> fiber \<in> set (ready s1)))"
    by auto
  have "\<exists>s2 left'. resume_wait fiber left s1 = Ret (s2, map res (take (length left - length left') left), left')
      \<and> suffix left' left \<and> await_inv fiber res aws ?rest left' s2"
  proof (cases "fiber \<in> set (ready s1)")
    case False
    then show ?thesis using hd all sub tags by (intro exI [of _ s1] exI [of _ left]) (fastforce simp: resume_wait_def await_inv_def)
  next
    case True
    let ?s = "s1\<lparr>ready := remove1 fiber (ready s1)\<rparr>"
    have "\<forall>a \<in> set left. \<exists>q. promise_at ?s a = Some q \<and> await_state ?rest a (res a) q"
      using all sub by auto
    from wait_all_eval [OF this Cons.prems(2), of fiber] obtain s2 left'
      where w: "wait_all fiber left ?s = Ret (s2, map res (take (length left - length left') left), left')" "suffix left' left"
        "\<forall>a q. promise_at ?s a = Some q \<longrightarrow> (\<exists>q'. promise_at s2 a = Some q' \<and> p_value q' = p_value q)"
        "\<forall>a as. left' = a # as \<longrightarrow> (\<exists>q. promise_at s2 a = Some q \<and> p_value q = None \<and> p_fiber q = Some fiber)" by blast
    have "\<exists>q. promise_at s2 a = Some q \<and> await_state ?rest a (res a) q" if aw: "a \<in> set aws" for a
    proof -
      obtain q where "promise_at ?s a = Some q" "await_state ?rest a (res a) q" using all aw by auto
      with w(3) show ?thesis by (fastforce simp: await_state_def)
    qed
    moreover have "set left' \<subseteq> set aws" using set_mono_suffix [OF w(2)] sub by blast
    ultimately show ?thesis using w True tags by (auto simp: resume_wait_def await_inv_def)
  qed
  then obtain s2 left' where r: "resume_wait fiber left s1 = Ret (s2, map res (take (length left - length left') left), left')"
    and suf: "suffix left' left" and inv: "await_inv fiber res aws ?rest left' s2" by blast
  from suf obtain taken where dn: "left = taken @ left'" by (auto simp: suffix_def)
  with Cons.prems(2) have "distinct left'" by simp
  from Cons.IH [OF inv this, of p1] Cons.prems(3) obtain ps where "wait_rounds (sq_of_size n) bo f fiber rs (p1, s2) left' = Ret (ps, map res left', [])"
    by auto
  with d r dn show ?case by (simp add: rd)
qed

subsection \<open>Properties\<close>

text \<open>
  C7. Draining is total. If every completion in the ring that is not tagged belongs to a
  live handler that can be given what is queued for it (one completion for an awaitable, the
  two-phase protocol for a zero-copy send, buffers of its own for a receiver), nothing is
  left unsubmitted and fewer cancel requests than entries are queued, then \<open>drain_cqes\<close>
  handles all of them without undefined behaviour and leaves both queues empty.
\<close>

theorem drain_cqes_total:
  assumes "dispatchable handler_accepts (cq (s_ring s)) (handlers s)" and "sq (s_ring s) = []" and "length (cancel_queue s) < n"
  shows "\<exists>p' s'. drain_cqes (sq_of_size n) (complete_handler (sq_of_size n) bo) f (p, s) = Ret (p', s')
    \<and> cq (s_ring s') = [] \<and> sq (s_ring s') = [] \<and> length (cancel_queue s') < n"
  using hs.drain_list_total [OF assms refl] by (auto simp: drain_cqes_def)

definition example_fds :: fds where
  "example_fds = \<lparr>eventfd_fd = 5, notify_fd = 6, work_efd_val = 0, notify_val = 0\<rparr>"

definition example_pool :: "nat pool" where
  "example_pool = \<lparr>work_queue = [], efd = 0, running = True, in_flight = 1, pool_stop = False, launched = [0]\<rparr>"

definition waiting_sched :: "cqe list \<Rightarrow> (ref_ring handler, nat) sched" where
  "waiting_sched cs = \<lparr>s_ring = empty_uring\<lparr>cq := cs\<rparr>, notify_count = 0, ready = [], cancel_queue = [],
     handlers = [4096 \<mapsto> H_await (fresh_promise (Some 3))], pool_cbs = [], fiber_cbs = [], spawned = []\<rparr>"

theorem drain_cqes_total_witness:
  "\<exists>p' s'. drain_cqes (sq_of_size 8) (complete_handler (sq_of_size 8) ref_bufs) example_fds
      (example_pool, waiting_sched [\<lparr>cqe_user_data = 4096, cqe_res = 7, cqe_flags = 0\<rparr>]) = Ret (p', s') \<and> cq (s_ring s') = []"
proof -
  let ?s = "waiting_sched [\<lparr>cqe_user_data = 4096, cqe_res = 7, cqe_flags = 0\<rparr>]"
  have "dispatchable handler_accepts (cq (s_ring ?s)) (handlers ?s)" "sq (s_ring ?s) = []" "length (cancel_queue ?s) < 8"
    by (auto simp: dispatchable_def waiting_sched_def completions_for_def handler_accepts_def fresh_promise_def empty_uring_def)
  from drain_cqes_total [OF this, of ref_bufs example_fds example_pool] show ?thesis by blast
qed

lemma begin_wait_promises:
  assumes "oe_mk e = H_await" and "a \<in> set aws"
  shows "promise_at (begin_wait e aws s) a = Some (fresh_promise (if a = hd aws then Some (oe_fiber e) else None))"
proof -
  have "hd aws \<in> set aws" using assms(2) by (cases aws) auto
  then show ?thesis
    using assms by (simp add: begin_wait_def register_pool_cb_def register_fiber_cb_def run_cancel_eval promise_at_def Let_def)
qed

lemma begin_wait_inv:
  assumes "oe_mk e = H_await" and "\<forall>a \<in> set aws. \<not> is_tag a" and "\<forall>a \<in> set aws. \<exists>fl. completions_for a cs = [(res a, fl)]"
  shows "await_inv (oe_fiber e) res aws cs aws (begin_wait e aws s)"
  using assms by (auto simp: await_inv_def begin_wait_promises await_state_def fresh_promise_def)

text \<open>
  C2. A chain gets its results. One to eight distinct entries of the queue, wherever they
  stand, are handed to the kernel with all others in one submission: every entry keeps its
  request, and those of the chain but the last are linked. Then let the completions of the
  chain's entries arrive in any order and grouping, one for each entry, between
  them any other activity of the worker that leaves the awaitables alone. The fiber is
  woken whenever the result it waits for is there, \<open>wait_all\<close> ends, nothing is undefined, and
  \<open>out[k]\<close> is the result of the entry \<open>sqes[k]\<close>.
\<close>

theorem linked_chain_results:
  assumes "submits (oe_lu e)" and "oe_mk e = H_await" and "distinct is" and "\<forall>i \<in> set is. i < length (sq (s_ring s))"
    and "is \<noteq> []" and "length is \<le> 8" and "length is \<le> length (oe_aws e)"
    and "aws = take (length is) (oe_aws e)" and "distinct aws" and "\<forall>a \<in> set aws. \<not> is_tag a"
  shows "\<exists>s1 q. submit_linked_and_wait e (map Some is) (length is) s = Ret (s1, None)
    \<and> inflight (s_ring s1) = inflight (s_ring s) @ q \<and> sq (s_ring s1) = []
    \<and> map sqe_req q = map sqe_req (sq (s_ring s))
    \<and> (\<forall>k < length is. sqe_flags (q ! (is ! k)) = sqe_flags (sq (s_ring s) ! (is ! k)) OR (if Suc k < length is then IOSQE_IO_LINK else 0))
    \<and> (\<forall>n rs res. (\<forall>rd \<in> set rs. round_ok n aws rd)
          \<and> (\<forall>k < length is. \<exists>fl. completions_for (sqe_user_data (q ! (is ! k))) (concat (map snd rs)) = [(res k, fl)]) \<longrightarrow>
        (\<exists>ps. wait_rounds (sq_of_size n) bo f (oe_fiber e) rs (p, s1) aws = Ret (ps, map res [0..<length is], [])))"
proof -
  from submit_linked_anywhere [OF assms(1,3,4,5,6,7,8)] obtain q
    where q: "submit_linked_and_wait e (map Some is) (length is) s = Ret (begin_wait e aws (submitted q s), None)" "length q = length (sq (s_ring s))"
      "\<forall>j < length q. sqe_req (q ! j) = sqe_req (sq (s_ring s) ! j)"
      and ud: "\<forall>k < length is. sqe_user_data (q ! (is ! k)) = aws ! k
        \<and> sqe_flags (q ! (is ! k)) = sqe_flags (sq (s_ring s) ! (is ! k)) OR (if Suc k < length is then IOSQE_IO_LINK else 0)" by blast
  let ?s1 = "begin_wait e aws (submitted q s)"
  have la: "length aws = length is" using assms(7,8) by simp
  have results: "\<exists>ps. wait_rounds (sq_of_size n) bo f (oe_fiber e) rs (p, ?s1) aws = Ret (ps, map res [0..<length is], [])"
    if rs: "\<forall>rd \<in> set rs. round_ok n aws rd"
      and one: "\<forall>k < length is. \<exists>fl. completions_for (sqe_user_data (q ! (is ! k))) (concat (map snd rs)) = [(res k, fl)]" for n rs res
  proof -
    define res' where "res' = the \<circ> map_of (zip aws (map res [0..<length is]))"
    have res': "res' (aws ! k) = res k" if "k < length is" for k
      using that la assms(9) map_of_zip_nth [of aws "map res [0..<length is]" k] by (simp add: res'_def)
    have "\<forall>a \<in> set aws. \<exists>fl. completions_for a (concat (map snd rs)) = [(res' a, fl)]"
      using one ud la res' by (auto simp: in_set_conv_nth)
    from wait_rounds_total [OF begin_wait_inv [OF assms(2,10) this] assms(9) rs]
    have "\<exists>ps. wait_rounds (sq_of_size n) bo f (oe_fiber e) rs (p, ?s1) aws = Ret (ps, map res' aws, [])" .
    moreover have "map res' aws = map res [0..<length is]" using la res' by (auto intro: nth_equalityI)
    ultimately show ?thesis by simp
  qed
  have ring: "inflight (s_ring ?s1) = inflight (s_ring s) @ q" "sq (s_ring ?s1) = []"
    by (simp_all add: begin_wait_def register_pool_cb_def register_fiber_cb_def run_cancel_eval submitted_def Let_def)
  have "map sqe_req q = map sqe_req (sq (s_ring s))" using q(2,3) by (auto intro: nth_equalityI)
  with q(1) ud results show ?thesis by (intro exI [of _ ?s1] exI [of _ q]) (simp add: ring)
qed

text \<open>Rounds in which nothing else happens but the arrival of completions.\<close>

definition arrive :: "cqe list \<Rightarrow> ('b, 't) round" where
  "arrive cs = ((\<lambda>(p, s). (p, s\<lparr>s_ring := (s_ring s)\<lparr>sq := [], cq := cs\<rparr>, cancel_queue := []\<rparr>)), cs)"

lemma arrive_ok:
  "(\<forall>c \<in> set cs. cqe_user_data c \<in> set aws \<or> is_tag (cqe_user_data c)) \<Longrightarrow> 0 < n \<Longrightarrow> round_ok n aws (arrive cs)"
  by (auto simp: round_ok_def arrive_def completions_for_def filter_empty_conv split: prod.splits)

definition await_env :: "ref_ring handler op_env" where
  "await_env = \<lparr>oe_lu = sq_of_size 8, oe_mk = H_await, oe_fiber = 3, oe_pool_st = \<lparr>stop_possible = True, stop_requested = False\<rparr>,
     oe_fiber_st = no_token, oe_aws = [4096, 8192]\<rparr>"

theorem linked_chain_results_witness:
  "\<exists>s1 ps. submit_linked_and_wait await_env [Some 1, Some 0] 2
       ((waiting_sched [])\<lparr>s_ring := empty_uring\<lparr>sq := [blank_sqe, blank_sqe]\<rparr>\<rparr>) = Ret (s1, None)
     \<and> wait_rounds (sq_of_size 8) ref_bufs example_fds 3
         [arrive [\<lparr>cqe_user_data = 8192, cqe_res = 20, cqe_flags = 0\<rparr>], arrive [\<lparr>cqe_user_data = 4096, cqe_res = 10, cqe_flags = 0\<rparr>]]
         (example_pool, s1) [4096, 8192] = Ret (ps, [10, 20], [])"
proof -
  let ?e = "await_env" and ?s = "(waiting_sched [])\<lparr>s_ring := empty_uring\<lparr>sq := [blank_sqe, blank_sqe]\<rparr>\<rparr>"
  let ?rs = "[arrive [\<lparr>cqe_user_data = 8192, cqe_res = 20, cqe_flags = 0\<rparr>], arrive [\<lparr>cqe_user_data = 4096, cqe_res = 10, cqe_flags = 0\<rparr>]]
     :: (ref_ring, nat) round list"
  have h: "submits (oe_lu ?e)" "oe_mk ?e = H_await" "distinct [1, 0 :: nat]" "\<forall>i \<in> set [1, 0]. i < length (sq (s_ring ?s))" "[1, 0 :: nat] \<noteq> []"
    "length [1, 0 :: nat] \<le> 8" "length [1, 0 :: nat] \<le> length (oe_aws ?e)" "[4096, 8192] = take (length [1, 0 :: nat]) (oe_aws ?e)"
    "distinct [4096, 8192 :: u64]" "\<forall>a \<in> set [4096, 8192]. \<not> is_tag a"
    by (simp_all add: await_env_def empty_uring_def is_tag_def tag_defs)
  from linked_chain_results [OF h, of ref_bufs example_fds example_pool] obtain s1 q
    where s1: "submit_linked_and_wait ?e (map Some [1, 0]) (length [1, 0 :: nat]) ?s = Ret (s1, None)"
      and i: "inflight (s_ring s1) = inflight (s_ring ?s) @ q"
      and w: "\<And>n rs res. (\<forall>rd \<in> set rs. round_ok n [4096, 8192] rd)
          \<and> (\<forall>k < length [1, 0 :: nat]. \<exists>fl. completions_for (sqe_user_data (q ! ([1, 0] ! k))) (concat (map snd rs)) = [(res k, fl)]) \<longrightarrow>
        (\<exists>ps. wait_rounds (sq_of_size n) ref_bufs example_fds (oe_fiber ?e) rs (example_pool, s1) [4096, 8192] = Ret (ps, map res [0..<length [1, 0 :: nat]], []))"
    by blast
  have "submit_linked_and_wait ?e [Some 1, Some 0] 2 ?s = Ret (begin_wait ?e [4096, 8192] (submitted [set_data 8192 blank_sqe, set_link (set_data 4096 blank_sqe)] ?s), None)"
    by (simp add: submit_linked_and_wait_def k_max_linked_ops_def Let_def await_env_def edit_sqe_def empty_uring_def submit_then_wait_def
        io_uring_submit_def submitted_def not_less)
  moreover from s1 have "submit_linked_and_wait ?e [Some 1, Some 0] 2 ?s = Ret (s1, None)" by (simp add: numeral_2_eq_2)
  ultimately have q: "q = [set_data 8192 blank_sqe, set_link (set_data 4096 blank_sqe)]"
    using i by (auto simp: begin_wait_def register_pool_cb_def register_fiber_cb_def run_cancel_eval Let_def submitted_def await_env_def no_token_def empty_uring_def)
  have "\<forall>rd \<in> set ?rs. round_ok 8 [4096, 8192] rd" by (simp add: arrive_ok)
  moreover have "\<forall>k < length [1, 0 :: nat]. \<exists>fl. completions_for (sqe_user_data (q ! ([1, 0] ! k))) (concat (map snd ?rs)) = [(if k = 0 then 10 else 20, fl)]"
    by (auto simp: q less_Suc_eq arrive_def completions_for_def set_data_def set_link_def)
  ultimately have "\<exists>ps. wait_rounds (sq_of_size 8) ref_bufs example_fds (oe_fiber ?e) ?rs (example_pool, s1) [4096, 8192]
      = Ret (ps, map (\<lambda>k. if k = 0 then 10 else 20) [0..<length [1, 0 :: nat]], [])"
    by (intro w [THEN mp, of ?rs 8 "\<lambda>k. if k = 0 then 10 else 20"] conjI)
  moreover have "map (\<lambda>k. if k = 0 then 10 else 20 :: int) [0..<length [1, 0 :: nat]] = [10, 20]" by (simp add: upt_rec)
  moreover have "oe_fiber ?e = 3" by (simp add: await_env_def)
  moreover from s1 have "submit_linked_and_wait ?e [Some 1, Some 0] 2 ?s = Ret (s1, None)" by (simp add: numeral_2_eq_2)
  ultimately show ?thesis by (intro exI [of _ s1]) (simp only: simp_thms ex_simps)
qed

text \<open>
  C8. Stopping the pool cancels a waiting operation. A read is submitted and its fiber waits;
  then the pool's stop source fires. The wake-up that follows hands the kernel a cancel
  request for exactly the operations that wait, the read among them. When the cancelled read
  completes with \<open>-ECANCELED\<close>, alone or among other completions, the fiber is woken with that
  result and \<open>async_read\<close> throws \<open>std::system_error(ECANCELED)\<close>.
\<close>

theorem pool_stop_cancels_read:
  assumes "oe_lu e = sq_of_size n" and "oe_mk e = H_await" and "\<not> stop_requested (oe_fiber_st e)" and "\<not> stop_requested (oe_pool_st e)"
    and "aw = hd (oe_aws e)" and "\<not> is_tag aw" and "sq (s_ring s) = []" and "cancel_queue s = []" and "1 + length (concat (pool_cbs s)) < n"
    and "cqe_user_data c = k_notify_tag"
  shows "\<exists>s1 s2. async_read e fd buf None (Some s) = Ret (Some s1, None)
    \<and> drain_cqe (sq_of_size n) (complete_handler (sq_of_size n) bo) f b c (p, fire_pool_stop s1) = Ret (p, s2)
    \<and> inflight (s_ring s2) = inflight (s_ring s1) @ map (\<lambda>u. cancel_sqe u blank_sqe) (concat (pool_cbs s) @ [aw])
        @ [watch_sqe (notify_fd f) (notify_val f) k_notify_tag blank_sqe]
    \<and> (\<forall>rs fl. (\<forall>rd \<in> set rs. round_ok n [aw] rd) \<and> completions_for aw (concat (map snd rs)) = [(- ECANCELED, fl)] \<longrightarrow>
        (\<exists>ps. wait_rounds (sq_of_size n) bo f (oe_fiber e) rs (p, s2) [aw] = Ret (ps, [- ECANCELED], [])))
    \<and> result_or_throw ''async_read'' (- ECANCELED) = Throw (System_error ECANCELED ''async_read'')"
proof -
  let ?q = "sq (s_ring s) @ op_chain aw None (prep_fd fd (Rq_read (fd_index fd) (sp_data buf) (word_of_nat (sp_size buf)) 0) blank_sqe)"
  let ?s1 = "begin_wait e [aw] (submitted ?q s)"
  have room: "submits (oe_lu e)" "has_room e s" using assms(1,7,9) by (simp_all add: has_room_def)
  have s1: "async_read e fd buf None (Some s) = Ret (Some ?s1, None)"
    using start_op_ok [OF room assms(3)] by (simp add: async_read_def assms(5))
  have cbs: "pool_cbs ?s1 = pool_cbs s @ [[aw]]" "sq (s_ring ?s1) = []" "length (cancel_queue ?s1) \<le> (if stop_requested (oe_fiber_st e) then 1 else 0)"
    and cq: "cancel_queue ?s1 = []"
    using assms(3,4,8) by (simp_all add: begin_wait_def Let_def register_pool_cb_def register_fiber_cb_def submitted_def)
  let ?s2 = "fire_pool_stop ?s1"
  have f2: "cancel_queue ?s2 = concat (pool_cbs s) @ [aw]" "s_ring ?s2 = s_ring ?s1" "handlers ?s2 = handlers ?s1"
    using cbs cq by (simp_all add: fire_pool_stop_eval)
  let ?s3 = "?s2\<lparr>cancel_queue := [], s_ring := (s_ring ?s2)\<lparr>inflight := inflight (s_ring ?s2)
      @ map (\<lambda>u. cancel_sqe u blank_sqe) (cancel_queue ?s2)
      @ [watch_sqe (notify_fd f) (notify_val f) k_notify_tag blank_sqe]\<rparr>\<rparr>"
  have s3: "drain_cqe (sq_of_size n) (complete_handler (sq_of_size n) bo) f b c (p, ?s2) = Ret (p, ?s3)"
    using f2 cbs assms(9) by (intro drain_notify_room [OF assms(10)]) simp_all
  have "\<exists>ps. wait_rounds (sq_of_size n) bo f (oe_fiber e) rs (p, ?s3) [aw] = Ret (ps, [- ECANCELED], [])"
    if rs: "\<forall>rd \<in> set rs. round_ok n [aw] rd" "completions_for aw (concat (map snd rs)) = [(- ECANCELED, fl)]" for rs fl
  proof -
    have "await_inv (oe_fiber e) (\<lambda>_. - ECANCELED) [aw] (concat (map snd rs)) [aw] ?s1"
      using assms(6) rs(2) by (intro begin_wait_inv [OF assms(2)]) auto
    then have "await_inv (oe_fiber e) (\<lambda>_. - ECANCELED) [aw] (concat (map snd rs)) [aw] ?s3"
      using f2(3) by (simp add: await_inv_def promise_at_def)
    from wait_rounds_total [OF this _ rs(1)] show ?thesis by simp
  qed
  with s1 s3 f2 show ?thesis
    by (intro exI [of _ ?s1] exI [of _ ?s3]) (simp add: result_or_throw_def)
qed

theorem pool_stop_cancels_read_witness:
  "\<exists>s1 s2 ps. async_read await_env (fd_ref_of_int 9) \<lparr>sp_data = 64, sp_size = 16\<rparr> None (Some (waiting_sched [])) = Ret (Some s1, None)
    \<and> drain_cqe (sq_of_size 8) (complete_handler (sq_of_size 8) ref_bufs) example_fds False
        \<lparr>cqe_user_data = k_notify_tag, cqe_res = 8, cqe_flags = 0\<rparr> (example_pool, fire_pool_stop s1) = Ret (example_pool, s2)
    \<and> wait_rounds (sq_of_size 8) ref_bufs example_fds 3 [arrive [\<lparr>cqe_user_data = 4096, cqe_res = - ECANCELED, cqe_flags = 0\<rparr>]]
        (example_pool, s2) [4096] = Ret (ps, [- ECANCELED], [])"
proof -
  let ?rs = "[arrive [\<lparr>cqe_user_data = 4096, cqe_res = - ECANCELED, cqe_flags = 0\<rparr>]] :: (ref_ring, nat) round list"
  have h: "oe_lu await_env = sq_of_size 8" "oe_mk await_env = H_await" "\<not> stop_requested (oe_fiber_st await_env)"
    "\<not> stop_requested (oe_pool_st await_env)" "4096 = hd (oe_aws await_env)" "\<not> is_tag 4096" "oe_fiber await_env = 3"
    by (simp_all add: await_env_def no_token_def is_tag_def tag_defs)
  have s: "sq (s_ring (waiting_sched [])) = []" "cancel_queue (waiting_sched []) = []" "1 + length (concat (pool_cbs (waiting_sched []))) < 8"
    by (simp_all add: waiting_sched_def empty_uring_def)
  have c: "cqe_user_data \<lparr>cqe_user_data = k_notify_tag, cqe_res = 8, cqe_flags = 0\<rparr> = k_notify_tag" by simp
  from pool_stop_cancels_read [OF h(1-6) s c, of "fd_ref_of_int 9" "\<lparr>sp_data = 64, sp_size = 16\<rparr>" ref_bufs example_fds False example_pool,
      unfolded h(7)]
  obtain s1 s2 where r: "async_read await_env (fd_ref_of_int 9) \<lparr>sp_data = 64, sp_size = 16\<rparr> None (Some (waiting_sched [])) = Ret (Some s1, None)"
    "drain_cqe (sq_of_size 8) (complete_handler (sq_of_size 8) ref_bufs) example_fds False
        \<lparr>cqe_user_data = k_notify_tag, cqe_res = 8, cqe_flags = 0\<rparr> (example_pool, fire_pool_stop s1) = Ret (example_pool, s2)"
    and w: "\<forall>rs fl. (\<forall>rd \<in> set rs. round_ok 8 [4096] rd) \<and> completions_for 4096 (concat (map snd rs)) = [(- ECANCELED, fl)] \<longrightarrow>
        (\<exists>ps. wait_rounds (sq_of_size 8) ref_bufs example_fds 3 rs (example_pool, s2) [4096] = Ret (ps, [- ECANCELED], []))"
    by (elim exE conjE) (rule that)
  have "\<forall>rd \<in> set ?rs. round_ok 8 [4096] rd" by (simp add: arrive_ok)
  moreover have "completions_for 4096 (concat (map snd ?rs)) = [(- ECANCELED, 0)]" by (simp add: arrive_def completions_for_def)
  ultimately have "\<exists>ps. wait_rounds (sq_of_size 8) ref_bufs example_fds 3 ?rs (example_pool, s2) [4096] = Ret (ps, [- ECANCELED], [])"
    by (intro w [THEN spec, THEN spec, THEN mp] conjI)
  with r show ?thesis by (elim exE) (intro exI conjI)
qed

end
