(* ===== verification/Senders.thy ===== *)
theory Senders
  imports Submit
begin

text \<open>
  The sender side: completions, \<open>context::scheduler::schedule_sender\<close> of
  \<open>include/fiberexec/context.hpp\<close>, \<open>run_sender\<close> and the pipe form of \<open>include/fiberexec/run.hpp\<close>, and the
  bridge that carries a receiver's stop token into the fiber.

  stdexec is not part of the sources: a receiver is what it is completed with. The callable
  given to \<open>run\<close> is a function from the stop token of its fiber to its outcome, where
  \<open>Suspended\<close> means that it has not ended yet.
\<close>

subsection \<open>Completions\<close>

datatype 'v completion = Set_value 'v | Set_error exn | Set_stopped

subsection \<open>The stop bridge\<close>

text \<open>
  \<open>fiber_stop_\<close>: \<open>None\<close> is \<open>std::nostopstate\<close>, otherwise whether a stop was requested. Constructing the
  callback runs the forwarder at once when the receiver's token has been stopped before.
\<close>

record op_stop =
  fiber_stop :: "bool option"
  stop_cb :: bool

definition no_stop :: op_stop where
  "no_stop = \<lparr>fiber_stop = None, stop_cb = False\<rparr>"

definition stop_forwarder :: "op_stop \<Rightarrow> op_stop" where
  "stop_forwarder b = b\<lparr>fiber_stop := map_option (\<lambda>_. True) (fiber_stop b)\<rparr>"

definition bridge_start :: "stop_token \<Rightarrow> op_stop \<Rightarrow> op_stop" where
  "bridge_start env_tok b =
     (if stop_possible env_tok
      then let b1 = b\<lparr>fiber_stop := Some False, stop_cb := True\<rparr>
           in if stop_requested env_tok then stop_forwarder b1 else b1
      else b)"

text \<open>A stop request on the receiver's token later on.\<close>

definition env_stop :: "op_stop \<Rightarrow> op_stop" where
  "env_stop b = (if stop_cb b then stop_forwarder b else b)"

text \<open>\<open>fiber_stop_.get_token()\<close>, as it answers at a given moment.\<close>

definition bridge_token :: "op_stop \<Rightarrow> stop_token" where
  "bridge_token b =
     (case fiber_stop b of None \<Rightarrow> no_token | Some r \<Rightarrow> \<lparr>stop_possible = True, stop_requested = r\<rparr>)"

text \<open>What the fiber sees: the token is installed in its slot, then looked up.\<close>

definition fiber_token :: "nat \<Rightarrow> op_stop \<Rightarrow> (nat \<Rightarrow> stop_token option) \<Rightarrow> stop_token" where
  "fiber_token fiber b slots = current_fiber_stop_token fiber (install_fiber_stop_token fiber (bridge_token b) slots)"

subsection \<open>\<open>schedule\<close> and \<open>run\<close>\<close>

text \<open>A context is identified by its address; a scheduler refers to one.\<close>

record scheduler =
  sch_ctx :: nat

record schedule_sender =
  ss_ctx :: nat

record 'f run_sender =
  rs_ctx :: nat
  rs_fn :: 'f

record 'f run_closure =
  rc_fn :: 'f

definition schedule :: "scheduler \<Rightarrow> schedule_sender" where
  "schedule sched = \<lparr>ss_ctx = sch_ctx sched\<rparr>"

definition run_direct :: "scheduler \<Rightarrow> 'f \<Rightarrow> 'f run_sender" where
  "run_direct sched fn = \<lparr>rs_ctx = sch_ctx sched, rs_fn = fn\<rparr>"

definition run_pipe :: "'f \<Rightarrow> 'f run_closure" where
  "run_pipe fn = \<lparr>rc_fn = fn\<rparr>"

definition run_closure_call :: "'f run_closure \<Rightarrow> schedule_sender \<Rightarrow> 'f run_sender" where
  "run_closure_call c sndr = \<lparr>rs_ctx = ss_ctx sndr, rs_fn = rc_fn c\<rparr>"

text \<open>\<open>get_env(sender).query(get_completion_scheduler)\<close>.\<close>

definition run_completion_scheduler :: "'f run_sender \<Rightarrow> scheduler" where
  "run_completion_scheduler s = \<lparr>sch_ctx = rs_ctx s\<rparr>"

definition schedule_completion_scheduler :: "schedule_sender \<Rightarrow> scheduler" where
  "schedule_completion_scheduler s = \<lparr>sch_ctx = ss_ctx s\<rparr>"

text \<open>
  The task of \<open>run_sender::operation::start\<close> once the callable has ended: the completions it
  signals, in order, and the exception that leaves it.
\<close>

definition run_task :: "'v outcome \<Rightarrow> 'v completion list \<times> exn option" where
  "run_task r =
     (case r of
        Ret v \<Rightarrow> ([Set_value v], None)
      | Throw ex \<Rightarrow> (case ex of
            Forced_unwind \<Rightarrow> ([Set_stopped], Some Forced_unwind)
          | System_error code what \<Rightarrow> if code = ECANCELED then ([Set_stopped], None) else ([Set_error ex], None)
          | _ \<Rightarrow> ([Set_error ex], None))
      | _ \<Rightarrow> ([], None))"

text \<open>The task of \<open>schedule_sender::operation::start\<close>.\<close>

definition schedule_task_body :: "unit completion list" where
  "schedule_task_body = [Set_value ()]"

text \<open>An operation of \<open>run\<close> from its start to its completion on the fiber.\<close>

definition run_operation ::
  "stop_token \<Rightarrow> bool \<Rightarrow> nat \<Rightarrow> (nat \<Rightarrow> stop_token option) \<Rightarrow> (stop_token \<Rightarrow> 'v outcome) run_sender \<Rightarrow> 'v completion list \<times> exn option" where
  "run_operation env_tok stopped_later fiber slots s =
     (let b = bridge_start env_tok no_stop;
          b' = (if stopped_later then env_stop b else b)
      in run_task (rs_fn s (fiber_token fiber b' slots)))"

subsection \<open>Lemmas\<close>

lemma bridge_token_start:
  "bridge_token (bridge_start env_tok no_stop) =
     (if stop_possible env_tok then \<lparr>stop_possible = True, stop_requested = stop_requested env_tok\<rparr> else no_token)"
  by (simp add: bridge_token_def bridge_start_def no_stop_def stop_forwarder_def Let_def)

lemma fiber_token_bridge:
  assumes "slots fiber = None"
  shows "fiber_token fiber b slots = bridge_token b"
  using assms
  by (cases "fiber_stop b") (simp_all add: fiber_token_def bridge_token_def install_fiber_stop_token_def current_fiber_stop_token_def no_token_def)

text \<open>
  C6. Completion of \<open>run\<close>. The pipe form builds the same sender as the direct form, and both
  name the scheduler they were given. The fiber sees a stoppable token exactly when the
  receiver has one, stopped exactly when a stop was requested before or after the start. When
  the callable ends, the receiver is completed exactly once: with its value if it returned,
  with \<open>set_stopped\<close> if it threw \<open>system_error\<close> with code \<open>ECANCELED\<close> or is being unwound, and with
  the exception otherwise; only the unwinding exception is rethrown.
\<close>

theorem run_completion_mapping:
  assumes "slots fiber = None"
    and "tok = (if stop_possible env_tok then \<lparr>stop_possible = True, stop_requested = stop_requested env_tok \<or> later\<rparr> else no_token)"
    and "fn tok = Ret v \<or> fn tok = Throw ex"
  shows "run_closure_call (run_pipe fn) (schedule sched) = run_direct sched fn
    \<and> run_completion_scheduler (run_direct sched fn) = sched
    \<and> run_operation env_tok later fiber slots (run_direct sched fn) =
        (if fn tok = Ret v then ([Set_value v], None)
         else if ex = Forced_unwind then ([Set_stopped], Some Forced_unwind)
         else if \<exists>what. ex = System_error ECANCELED what then ([Set_stopped], None)
         else ([Set_error ex], None))
    \<and> length (fst (run_operation env_tok later fiber slots (run_direct sched fn))) = 1"
proof -
  let ?b = "bridge_start env_tok no_stop"
  have "bridge_token (if later then env_stop ?b else ?b) = tok"
    unfolding assms(2) by (auto simp: bridge_token_def bridge_start_def env_stop_def stop_forwarder_def no_stop_def Let_def)
  then have op: "run_operation env_tok later fiber slots (run_direct sched fn) = run_task (fn tok)"
    by (simp add: run_operation_def fiber_token_bridge [where slots = slots and fiber = fiber, OF assms(1)] run_direct_def Let_def)
  show ?thesis unfolding op using assms(3)
    by (cases ex) (auto simp: run_closure_call_def run_pipe_def schedule_def run_direct_def run_completion_scheduler_def run_task_def)
qed

theorem run_completion_mapping_witness:
  "run_operation \<lparr>stop_possible = True, stop_requested = False\<rparr> True 3 (\<lambda>_. None)
     (run_direct \<lparr>sch_ctx = 1\<rparr> (\<lambda>tok. if stop_requested tok then Throw (System_error ECANCELED ''async_read'') else Ret (5 :: nat)))
     = ([Set_stopped], None)"
  using run_completion_mapping [of "\<lambda>_. None" 3 "\<lparr>stop_possible = True, stop_requested = True\<rparr>" "\<lparr>stop_possible = True, stop_requested = False\<rparr>" True
      "\<lambda>tok. if stop_requested tok then Throw (System_error ECANCELED ''async_read'') else Ret (5 :: nat)" 0 "System_error ECANCELED ''async_read''"
      "\<lparr>sch_ctx = 1\<rparr>"]
  by simp

end
