(* ===== verification/Sync_Wait.thy ===== *)
theory Sync_Wait
  imports Senders Runs
begin

text \<open>
  \<open>include/fiberexec/sync_wait.hpp\<close>: a fiber awaits a sender. The waiting fiber and the completing
  thread share \<open>fiber_sync_state\<close>; each access of one of them to it is a step. The completing side
  signals one completion; storing a value may throw, which the receiver turns into an error.
\<close>

subsection \<open>State\<close>

datatype waiter = Sw_start | Sw_check | Sw_checked | Sw_parked | Sw_woken | Sw_returned

datatype completer = Cp_start | Cp_locked | Cp_stored | Cp_notify | Cp_done

datatype side = Waiter | Completer

text \<open>
  What a sender completes with. The argument of \<open>set_error\<close> is an \<open>exception_ptr\<close>, an \<open>error_code\<close>
  (the number and the message of the \<open>system_error\<close> made of it), or any other object, given as the
  exception it is when thrown.
\<close>

datatype error_arg = Er_ptr exn | Er_code int string | Er_object exn

datatype 'v signal = Sg_value 'v | Sg_error error_arg | Sg_stopped

record 'v sync_state =
  sy_value :: "'v option"
  sy_error :: "exn option"
  sy_done :: bool
  sy_mtx :: "side option"
  sy_waiter :: waiter
  sy_completer :: completer

definition sync_new :: "'v sync_state" where
  "sync_new = \<lparr>sy_value = None, sy_error = None, sy_done = False, sy_mtx = None, sy_waiter = Sw_start, sy_completer = Cp_start\<rparr>"

subsection \<open>Operations\<close>

text \<open>
  The bodies of \<open>set_value\<close>, \<open>set_error\<close> and \<open>set_stopped\<close> under the mutex. \<open>copy v\<close> is the exception
  thrown while the value is stored, if any.
\<close>

definition as_exception_ptr :: "error_arg \<Rightarrow> exn" where
  "as_exception_ptr e = (case e of Er_ptr ex \<Rightarrow> ex | Er_code c what \<Rightarrow> System_error c what | Er_object ex \<Rightarrow> ex)"

definition sync_store :: "('v \<Rightarrow> exn option) \<Rightarrow> 'v signal \<Rightarrow> 'v sync_state \<Rightarrow> 'v sync_state" where
  "sync_store copy c y =
     (case c of
        Sg_value v \<Rightarrow> (case copy v of None \<Rightarrow> y\<lparr>sy_value := Some v, sy_done := True\<rparr> | Some ex \<Rightarrow> y\<lparr>sy_error := Some ex, sy_done := True\<rparr>)
      | Sg_error e \<Rightarrow> y\<lparr>sy_error := Some (as_exception_ptr e), sy_done := True\<rparr>
      | Sg_stopped \<Rightarrow> y\<lparr>sy_done := True\<rparr>)"

definition sync_notify_all :: "'v sync_state \<Rightarrow> 'v sync_state" where
  "sync_notify_all y = (if sy_waiter y = Sw_parked then y\<lparr>sy_waiter := Sw_woken\<rparr> else y)"

text \<open>The end of \<open>sync_wait\<close>, after the wait.\<close>

definition sync_result :: "'v sync_state \<Rightarrow> 'v option outcome" where
  "sync_result y = (case sy_error y of Some ex \<Rightarrow> Throw ex | None \<Rightarrow> Ret (sy_value y))"

text \<open>Its beginning: outside a worker it throws.\<close>

definition sync_wait_begin :: "('h, 't) sched option \<Rightarrow> 'v sync_state outcome" where
  "sync_wait_begin th =
     (case th of None \<Rightarrow> Throw (Runtime_error ''sync_wait called outside of a fiberexec fiber'') | Some _ \<Rightarrow> Ret sync_new)"

inductive sync_step :: "('v \<Rightarrow> exn option) \<Rightarrow> 'v signal \<Rightarrow> 'v sync_state \<Rightarrow> 'v sync_state \<Rightarrow> bool"
  for copy :: "'v \<Rightarrow> exn option" and c :: "'v signal" where
  sc_lock: "sy_completer y = Cp_start \<Longrightarrow> sy_mtx y = None \<Longrightarrow> sync_step copy c y (y\<lparr>sy_completer := Cp_locked, sy_mtx := Some Completer\<rparr>)"
| sc_store: "sy_completer y = Cp_locked \<Longrightarrow> sync_step copy c y ((sync_store copy c y)\<lparr>sy_completer := Cp_stored\<rparr>)"
| sc_unlock: "sy_completer y = Cp_stored \<Longrightarrow> sync_step copy c y (y\<lparr>sy_completer := Cp_notify, sy_mtx := None\<rparr>)"
| sc_notify: "sy_completer y = Cp_notify \<Longrightarrow> sync_step copy c y ((sync_notify_all y)\<lparr>sy_completer := Cp_done\<rparr>)"
| sw_lock: "sy_waiter y = Sw_start \<or> sy_waiter y = Sw_woken \<Longrightarrow> sy_mtx y = None \<Longrightarrow>
     sync_step copy c y (y\<lparr>sy_waiter := Sw_check, sy_mtx := Some Waiter\<rparr>)"
| sw_return: "sy_waiter y = Sw_check \<Longrightarrow> sy_done y \<Longrightarrow> sync_step copy c y (y\<lparr>sy_waiter := Sw_returned, sy_mtx := None\<rparr>)"
| sw_check: "sy_waiter y = Sw_check \<Longrightarrow> \<not> sy_done y \<Longrightarrow> sync_step copy c y (y\<lparr>sy_waiter := Sw_checked\<rparr>)"
| sw_park: "sy_waiter y = Sw_checked \<Longrightarrow> sync_step copy c y (y\<lparr>sy_waiter := Sw_parked, sy_mtx := None\<rparr>)"

subsection \<open>Invariant\<close>

text \<open>What the documentation promises for each completion.\<close>

definition sync_spec :: "('v \<Rightarrow> exn option) \<Rightarrow> 'v signal \<Rightarrow> 'v option outcome" where
  "sync_spec copy c =
     (case c of
        Sg_value v \<Rightarrow> (case copy v of None \<Rightarrow> Ret (Some v) | Some ex \<Rightarrow> Throw ex)
      | Sg_error (Er_ptr ex) \<Rightarrow> Throw ex
      | Sg_error (Er_code c what) \<Rightarrow> Throw (System_error c what)
      | Sg_error (Er_object ex) \<Rightarrow> Throw ex
      | Sg_stopped \<Rightarrow> Ret None)"

definition sync_inv :: "('v \<Rightarrow> exn option) \<Rightarrow> 'v signal \<Rightarrow> 'v sync_state \<Rightarrow> bool" where
  "sync_inv copy c y \<longleftrightarrow>
     (sy_waiter y \<in> {Sw_check, Sw_checked} \<longleftrightarrow> sy_mtx y = Some Waiter) \<and>
     (sy_completer y \<in> {Cp_locked, Cp_stored} \<longleftrightarrow> sy_mtx y = Some Completer) \<and>
     (sy_done y \<longleftrightarrow> sy_completer y \<notin> {Cp_start, Cp_locked}) \<and>
     (if sy_done y then sync_result y = sync_spec copy c else sy_value y = None \<and> sy_error y = None) \<and>
     (sy_completer y = Cp_done \<longrightarrow> sy_waiter y \<noteq> Sw_parked) \<and>
     (sy_waiter y = Sw_checked \<longrightarrow> \<not> sy_done y) \<and>
     (sy_waiter y = Sw_returned \<longrightarrow> sy_done y) \<and> (sy_waiter y = Sw_woken \<longrightarrow> sy_done y)"

lemma sync_result_frame [simp]:
  "sync_result (y\<lparr>sy_completer := cp\<rparr>) = sync_result y" "sync_result (y\<lparr>sy_waiter := sw\<rparr>) = sync_result y"
  "sync_result (y\<lparr>sy_mtx := mx\<rparr>) = sync_result y"
  by (simp_all add: sync_result_def split: option.splits)

lemma sync_store_result:
  assumes "sy_value y = None" and "sy_error y = None"
  shows "sync_result (sync_store copy c y) = sync_spec copy c" "sy_done (sync_store copy c y)"
    "sy_mtx (sync_store copy c y) = sy_mtx y" "sy_waiter (sync_store copy c y) = sy_waiter y"
  using assms by (auto simp: sync_store_def sync_result_def sync_spec_def as_exception_ptr_def split: signal.splits error_arg.splits option.splits)

lemma sync_step_inv:
  assumes "sync_step copy c y y'" and "sync_inv copy c y"
  shows "sync_inv copy c y'"
  using assms(1)
proof cases
  case sc_store
  then show ?thesis using assms(2) sync_store_result [of y copy c] by (auto simp: sync_inv_def)
qed (use assms(2) in \<open>auto simp: sync_inv_def sync_notify_all_def\<close>)

subsection \<open>Termination\<close>

fun waiter_rank :: "bool \<Rightarrow> waiter \<Rightarrow> nat" where
  "waiter_rank d Sw_start = 5"
| "waiter_rank d Sw_check = (if d then 1 else 4)"
| "waiter_rank d Sw_checked = 3"
| "waiter_rank d Sw_parked = 3"
| "waiter_rank d Sw_woken = 2"
| "waiter_rank d Sw_returned = 0"

fun completer_rank :: "completer \<Rightarrow> nat" where
  "completer_rank Cp_start = 5"
| "completer_rank Cp_locked = 4"
| "completer_rank Cp_stored = 3"
| "completer_rank Cp_notify = 2"
| "completer_rank Cp_done = 0"

definition sync_rank :: "'v sync_state \<Rightarrow> nat" where
  "sync_rank y = 2 * waiter_rank (sy_done y) (sy_waiter y) + completer_rank (sy_completer y) - (if sy_waiter y = Sw_parked then 1 else 0)"

lemma sync_step_rank:
  assumes "sync_step copy c y y'" and "sync_inv copy c y"
  shows "sync_rank y' < sync_rank y"
  using assms(1)
proof cases
  case sc_store
  then show ?thesis using assms(2) sync_store_result [of y copy c] by (cases "sy_waiter y") (auto simp: sync_inv_def sync_rank_def)
qed (use assms(2) in \<open>auto simp: sync_inv_def sync_rank_def sync_notify_all_def split: if_splits\<close>)

definition sync_final :: "'v sync_state \<Rightarrow> bool" where
  "sync_final y \<longleftrightarrow> sy_waiter y = Sw_returned \<and> sy_completer y = Cp_done"

lemma sync_progress:
  assumes "sync_inv copy c y" and "\<not> sync_final y"
  shows "\<exists>y'. sync_step copy c y y'"
proof (cases "sy_mtx y")
  case None
  then show ?thesis using assms
    by (cases "sy_completer y"; cases "sy_waiter y") (auto simp: sync_inv_def sync_final_def intro: sync_step.intros)
next
  case (Some own)
  then show ?thesis using assms by (cases own; cases "sy_done y") (auto simp: sync_inv_def sync_final_def intro: sync_step.intros)
qed

interpretation sw: ranked_system "sync_step copy c" "sync_inv copy c" sync_rank sync_final for copy c
  by unfold_locales (auto intro: sync_step_inv sync_step_rank sync_progress simp: sync_final_def elim: sync_step.cases)

lemma sync_new_inv: "sync_inv copy c sync_new"
  by (simp add: sync_inv_def sync_new_def)

lemma sync_new_rank: "sync_rank sync_new = 15"
  by (simp add: sync_rank_def sync_new_def)

text \<open>
  C3. \<open>sync_wait\<close> returns the completion. However the waiting fiber and the completing thread
  interleave, every run has at most fifteen steps, never gets stuck before both are done (no
  wake-up is lost), and \<open>sync_wait\<close> then gives what the completion promises: the value, or
  \<open>nullopt\<close> for \<open>set_stopped\<close>, or the exception of \<open>set_error\<close> (an error code as a \<open>system_error\<close>) or of storing the value. It throws
  outside a worker.
\<close>

theorem sync_wait_returns:
  assumes "(sync_step copy c ^^ k) sync_new y"
  shows "k \<le> 15 \<and> ((\<nexists>y'. sync_step copy c y y') \<longleftrightarrow> sy_waiter y = Sw_returned \<and> sy_completer y = Cp_done)
    \<and> (sy_waiter y = Sw_returned \<longrightarrow> sync_result y = sync_spec copy c)
    \<and> sync_wait_begin None = Throw (Runtime_error ''sync_wait called outside of a fiberexec fiber'')"
proof -
  note inv = sw.steps_keep [OF assms sync_new_inv]
  have "k \<le> 15" using sw.run_bound [OF assms sync_new_inv] by (simp add: sync_new_rank)
  then show ?thesis using sw.maximal_final [OF inv] inv by (auto simp: sync_inv_def sync_final_def sync_wait_begin_def)
qed

text \<open>The waiter parks before the value arrives and is woken by it.\<close>

theorem sync_wait_returns_witness:
  "\<exists>k y. (sync_step (\<lambda>_. None) (Sg_value (5 :: nat)) ^^ k) sync_new y \<and> k \<le> 15 \<and> sy_waiter y = Sw_returned \<and> sync_result y = Ret (Some 5)"
proof -
  let ?step = "sync_step (\<lambda>_. None) (Sg_value (5 :: nat))"
  let ?y = "\<lambda>v d mx w cp. \<lparr>sy_value = v, sy_error = None, sy_done = d, sy_mtx = mx, sy_waiter = w, sy_completer = cp\<rparr>"
  have "?step\<^sup>*\<^sup>* sync_new (?y None False None Sw_start Cp_start)" by (simp add: sync_new_def)
  also have "?step \<dots> (?y None False (Some Waiter) Sw_check Cp_start)" using sw_lock [of "?y None False None Sw_start Cp_start"] by simp
  also have "?step \<dots> (?y None False (Some Waiter) Sw_checked Cp_start)" using sw_check [of "?y None False (Some Waiter) Sw_check Cp_start"] by simp
  also have "?step \<dots> (?y None False None Sw_parked Cp_start)" using sw_park [of "?y None False (Some Waiter) Sw_checked Cp_start"] by simp
  also have "?step \<dots> (?y None False (Some Completer) Sw_parked Cp_locked)" using sc_lock [of "?y None False None Sw_parked Cp_start"] by simp
  also have "?step \<dots> (?y (Some 5) True (Some Completer) Sw_parked Cp_stored)"
    using sc_store [of "?y None False (Some Completer) Sw_parked Cp_locked" "\<lambda>_. None" "Sg_value 5"] by (simp add: sync_store_def)
  also have "?step \<dots> (?y (Some 5) True None Sw_parked Cp_notify)" using sc_unlock [of "?y (Some 5) True (Some Completer) Sw_parked Cp_stored"] by simp
  also have "?step \<dots> (?y (Some 5) True None Sw_woken Cp_done)"
    using sc_notify [of "?y (Some 5) True None Sw_parked Cp_notify"] by (simp add: sync_notify_all_def)
  also have "?step \<dots> (?y (Some 5) True (Some Waiter) Sw_check Cp_done)" using sw_lock [of "?y (Some 5) True None Sw_woken Cp_done"] by simp
  also have "?step \<dots> (?y (Some 5) True None Sw_returned Cp_done)" using sw_return [of "?y (Some 5) True (Some Waiter) Sw_check Cp_done"] by simp
  finally obtain k where k: "(?step ^^ k) sync_new (?y (Some 5) True None Sw_returned Cp_done)" by (metis rtranclp_imp_relpowp)
  from sync_wait_returns [OF k] show ?thesis
    by (intro exI [of _ k] exI [of _ "?y (Some 5) True None Sw_returned Cp_done"] conjI k) (auto simp: sync_spec_def)
qed

end
