(* ===== verification/Teardown.thy ===== *)
theory Teardown
  imports Fiber_Pool
begin

text \<open>
  The destructor of \<open>fiber_pool\<close> (\<open>src/fiber_context.cpp\<close>), which is what destroying a \<open>context\<close> runs:
  \<open>stop()\<close>, then joining the worker threads in order, then closing the eventfd. A thread can be
  joined once its main fiber has left its wait. The steps of the pool go on meanwhile, so the
  system projects to the step system of \<open>Fiber_Pool\<close>; after the end there is no pool to take steps.
\<close>

subsection \<open>State and steps\<close>

datatype teardown = Td_stop | Td_join nat | Td_closed

record ('h, 't) pool_dtor =
  pd_world :: "('h, 't) pool_world"
  pd_phase :: teardown

definition td_start :: "('h, 't) pool_world \<Rightarrow> ('h, 't) pool_dtor" where
  "td_start w = \<lparr>pd_world = w, pd_phase = Td_stop\<rparr>"

definition dtor_stopped :: "('h, 't) pool_dtor \<Rightarrow> ('h, 't) pool_dtor" where
  "dtor_stopped d = d\<lparr>pd_phase := Td_join 0\<rparr>"

definition dtor_join :: "nat \<Rightarrow> ('h, 't) pool_dtor \<Rightarrow> ('h, 't) pool_dtor" where
  "dtor_join i d = d\<lparr>pd_phase := Td_join (i + 1)\<rparr>"

definition dtor_close :: "('h, 't) pool_dtor \<Rightarrow> ('h, 't) pool_dtor" where
  "dtor_close d = d\<lparr>pd_phase := Td_closed\<rparr>"

inductive td_step :: "nat \<Rightarrow> 'h complete_fn \<Rightarrow> (nat \<Rightarrow> fds) \<Rightarrow> ('h, 't) pool_dtor \<Rightarrow> ('h, 't) pool_dtor \<Rightarrow> bool"
  for n :: nat and cpl :: "'h complete_fn" and f :: "nat \<Rightarrow> fds" where
  td_pool: "pd_phase d \<noteq> Td_closed \<Longrightarrow> pool_step n cpl f (pd_world d) w \<Longrightarrow> td_step n cpl f d (d\<lparr>pd_world := w\<rparr>)"
| td_stopped: "pd_phase d = Td_stop \<Longrightarrow> stopping (pd_world d) = St_done \<Longrightarrow> td_step n cpl f d (dtor_stopped d)"
| td_join: "pd_phase d = Td_join i \<Longrightarrow> i < length (workers (pd_world d)) \<Longrightarrow> mains (pd_world d) ! i = Mf_exited \<Longrightarrow>
     td_step n cpl f d (dtor_join i d)"
| td_close: "pd_phase d = Td_join (length (workers (pd_world d))) \<Longrightarrow> td_step n cpl f d (dtor_close d)"

lemmas dtor_ops = dtor_stopped_def dtor_join_def dtor_close_def

subsection \<open>Invariant\<close>

text \<open>The workers already joined have left.\<close>

fun joined :: "('h, 't) pool_world \<Rightarrow> teardown \<Rightarrow> nat" where
  "joined w Td_stop = 0" | "joined w (Td_join i) = i" | "joined w Td_closed = length (workers w)"

definition td_inv :: "('h, 't) pool_dtor \<Rightarrow> bool" where
  "td_inv d \<longleftrightarrow> pool_inv (pd_world d) \<and> joined (pd_world d) (pd_phase d) \<le> length (workers (pd_world d))
     \<and> (\<forall>i < joined (pd_world d) (pd_phase d). mains (pd_world d) ! i = Mf_exited)
     \<and> (pd_phase d \<noteq> Td_stop \<longrightarrow> stopping (pd_world d) = St_done)"

lemma exited_stays:
  assumes "pool_step n cpl f w w'" and "count_inv w" and "i < length (workers w)" and "mains w ! i = Mf_exited"
  shows "mains w' ! i = Mf_exited"
proof -
  have len: "length (mains w) = length (workers w)" using assms(2) by (simp add: count_inv_def)
  show ?thesis using assms(1)
    by cases (use assms(3,4) len in \<open>auto simp: pool_op_defs drain_defs wake_def nth_list_update\<close>)
qed

lemma td_step_inv:
  assumes "td_step n cpl f d d'" and "0 < n" and "td_inv d"
  shows "td_inv d'"
  using assms(1)
proof cases
  case (td_pool w)
  have inv: "pool_inv (pd_world d)" and c: "count_inv (pd_world d)" using assms(3) by (simp_all add: td_inv_def pool_inv_def)
  have "joined w (pd_phase d) = joined (pd_world d) (pd_phase d)" using td_pool(2) by (cases "pd_phase d") simp_all
  then show ?thesis
    using assms(3) step_inv [OF td_pool(3) assms(2) inv] step_workers [OF td_pool(3)] exited_stays [OF td_pool(3) c] stopped_stays [OF td_pool(3)]
    by (auto simp: td_pool(1) td_inv_def)
next
  case (td_join i)
  then show ?thesis using assms(3) by (auto simp: td_inv_def dtor_ops less_Suc_eq)
qed (use assms(3) in \<open>auto simp: td_inv_def dtor_ops\<close>)

interpretation td: simulation "td_step n cpl f" "\<lambda>d. 0 < n \<and> td_inv d" "pool_step n cpl f" pd_world for n cpl f
proof unfold_locales
  fix s s' :: "('a, 'b) pool_dtor"
  assume inv: "0 < n \<and> td_inv s" and st: "td_step n cpl f s s'"
  show "0 < n \<and> td_inv s'" using td_step_inv [OF st] inv by blast
  show "pool_step n cpl f (pd_world s) (pd_world s') \<or> pd_world s' = pd_world s"
    using st by cases (auto simp: dtor_ops)
qed

lemma td_lift:
  assumes "(pool_step n cpl f)\<^sup>*\<^sup>* (pd_world d) w" and "pd_phase d \<noteq> Td_closed"
  shows "(td_step n cpl f)\<^sup>*\<^sup>* d (d\<lparr>pd_world := w\<rparr>)"
  using assms(1)
proof (induction rule: rtranclp_induct)
  case (step y z)
  have "td_step n cpl f (d\<lparr>pd_world := y\<rparr>) (d\<lparr>pd_world := z\<rparr>)"
    using td_pool [of "d\<lparr>pd_world := y\<rparr>" n cpl f z] assms(2) step.hyps(2) by simp
  with step.IH show ?case by (rule rtranclp.rtrancl_into_rtrancl)
qed simp

lemma td_start_inv: "pool_inv w \<Longrightarrow> td_inv (td_start w)"
  by (simp add: td_inv_def td_start_def)

text \<open>The destructor ends once the only worker can leave.\<close>

lemma joined_closes:
  assumes "td_inv d" and "length (workers (pd_world d)) = 1" and "stopping (pd_world d) = St_done" and "mains (pd_world d) ! 0 = Mf_exited"
  shows "\<exists>d'. (td_step n cpl f)\<^sup>*\<^sup>* d d' \<and> pd_phase d' = Td_closed"
proof -
  let ?d1 = "d\<lparr>pd_phase := Td_join 1\<rparr>"
  have close: "td_step n cpl f ?d1 (dtor_close ?d1)" by (rule td_close) (simp add: assms(2))
  have join: "td_step n cpl f (d\<lparr>pd_phase := Td_join 0\<rparr>) ?d1"
    using td_join [of "d\<lparr>pd_phase := Td_join 0\<rparr>" 0 n cpl f] assms(2,4) by (simp add: dtor_join_def)
  have "(td_step n cpl f)\<^sup>*\<^sup>* d (dtor_close ?d1)" if "pd_phase d \<noteq> Td_closed"
  proof (cases "pd_phase d")
    case Td_stop
    from td_stopped [OF this assms(3), of n cpl f] have "td_step n cpl f d (d\<lparr>pd_phase := Td_join 0\<rparr>)" by (simp add: dtor_stopped_def)
    then show ?thesis using join close by (meson rtranclp.rtrancl_into_rtrancl rtranclp.rtrancl_refl)
  next
    case (Td_join i)
    then have "i = 0 \<or> i = 1" using assms(1,2) by (auto simp: td_inv_def)
    moreover have "d\<lparr>pd_phase := Td_join i\<rparr> = d" using Td_join by simp
    ultimately show ?thesis using join close by (metis rtranclp.rtrancl_into_rtrancl rtranclp.rtrancl_refl)
  qed (use that in simp)
  then show ?thesis by (metis dtor_close_def pool_dtor.select_convs(2) pool_dtor.surjective pool_dtor.update_convs(2) rtranclp.rtrancl_refl)
qed

subsection \<open>Properties\<close>

lemma all_exited_idle:
  assumes "pool_inv w" and "\<forall>i < length (workers w). mains w ! i = Mf_exited"
  shows "sum_list (live w) = 0"
proof -
  have "live w ! i = 0" if "i < length (live w)" for i using assms that by (simp add: pool_inv_def count_inv_def)
  then show ?thesis by (simp add: all_set_conv_all_nth)
qed

lemma all_exited_hands:
  assumes "pool_inv w" and "\<forall>i < length (workers w). mains w ! i = Mf_exited"
  shows "hands (drains w) = []"
proof -
  have "drains w ! i = Dr_idle" if "i < length (drains w)" for i using assms that by (auto simp: pool_inv_def count_inv_def main_away_def)
  then show ?thesis by (auto simp: hands_def in_set_conv_nth)
qed

text \<open>
  C10. Destroying a pool. When the destructor reaches its end, every worker thread has left
  and was joined, no fiber of any worker is left, the pool is stopped, every task popped from the
  queue was launched exactly once, and the tasks posted are those popped, in order, and those
  still queued, which are dropped without being run. With
  one worker the destructor does reach its end: after \<open>stop()\<close>, once no fiber is in flight and no
  notification is pending, some continuation of every run closes the pool.
\<close>
theorem pool_dtor_returns:
  assumes "scheduler_ctor (sq_of_size n) f0 errno ip pl = Ret s0" and "0 < n"
    and "fiber_pool_ctor eventfd errno' tc s0 = Ret w0" and "(td_step n cpl f)\<^sup>*\<^sup>* (td_start w0) d" and "w = pd_world d"
  shows "(pd_phase d = Td_closed \<longrightarrow> (\<forall>i < length (workers w). mains w ! i = Mf_exited) \<and> sum_list (live w) = 0
         \<and> \<not> running (pw_pool w) \<and> mset (launched (pw_pool w)) = mset (taken w) \<and> taken w @ tasks (work_queue (pw_pool w)) = tasks (posted w))
    \<and> (tc = 1 \<and> stopping w = St_done \<and> in_flight (pw_pool w) = 0 \<and> notifiers w = 0 \<longrightarrow>
         (\<exists>d'. (td_step n cpl f)\<^sup>*\<^sup>* d d' \<and> pd_phase d' = Td_closed))"
proof -
  note c = pool_ctor_inv [OF assms(3) scheduler_ctor_fresh [OF assms(1,2)]]
  have st: "0 < n \<and> td_inv (td_start w0)" using assms(2) td_start_inv [OF c(1)] by simp
  have inv: "td_inv d" using td.run_keeps [OF assms(4) st] by simp
  have run: "(pool_step n cpl f)\<^sup>*\<^sup>* w0 w" using td.projected_run [OF assms(4) st] by (simp add: td_start_def assms(5))
  have one: "(\<exists>d'. (td_step n cpl f)\<^sup>*\<^sup>* d d' \<and> pd_phase d' = Td_closed)"
    if "tc = 1" "stopping w = St_done" "in_flight (pw_pool w) = 0" "notifiers w = 0"
  proof (cases "pd_phase d = Td_closed")
    case False
    have "fiber_pool_ctor eventfd errno' 1 s0 = Ret w0" using assms(3) that(1) by simp
    from single_worker_stops [OF assms(1,2) this run that(2-4)] obtain v
      where v: "(pool_step n cpl f)\<^sup>*\<^sup>* w v" "mains v ! 0 = Mf_exited" by blast
    let ?d = "d\<lparr>pd_world := v\<rparr>"
    have lift: "(td_step n cpl f)\<^sup>*\<^sup>* d ?d" using td_lift [of n cpl f d v] v(1) False by (simp add: assms(5))
    have "0 < n \<and> td_inv d" using inv assms(2) by simp
    from td.run_keeps [OF lift this] have "td_inv ?d" by simp
    moreover have "length (workers v) = 1" using run_workers [OF v(1)] run_workers [OF run] c(2) that(1) by simp
    moreover have "stopping v = St_done" by (rule stopped_run_stays [OF v(1) that(2)])
    ultimately have "\<exists>d'. (td_step n cpl f)\<^sup>*\<^sup>* ?d d' \<and> pd_phase d' = Td_closed" using v(2) by (intro joined_closes) simp_all
    then show ?thesis using lift by (meson rtranclp_trans)
  qed blast
  have closed: "(\<forall>i < length (workers w). mains w ! i = Mf_exited) \<and> sum_list (live w) = 0 \<and> \<not> running (pw_pool w)
      \<and> mset (launched (pw_pool w)) = mset (taken w) \<and> taken w @ tasks (work_queue (pw_pool w)) = tasks (posted w)" if "pd_phase d = Td_closed"
  proof -
    have p: "pool_inv w" and e: "\<forall>i < length (workers w). mains w ! i = Mf_exited" and s: "stopping w = St_done"
      using inv that by (simp_all add: td_inv_def assms(5))
    have "\<not> running (pw_pool w)" using p s lock_running [of w] by (simp add: pool_inv_def)
    moreover have "tasks_inv w" using p by (simp add: pool_inv_def)
    ultimately show ?thesis using e all_exited_idle [OF p e] all_exited_hands [OF p e] by (simp add: tasks_inv_def)
  qed
  show ?thesis by (rule conjI; rule impI) (simp add: closed, elim conjE, rule one)
qed

theorem pool_dtor_returns_witness:
  "\<exists>d. (td_step 8 no_complete (\<lambda>_. pool_fds))\<^sup>*\<^sup>* (td_start (start_world 1)) d \<and> pd_phase d = Td_closed \<and> \<not> running (pw_pool (pd_world d))"
proof -
  let ?R = "td_step 8 no_complete (\<lambda>_. pool_fds)"
  let ?d = "(td_start (start_world 1))\<lparr>pd_world := stopped_world 1\<rparr>"
  have ctor: "fiber_pool_ctor 5 0 1 fresh_sched = Ret (start_world 1)" using start_world_ctor [of 1] by simp
  have run: "?R\<^sup>*\<^sup>* (td_start (start_world 1)) ?d" by (rule td_lift) (simp_all add: td_start_def stopped_world_run)
  have "stopping (stopped_world 1) = St_done" "in_flight (pw_pool (stopped_world 1)) = 0" "notifiers (stopped_world 1) = 0"
    by (simp_all add: stopped_world_def pool_op_defs start_world_def)
  with pool_dtor_returns [OF fresh_sched_ctor _ ctor run refl] obtain d where d: "?R\<^sup>*\<^sup>* ?d d" "pd_phase d = Td_closed" by auto
  from run d(1) have run': "?R\<^sup>*\<^sup>* (td_start (start_world 1)) d" by (rule rtranclp_trans)
  from pool_dtor_returns [OF fresh_sched_ctor _ ctor run' refl] d(2) have "\<not> running (pw_pool (pd_world d))" by simp
  with run' d(2) show ?thesis by blast
qed

text \<open>
  C16. Destroying a pool can hang. With two workers there is a run in which the destructor has
  stopped the pool, its only task has been launched and has ended, nothing is in flight and no
  notification is pending, and the destructor waits for the first worker in every continuation,
  for ever: that worker's main fiber evaluated the predicate of its wait before the task ended and parked
  after the notification, since the decrement of \<open>in_flight_\<close> and its \<open>notify_all\<close> do not take the mutex.
\<close>
theorem pool_dtor_hangs:
  "\<exists>d. (td_step 8 no_complete (\<lambda>_. pool_fds))\<^sup>*\<^sup>* (td_start (start_world 2)) d \<and> pd_phase d = Td_join 0
     \<and> tasks (posted (pd_world d)) = [7] \<and> launched (pw_pool (pd_world d)) = [7] \<and> in_flight (pw_pool (pd_world d)) = 0
     \<and> notifiers (pd_world d) = 0 \<and> mains (pd_world d) = [Mf_parked, Mf_exited]
     \<and> (\<forall>d'. (td_step 8 no_complete (\<lambda>_. pool_fds))\<^sup>*\<^sup>* d d' \<longrightarrow> pd_phase d' = Td_join 0)"
proof -
  let ?R = "td_step 8 no_complete (\<lambda>_. pool_fds)"
  obtain w where w: "race_step\<^sup>*\<^sup>* (start_world 2) w" "stopping w = St_done" "tasks (posted w) = [7]" "launched (pw_pool w) = [7]"
    "in_flight (pw_pool w) = 0" "notifiers w = 0" "mains w = [Mf_parked, Mf_exited]"
    and stay: "\<And>w'. race_step\<^sup>*\<^sup>* w w' \<Longrightarrow> mains w' ! 0 = Mf_parked"
    using pool_lost_wakeup by blast
  let ?d = "\<lparr>pd_world = w, pd_phase = Td_join 0\<rparr>"
  have "?R\<^sup>*\<^sup>* (td_start (start_world 2)) ((td_start (start_world 2))\<lparr>pd_world := w\<rparr>)" using w(1) by (intro td_lift) (simp_all add: td_start_def)
  moreover have "?R ((td_start (start_world 2))\<lparr>pd_world := w\<rparr>) ?d"
    using td_stopped [of "(td_start (start_world 2))\<lparr>pd_world := w\<rparr>" 8 no_complete "\<lambda>_. pool_fds"] w(2) by (simp add: td_start_def dtor_stopped_def)
  ultimately have run: "?R\<^sup>*\<^sup>* (td_start (start_world 2)) ?d" by (rule rtranclp.rtrancl_into_rtrancl)
  have "fiber_pool_ctor 5 0 2 fresh_sched = Ret (start_world 2)" using start_world_ctor [of 2] by simp
  from pool_ctor_inv(1) [OF this scheduler_ctor_fresh [OF fresh_sched_ctor]] have "pool_inv (start_world 2)" by simp
  from td_start_inv [OF this] have inv: "0 < (8 :: nat) \<and> td_inv ?d" using td.run_keeps [OF run] by simp
  have "pd_phase d' = Td_join 0" if "?R\<^sup>*\<^sup>* ?d d'" for d'
    using that
  proof (induction rule: rtranclp_induct)
    case (step y z)
    have "race_step\<^sup>*\<^sup>* w (pd_world y)" using td.projected_run [OF step.hyps(1) inv] by simp
    then have "mains (pd_world y) ! 0 \<noteq> Mf_exited" using stay by fastforce
    note no = this
    have some: "workers (pd_world y) \<noteq> []"
      using run_workers [OF \<open>race_step\<^sup>*\<^sup>* w (pd_world y)\<close>] run_workers [OF w(1)] by (auto simp: start_world_def)
    from step.hyps(2) show ?case by cases (use no some step.IH in \<open>auto simp: dtor_ops\<close>)
  qed simp
  then show ?thesis using run w(3-7) by (intro exI [of _ ?d]) simp
qed

theorem pool_dtor_hangs_witness:
  "\<exists>d. (td_step 8 no_complete (\<lambda>_. pool_fds))\<^sup>*\<^sup>* (td_start (start_world 2)) d \<and> pd_phase d = Td_join 0 \<and> in_flight (pw_pool (pd_world d)) = 0"
  using pool_dtor_hangs by (elim exE conjE) (intro exI conjI; simp)

end
