(* ===== verification/Bulk.thy ===== *)
theory Bulk
  imports Senders Runs
begin

text \<open>
  \<open>include/fiberexec/detail/fiber_bulk.hpp\<close>: a bulk operation fans out one fiber per index; the last
  one to finish completes the receiver.

  The fibers run on any workers, so each access to the shared state is a step: posting, the
  call of the function, the compare-exchange on \<open>has_error\<close>, the store of the exception, the
  decrement of \<open>remaining\<close> and the completion. The function is given by what it throws at each
  index. A null \<open>exception_ptr\<close> is \<open>None\<close>.
\<close>

subsection \<open>State\<close>

text \<open>
  Where the fiber of an index is: not posted, posted, in the handler with an exception, about
  to store it, about to decrement, about to complete the receiver, gone.
\<close>

datatype bulk_phase = Bk_unposted | Bk_posted | Bk_catch exn | Bk_store exn | Bk_dec | Bk_last | Bk_done

text \<open>
  \<open>bk_out\<close> are the completions of the receiver; \<open>None\<close> is \<open>set_error\<close> with a null pointer. \<open>bk_next\<close> is the
  loop variable of \<open>set_value\<close>.
\<close>

record bulk =
  shape :: int
  bk_next :: int
  remaining :: int
  has_error :: bool
  bk_error :: "exn option"
  phases :: "bulk_phase list"
  bk_out :: "unit completion option list"

subsection \<open>Operations\<close>

text \<open>The constructor of \<open>fiber_bulk_shared\<close>.\<close>

definition bulk_shared :: "int \<Rightarrow> bulk" where
  "bulk_shared n = \<lparr>shape = n, bk_next = 0, remaining = n, has_error = False, bk_error = None,
     phases = replicate (nat n) Bk_unposted, bk_out = []\<rparr>"

text \<open>\<open>fiber_bulk_receiver::set_value\<close> up to its loop.\<close>

definition bulk_set_value :: "bulk \<Rightarrow> bulk" where
  "bulk_set_value b = (if shape b = 0 then b\<lparr>bk_out := bk_out b @ [Some (Set_value ())]\<rparr> else b)"

definition bulk_begin :: "int \<Rightarrow> bulk" where
  "bulk_begin n = bulk_set_value (bulk_shared n)"

lemma bulk_begin_eval:
  "bulk_begin n = \<lparr>shape = n, bk_next = 0, remaining = n, has_error = False, bk_error = None,
     phases = replicate (nat n) Bk_unposted, bk_out = (if n = 0 then [Some (Set_value ())] else [])\<rparr>"
  by (simp add: bulk_begin_def bulk_set_value_def bulk_shared_def)

definition set_phase :: "nat \<Rightarrow> bulk_phase \<Rightarrow> bulk \<Rightarrow> bulk" where
  "set_phase i ph b = b\<lparr>phases := (phases b)[i := ph]\<rparr>"

text \<open>One iteration of the loop.\<close>

definition bulk_post :: "bulk \<Rightarrow> bulk" where
  "bulk_post b = (set_phase (nat (bk_next b)) Bk_posted b)\<lparr>bk_next := bk_next b + 1\<rparr>"

definition bulk_call :: "(int \<Rightarrow> exn option) \<Rightarrow> nat \<Rightarrow> bulk \<Rightarrow> bulk" where
  "bulk_call throws i b = set_phase i (case throws (int i) of None \<Rightarrow> Bk_dec | Some ex \<Rightarrow> Bk_catch ex) b"

definition bulk_cas :: "nat \<Rightarrow> exn \<Rightarrow> bulk \<Rightarrow> bulk" where
  "bulk_cas i ex b = (if has_error b then set_phase i Bk_dec b else (set_phase i (Bk_store ex) b)\<lparr>has_error := True\<rparr>)"

definition bulk_store :: "nat \<Rightarrow> exn \<Rightarrow> bulk \<Rightarrow> bulk" where
  "bulk_store i ex b = (set_phase i Bk_dec b)\<lparr>bk_error := Some ex\<rparr>"

definition bulk_dec :: "nat \<Rightarrow> bulk \<Rightarrow> bulk" where
  "bulk_dec i b = (set_phase i (if remaining b - 1 = 0 then Bk_last else Bk_done) b)\<lparr>remaining := remaining b - 1\<rparr>"

definition bulk_complete :: "nat \<Rightarrow> bulk \<Rightarrow> bulk" where
  "bulk_complete i b = (set_phase i Bk_done b)\<lparr>bk_out := bk_out b @
     [if has_error b then map_option Set_error (bk_error b) else Some (Set_value ())]\<rparr>"

lemmas bulk_ops = bulk_post_def bulk_call_def bulk_cas_def bulk_store_def bulk_dec_def bulk_complete_def set_phase_def

inductive bulk_step :: "(int \<Rightarrow> exn option) \<Rightarrow> bulk \<Rightarrow> bulk \<Rightarrow> bool" for throws :: "int \<Rightarrow> exn option" where
  bs_post: "bk_next b < shape b \<Longrightarrow> bulk_step throws b (bulk_post b)"
| bs_call: "i < length (phases b) \<Longrightarrow> phases b ! i = Bk_posted \<Longrightarrow> bulk_step throws b (bulk_call throws i b)"
| bs_cas: "i < length (phases b) \<Longrightarrow> phases b ! i = Bk_catch ex \<Longrightarrow> bulk_step throws b (bulk_cas i ex b)"
| bs_store: "i < length (phases b) \<Longrightarrow> phases b ! i = Bk_store ex \<Longrightarrow> bulk_step throws b (bulk_store i ex b)"
| bs_dec: "i < length (phases b) \<Longrightarrow> phases b ! i = Bk_dec \<Longrightarrow> bulk_step throws b (bulk_dec i b)"
| bs_complete: "i < length (phases b) \<Longrightarrow> phases b ! i = Bk_last \<Longrightarrow> bulk_step throws b (bulk_complete i b)"

text \<open>What a predecessor that fails or is stopped does.\<close>

definition bulk_set_error :: "exn \<Rightarrow> bulk \<Rightarrow> bulk" where
  "bulk_set_error ex b = b\<lparr>bk_out := bk_out b @ [Some (Set_error ex)]\<rparr>"

definition bulk_set_stopped :: "bulk \<Rightarrow> bulk" where
  "bulk_set_stopped b = b\<lparr>bk_out := bk_out b @ [Some Set_stopped]\<rparr>"

subsection \<open>The sender\<close>

text \<open>
  \<open>fiber_bulk_sender\<close> and its operation. The predecessor is the \<open>schedule\<close> sender below the \<open>bulk\<close>; a
  pool is identified by its context. Connecting builds the shared state and connects the
  predecessor to \<open>fiber_bulk_receiver\<close>. The final receiver enters the model by the stop token of its
  environment: \<open>fiber_bulk_receiver::get_env\<close> answers with that environment, and the operation of
  the predecessor bridges the token it finds there.
\<close>

record 'f bulk_sender =
  bsn_pool :: nat
  bsn_pred :: schedule_sender
  bsn_shape :: int
  bsn_fun :: 'f

record 'f bulk_opstate =
  bo_shared :: bulk
  bo_fun :: 'f
  bo_rcvr_env :: stop_token
  bo_pool :: nat
  bo_inner :: op_stop

text \<open>\<open>fiber_domain::transform_sender\<close>: the data of a \<open>bulk_chunked\<close> sender is a policy, a shape and a function.\<close>

definition transform_sender :: "'p \<times> int \<times> 'f \<Rightarrow> schedule_sender \<Rightarrow> 'f bulk_sender" where
  "transform_sender data child =
     (case data of (pol, sh, fn) \<Rightarrow>
       let sched = schedule_completion_scheduler child
       in \<lparr>bsn_pool = sch_ctx sched, bsn_pred = child, bsn_shape = sh, bsn_fun = fn\<rparr>)"

definition bulk_connect :: "stop_token \<Rightarrow> 'f bulk_sender \<Rightarrow> 'f bulk_opstate" where
  "bulk_connect rcvr_env s =
     \<lparr>bo_shared = bulk_shared (bsn_shape s), bo_fun = bsn_fun s, bo_rcvr_env = rcvr_env, bo_pool = bsn_pool s, bo_inner = no_stop\<rparr>"

definition bulk_get_env :: "'f bulk_opstate \<Rightarrow> stop_token" where
  "bulk_get_env bop = bo_rcvr_env bop"

definition bulk_start :: "'f bulk_opstate \<Rightarrow> 'f bulk_opstate" where
  "bulk_start bop = bop\<lparr>bo_inner := bridge_start (bulk_get_env bop) (bo_inner bop)\<rparr>"

text \<open>The launching fiber looks its token up once; every fiber it posts installs that token before the call.\<close>

definition launcher_token :: "nat \<Rightarrow> (nat \<Rightarrow> stop_token option) \<Rightarrow> 'f bulk_opstate \<Rightarrow> stop_token" where
  "launcher_token fiber slots bop = fiber_token fiber (bo_inner bop) slots"

definition bulk_fiber_slots :: "stop_token \<Rightarrow> nat \<Rightarrow> (nat \<Rightarrow> stop_token option) \<Rightarrow> (nat \<Rightarrow> stop_token option)" where
  "bulk_fiber_slots tok fiber slots = install_fiber_stop_token fiber tok slots"

subsection \<open>Invariant\<close>

text \<open>The completions the contract of \<open>bulk\<close> allows.\<close>

definition bulk_allows :: "(int \<Rightarrow> exn option) \<Rightarrow> int \<Rightarrow> unit completion option \<Rightarrow> bool" where
  "bulk_allows throws n x \<longleftrightarrow>
     (if \<forall>i. 0 \<le> i \<and> i < n \<longrightarrow> throws i = None then x = Some (Set_value ())
      else \<exists>i ex. 0 \<le> i \<and> i < n \<and> throws i = Some ex \<and> x = Some (Set_error ex))"

fun ended :: "bulk_phase \<Rightarrow> bool" where
  "ended Bk_last = True" | "ended Bk_done = True" | "ended _ = False"

fun past :: "bulk_phase \<Rightarrow> bool" where
  "past Bk_dec = True" | "past Bk_last = True" | "past Bk_done = True" | "past _ = False"

text \<open>The fiber of index \<open>i\<close> holds only what the function threw there.\<close>

definition phase_ok :: "(int \<Rightarrow> exn option) \<Rightarrow> bulk \<Rightarrow> nat \<Rightarrow> bool" where
  "phase_ok throws b i \<longleftrightarrow>
     (phases b ! i = Bk_unposted \<longleftrightarrow> bk_next b \<le> int i) \<and>
     (\<forall>ex. phases b ! i = Bk_catch ex \<or> phases b ! i = Bk_store ex \<longrightarrow> throws (int i) = Some ex) \<and>
     (past (phases b ! i) \<and> \<not> has_error b \<longrightarrow> throws (int i) = None) \<and>
     (\<forall>ex. phases b ! i = Bk_store ex \<longrightarrow> has_error b)"

definition error_ok :: "(int \<Rightarrow> exn option) \<Rightarrow> bulk \<Rightarrow> bool" where
  "error_ok throws b \<longleftrightarrow> (if has_error b
     then (\<exists>i ex. i < length (phases b) \<and> throws (int i) = Some ex \<and> (bk_error b = Some ex \<or> phases b ! i = Bk_store ex))
     else bk_error b = None)
     \<and> (\<forall>ex. bk_error b = Some ex \<longrightarrow> (\<exists>i < length (phases b). throws (int i) = Some ex))"

definition bulk_inv :: "(int \<Rightarrow> exn option) \<Rightarrow> int \<Rightarrow> bulk \<Rightarrow> bool" where
  "bulk_inv throws n b \<longleftrightarrow> shape b = n \<and> 0 \<le> bk_next b \<and> bk_next b \<le> n \<and> length (phases b) = nat n
     \<and> (\<forall>i < length (phases b). phase_ok throws b i) \<and> error_ok throws b
     \<and> remaining b + int (length (filter ended (phases b))) = n
     \<and> (if 0 < remaining b then Bk_last \<notin> set (phases b) \<and> bk_out b = []
        else length (bk_out b) + length (filter ((=) Bk_last) (phases b)) = 1)
     \<and> (\<forall>x \<in> set (bk_out b). bulk_allows throws n x)"

text \<open>How a change of one phase changes the counts.\<close>

lemma counts_update:
  assumes "i < length ps" and "ph = ps ! i"
  shows "int (length (filter ended (ps[i := ph']))) = int (length (filter ended ps)) - of_bool (ended ph) + of_bool (ended ph')"
    and "int (length (filter ((=) Bk_last) (ps[i := ph']))) = int (length (filter ((=) Bk_last) ps)) - of_bool (ph = Bk_last) + of_bool (ph' = Bk_last)"
  using length_filter_update [OF assms(1), of ended ph'] length_filter_update [OF assms(1), of "(=) Bk_last" ph'] assms(2)
  by (auto split: if_splits)

lemma no_last_count: "Bk_last \<notin> set ps \<longleftrightarrow> length (filter ((=) Bk_last) ps) = 0"
  by (auto simp: filter_empty_conv)

lemma start_inv: "0 \<le> n \<Longrightarrow> bulk_inv throws n (bulk_begin n)"
  by (auto simp: bulk_inv_def bulk_begin_eval phase_ok_def error_ok_def bulk_allows_def)

text \<open>When the last fiber completes the receiver, every other fiber is past the store.\<close>

lemma all_ended:
  assumes "bulk_inv throws n b" and "remaining b \<le> 0" and "i < length (phases b)"
  shows "ended (phases b ! i)"
proof -
  have "length (filter ended (phases b)) = length (phases b)"
    using assms length_filter_le [of ended "phases b"] by (auto simp: bulk_inv_def)
  then show ?thesis using assms(3) by (metis length_filter_less nth_mem less_irrefl)
qed

lemma complete_allowed:
  assumes "bulk_inv throws n b" and "remaining b \<le> 0"
  shows "bulk_allows throws n (if has_error b then map_option Set_error (bk_error b) else Some (Set_value ()))"
proof (cases "has_error b")
  case False
  have "throws i = None" if "0 \<le> i" "i < n" for i
  proof -
    have i: "nat i < length (phases b)" using assms(1) that by (simp add: bulk_inv_def)
    have "past (phases b ! nat i)" using all_ended [OF assms i] by (cases "phases b ! nat i") auto
    moreover have "phase_ok throws b (nat i)" using assms(1) i by (simp add: bulk_inv_def)
    ultimately show ?thesis using False that(1) by (simp add: phase_ok_def)
  qed
  then show ?thesis using False by (simp add: bulk_allows_def)
next
  case True
  then obtain i ex where i: "i < length (phases b)" "throws (int i) = Some ex" "bk_error b = Some ex \<or> phases b ! i = Bk_store ex"
    using assms(1) by (auto simp: bulk_inv_def error_ok_def)
  with all_ended [OF assms i(1)] have "bk_error b = Some ex" by auto
  moreover have "int i < n" using assms(1) i(1) by (simp add: bulk_inv_def)
  ultimately have "0 \<le> int i \<and> int i < n \<and> throws (int i) = Some ex \<and> map_option Set_error (bk_error b) = Some (Set_error ex)"
    using i(2) by simp
  then show ?thesis using True unfolding bulk_allows_def by (metis option.distinct(1))
qed

lemma error_ok_update:
  assumes "error_ok throws b" and "i < length (phases b)" and "\<And>ex. phases b ! i \<noteq> Bk_store ex"
    and "phases b' = (phases b)[i := ph]" and "has_error b' = has_error b" and "bk_error b' = bk_error b"
  shows "error_ok throws b'"
proof -
  have "phases b' ! j = Bk_store ex" if "phases b ! j = Bk_store ex" for j ex
    using that assms(3,4) by (cases "j = i") auto
  then show ?thesis using assms(1,4-6) unfolding error_ok_def by (metis length_list_update)
qed

lemma inv_update:
  assumes inv: "bulk_inv throws n b" and i: "i < length (phases b)" and ph: "phases b ! i = ph" "ph \<noteq> Bk_unposted"
    and b': "phases b' = (phases b)[i := ph']" "shape b' = shape b" "bk_next b' = bk_next b" "has_error b \<Longrightarrow> has_error b'"
    and ok: "phase_ok throws b' i" "error_ok throws b'"
    and rem: "remaining b' = remaining b + of_bool (ended ph) - of_bool (ended ph')"
    and out: "if 0 < remaining b' then ph' \<noteq> Bk_last \<and> bk_out b' = []
      else int (length (bk_out b')) + int (length (filter ((=) Bk_last) (phases b))) - of_bool (ph = Bk_last) + of_bool (ph' = Bk_last) = 1"
    and all: "\<forall>x \<in> set (bk_out b'). bulk_allows throws n x"
    and later: "0 < remaining b' \<Longrightarrow> 0 < remaining b"
  shows "bulk_inv throws n b'"
proof -
  note c = counts_update [OF i ph(1) [symmetric], of ph', folded b'(1)]
  have oth: "phase_ok throws b' j" if "j < length (phases b)" "j \<noteq> i" for j
  proof -
    have "phase_ok throws b j" using inv that(1) by (simp add: bulk_inv_def)
    then show ?thesis using b' that by (auto simp: phase_ok_def)
  qed
  have "\<forall>j < length (phases b'). phase_ok throws b' j" using oth ok(1) b'(1) by (metis length_list_update)
  moreover have "if 0 < remaining b' then Bk_last \<notin> set (phases b') \<and> bk_out b' = []
      else length (bk_out b') + length (filter ((=) Bk_last) (phases b')) = 1"
  proof (cases "0 < remaining b'")
    case True
    then have "Bk_last \<notin> set (phases b)" using inv later by (simp add: bulk_inv_def)
    then have "Bk_last \<notin> set (phases b')" using out True b'(1) set_update_subset_insert [of "phases b" i ph'] by auto
    then show ?thesis using out True by simp
  next
    case False
    then show ?thesis using out c(2) by simp
  qed
  moreover have "remaining b' + int (length (filter ended (phases b'))) = n" using inv c(1) rem by (simp add: bulk_inv_def)
  ultimately show ?thesis using inv b' ok(2) all by (simp add: bulk_inv_def)
qed

lemma inv_phase: "bulk_inv throws n b \<Longrightarrow> i < length (phases b) \<Longrightarrow> phase_ok throws b i"
  by (simp add: bulk_inv_def)

lemma remaining_pos:
  assumes "bulk_inv throws n b" and "i < length (phases b)" and "\<not> ended (phases b ! i)"
  shows "0 < remaining b"
  using all_ended [OF assms(1) _ assms(2)] assms(3) by force

lemma inv_out: "bulk_inv throws n b \<Longrightarrow> \<forall>x \<in> set (bk_out b). bulk_allows throws n x"
  by (simp add: bulk_inv_def)

lemma inv_running: "bulk_inv throws n b \<Longrightarrow> 0 < remaining b \<Longrightarrow> Bk_last \<notin> set (phases b) \<and> bk_out b = []"
  by (simp add: bulk_inv_def)

lemma inv_error: "bulk_inv throws n b \<Longrightarrow> error_ok throws b"
  by (simp add: bulk_inv_def)

lemma post_inv:
  assumes "bulk_inv throws n b" and "bk_next b < shape b"
  shows "bulk_inv throws n (bulk_post b)"
proof -
  let ?i = "nat (bk_next b)"
  have nn: "0 \<le> bk_next b" "shape b = n" "length (phases b) = nat n" using assms(1) by (simp_all add: bulk_inv_def)
  then have i: "?i < length (phases b)" using assms(2) by simp
  have un: "phases b ! ?i = Bk_unposted" using inv_phase [OF assms(1) i] nn(1) by (simp add: phase_ok_def)
  note c = counts_update [OF i un [symmetric], of Bk_posted]
  have r: "0 < remaining b" by (rule remaining_pos [OF assms(1) i]) (simp add: un)
  note out = inv_running [OF assms(1) r]
  have "phase_ok throws (bulk_post b) j" if "j < length (phases b)" for j
    using inv_phase [OF assms(1) that] i nn(1) that by (auto simp: phase_ok_def bulk_post_def set_phase_def nth_list_update split: if_splits)
  moreover have "error_ok throws (bulk_post b)"
    by (rule error_ok_update [OF inv_error [OF assms(1)] i]) (simp_all add: un bulk_post_def set_phase_def)
  moreover have "Bk_last \<notin> set ((phases b)[?i := Bk_posted])" using out set_update_subset_insert [of "phases b" ?i Bk_posted] by auto
  ultimately show ?thesis using assms c(1) r out nn by (simp add: bulk_inv_def bulk_post_def set_phase_def)
qed

lemma bulk_call_inv:
  assumes "bulk_inv throws n b" and "i < length (phases b)" and "phases b ! i = Bk_posted"
  shows "bulk_inv throws n (bulk_call throws i b)"
proof -
  let ?ph = "case throws (int i) of None \<Rightarrow> Bk_dec | Some ex \<Rightarrow> Bk_catch ex"
  have r: "0 < remaining b" by (rule remaining_pos [OF assms(1,2)]) (simp add: assms(3))
  have "error_ok throws (bulk_call throws i b)"
    by (rule error_ok_update [OF inv_error [OF assms(1)] assms(2)]) (simp_all add: assms(3) bulk_call_def set_phase_def)
  moreover have "phase_ok throws (bulk_call throws i b) i"
    using inv_phase [OF assms(1,2)] assms(2,3) by (auto simp: phase_ok_def bulk_call_def set_phase_def split: option.splits)
  ultimately show ?thesis
    using r inv_running [OF assms(1) r]
    by (intro inv_update [OF assms, where ph' = ?ph]) (auto simp: bulk_call_def set_phase_def split: option.splits)
qed

lemma cas_inv:
  assumes "bulk_inv throws n b" and "i < length (phases b)" and "phases b ! i = Bk_catch ex"
  shows "bulk_inv throws n (bulk_cas i ex b)"
proof -
  let ?ph = "if has_error b then Bk_dec else Bk_store ex"
  have r: "0 < remaining b" by (rule remaining_pos [OF assms(1,2)]) (simp add: assms(3))
  have t: "throws (int i) = Some ex" using inv_phase [OF assms(1,2)] assms(3) by (simp add: phase_ok_def)
  have "error_ok throws (bulk_cas i ex b)"
  proof (cases "has_error b")
    case True
    then show ?thesis
      by (intro error_ok_update [OF inv_error [OF assms(1)] assms(2)]) (simp_all add: assms(3) bulk_cas_def set_phase_def)
  next
    case False
    then show ?thesis using inv_error [OF assms(1)] assms(2) t
      by (auto simp: error_ok_def bulk_cas_def set_phase_def intro!: exI [of _ i])
  qed
  moreover have "phase_ok throws (bulk_cas i ex b) i"
    using inv_phase [OF assms(1,2)] assms(2,3) by (auto simp: phase_ok_def bulk_cas_def set_phase_def)
  ultimately show ?thesis
    using r inv_running [OF assms(1) r]
    by (intro inv_update [OF assms, where ph' = ?ph]) (auto simp: bulk_cas_def set_phase_def)
qed

lemma store_inv:
  assumes "bulk_inv throws n b" and "i < length (phases b)" and "phases b ! i = Bk_store ex"
  shows "bulk_inv throws n (bulk_store i ex b)"
proof -
  have r: "0 < remaining b" by (rule remaining_pos [OF assms(1,2)]) (simp add: assms(3))
  have t: "throws (int i) = Some ex" "has_error b" using inv_phase [OF assms(1,2)] assms(3) by (auto simp: phase_ok_def)
  have "error_ok throws (bulk_store i ex b)"
    using t assms(2) by (auto simp: error_ok_def bulk_store_def set_phase_def)
  moreover have "phase_ok throws (bulk_store i ex b) i"
    using inv_phase [OF assms(1,2)] assms(2,3) t by (auto simp: phase_ok_def bulk_store_def set_phase_def)
  ultimately show ?thesis
    using r inv_running [OF assms(1) r]
    by (intro inv_update [OF assms, where ph' = Bk_dec]) (auto simp: bulk_store_def set_phase_def)
qed

lemma dec_inv:
  assumes "bulk_inv throws n b" and "i < length (phases b)" and "phases b ! i = Bk_dec"
  shows "bulk_inv throws n (bulk_dec i b)"
proof -
  let ?ph = "if remaining b - 1 = 0 then Bk_last else Bk_done"
  have r: "0 < remaining b" by (rule remaining_pos [OF assms(1,2)]) (simp add: assms(3))
  have "error_ok throws (bulk_dec i b)"
    by (rule error_ok_update [OF inv_error [OF assms(1)] assms(2)]) (simp_all add: assms(3) bulk_dec_def set_phase_def)
  moreover have "phase_ok throws (bulk_dec i b) i"
    using inv_phase [OF assms(1,2)] assms(2,3) by (auto simp: phase_ok_def bulk_dec_def set_phase_def)
  ultimately show ?thesis
    using r inv_running [OF assms(1) r]
    by (intro inv_update [OF assms, where ph' = ?ph]) (auto simp: bulk_dec_def set_phase_def no_last_count simp del: length_0_conv)
qed

lemma complete_inv:
  assumes "bulk_inv throws n b" and "i < length (phases b)" and "phases b ! i = Bk_last"
  shows "bulk_inv throws n (bulk_complete i b)"
proof -
  have r: "\<not> 0 < remaining b" using inv_running [OF assms(1)] assms(2,3) by (metis nth_mem)
  then have c: "length (bk_out b) + length (filter ((=) Bk_last) (phases b)) = 1" using assms(1) by (simp add: bulk_inv_def)
  have "error_ok throws (bulk_complete i b)"
    by (rule error_ok_update [OF inv_error [OF assms(1)] assms(2)]) (simp_all add: assms(3) bulk_complete_def set_phase_def)
  moreover have "phase_ok throws (bulk_complete i b) i"
    using inv_phase [OF assms(1,2)] assms(2,3) by (auto simp: phase_ok_def bulk_complete_def set_phase_def)
  ultimately show ?thesis
    using r c inv_out [OF assms(1)] complete_allowed [OF assms(1)]
    by (intro inv_update [OF assms, where ph' = Bk_done]) (auto simp: bulk_complete_def set_phase_def)
qed

lemma bulk_step_inv: "bulk_inv throws n b \<Longrightarrow> bulk_step throws b b' \<Longrightarrow> bulk_inv throws n b'"
  by (erule bulk_step.cases) (simp_all add: post_inv bulk_call_inv cas_inv store_inv dec_inv complete_inv)

subsection \<open>Termination\<close>

fun phase_weight :: "bulk_phase \<Rightarrow> nat" where
  "phase_weight Bk_unposted = 6" | "phase_weight Bk_posted = 5" | "phase_weight (Bk_catch _) = 4"
| "phase_weight (Bk_store _) = 3" | "phase_weight Bk_dec = 2" | "phase_weight Bk_last = 1" | "phase_weight Bk_done = 0"

definition bulk_rank :: "bulk \<Rightarrow> nat" where
  "bulk_rank b = sum_list (map phase_weight (phases b))"

definition bulk_finished :: "bulk \<Rightarrow> bool" where
  "bulk_finished b \<longleftrightarrow> set (phases b) \<subseteq> {Bk_done}"

lemma not_finished: "\<not> bulk_finished b \<longleftrightarrow> (\<exists>i < length (phases b). phases b ! i \<noteq> Bk_done)"
  by (force simp: bulk_finished_def in_set_conv_nth)

lemma rank_update:
  assumes "i < length (phases b)" and "phases b' = (phases b)[i := ph]" and "phase_weight ph < phase_weight (phases b ! i)"
  shows "bulk_rank b' < bulk_rank b"
  using sum_list_map_update [OF assms(1), of phase_weight ph] assms(2,3) by (simp add: bulk_rank_def)

lemma post_unposted:
  assumes "bulk_inv throws n b" and "bk_next b < shape b"
  shows "nat (bk_next b) < length (phases b) \<and> phases b ! nat (bk_next b) = Bk_unposted"
proof -
  have i: "nat (bk_next b) < length (phases b)" using assms by (simp add: bulk_inv_def)
  with inv_phase [OF assms(1) i] show ?thesis using assms(1) by (simp add: phase_ok_def bulk_inv_def)
qed

lemma bulk_rank_step:
  assumes "bulk_inv throws n b" and "bulk_step throws b b'"
  shows "bulk_rank b' < bulk_rank b"
  using assms(2)
proof cases
  case bs_post
  then show ?thesis using post_unposted [OF assms(1)] by (intro rank_update) (auto simp: bulk_ops)
next
  case (bs_call i)
  then show ?thesis by (cases "throws (int i)") (auto intro!: rank_update simp: bulk_ops)
qed (auto intro!: rank_update simp: bulk_ops)

lemma bulk_progress:
  assumes "bulk_inv throws n b" and "\<not> bulk_finished b"
  shows "\<exists>b'. bulk_step throws b b'"
proof -
  from assms(2) obtain i where i: "i < length (phases b)" "phases b ! i \<noteq> Bk_done" by (auto simp: not_finished)
  show ?thesis
  proof (cases "phases b ! i")
    case Bk_unposted
    then have "bk_next b < shape b" using inv_phase [OF assms(1) i(1)] i(1) assms(1) by (simp add: phase_ok_def bulk_inv_def)
    then show ?thesis using bs_post by blast
  qed (use i in \<open>auto intro: bulk_step.intros\<close>)
qed

lemma finished_rank: "bulk_finished b \<Longrightarrow> bulk_rank b = 0"
  by (auto simp: bulk_finished_def bulk_rank_def)

lemma bulk_finished_step: "bulk_inv throws n b \<Longrightarrow> bulk_finished b \<Longrightarrow> \<not> bulk_step throws b b'"
  using bulk_rank_step [of throws n b b'] finished_rank [of b] by fastforce

interpretation bk: ranked_system "bulk_step throws" "bulk_inv throws n" bulk_rank bulk_finished for throws n
  by unfold_locales (auto intro: bulk_step_inv bulk_rank_step bulk_progress simp: bulk_finished_step)

text \<open>The receiver is completed exactly when no fiber is left.\<close>

lemma finished_iff_completed:
  assumes "bulk_inv throws n b"
  shows "if bulk_finished b then \<exists>x. bk_out b = [x] \<and> bulk_allows throws n x else bk_out b = []"
proof (cases "bulk_finished b")
  case True
  then have "filter ended (phases b) = phases b" "Bk_last \<notin> set (phases b)" by (auto simp: bulk_finished_def intro!: filter_True)
  then have "length (bk_out b) = 1" using assms by (auto simp: bulk_inv_def no_last_count split: if_splits)
  then show ?thesis using True inv_out [OF assms] by (auto simp: length_Suc_conv)
next
  case False
  then obtain i where i: "i < length (phases b)" "phases b ! i \<noteq> Bk_done" by (auto simp: not_finished)
  show ?thesis
  proof (cases "0 < remaining b")
    case True
    then show ?thesis using False inv_running [OF assms] by simp
  next
    case rem: False
    then have "phases b ! i = Bk_last" using all_ended [OF assms _ i(1)] i(2) by (cases "phases b ! i") auto
    then have "0 < length (filter ((=) Bk_last) (phases b))" using i(1) no_last_count [of "phases b"] by (metis neq0_conv nth_mem)
    moreover have "length (bk_out b) + length (filter ((=) Bk_last) (phases b)) = 1" using rem assms by (simp add: bulk_inv_def)
    ultimately have "length (bk_out b) = 0" by linarith
    then show ?thesis using False by simp
  qed
qed

lemma start_rank: "bulk_rank (bulk_begin n) = 6 * nat n"
  by (simp add: bulk_rank_def bulk_begin_eval sum_list_replicate)

text \<open>
  C4. A bulk operation of shape \<open>n\<close> completes its receiver exactly once, whatever the order in which
  its fibers run. Every run from the start has at most \<open>6 * n\<close> steps and can go on until all
  the fibers are gone. The receiver is completed exactly when no fiber is left, so no fiber and
  no iteration of the launching loop touches the operation after its completion. The
  completion is the value if no call threw, and otherwise an exception that some call threw,
  never a null one. A negative shape is different: no fiber is posted and the receiver is never
  completed.
\<close>
theorem bulk_exactly_one:
  assumes "(bulk_step throws ^^ k) (bulk_begin n) b"
  shows "if 0 \<le> n
    then k \<le> 6 * nat n \<and> ((\<nexists>b'. bulk_step throws b b') \<longleftrightarrow> bulk_finished b)
      \<and> (if bulk_finished b then \<exists>x. bk_out b = [x] \<and> bulk_allows throws n x else bk_out b = [])
    else b = bulk_begin n \<and> (\<nexists>b'. bulk_step throws b b') \<and> bk_out b = []"
proof (cases "0 \<le> n")
  case True
  have inv: "bulk_inv throws n b" by (rule bk.steps_keep [OF assms start_inv [OF True]])
  show ?thesis using True bk.run_bound [OF assms start_inv [OF True]] bk.maximal_final [OF inv] finished_iff_completed [OF inv]
    by (simp add: start_rank)
next
  case False
  then have stuck: "\<not> bulk_step throws (bulk_begin n) b'" for b'
    by (auto simp: bulk_begin_eval elim: bulk_step.cases)
  have "b = bulk_begin n" using assms relpowp_Suc_D2 [of _ "bulk_step throws" "bulk_begin n" b] stuck by (cases k) auto
  then show ?thesis using False stuck by (simp add: bulk_begin_eval)
qed

definition second_throws :: "int \<Rightarrow> exn option" where
  "second_throws i = (if i = 1 then Some Length_error else None)"

definition second_run :: "bulk \<Rightarrow> bulk" where
  "second_run b = bulk_complete 0 (bulk_dec 0 (bulk_dec 1 (bulk_store 1 Length_error (bulk_cas 1 Length_error
     (bulk_call second_throws 0 (bulk_call second_throws 1 (bulk_post (bulk_post b))))))))"

lemma second_steps: "(bulk_step second_throws ^^ 9) (bulk_begin 2) (second_run (bulk_begin 2))"
proof -
  let ?s = "bulk_step second_throws"
  let ?b2 = "bulk_post (bulk_post (bulk_begin 2))"
  let ?b4 = "bulk_call second_throws 0 (bulk_call second_throws 1 ?b2)"
  let ?b6 = "bulk_store 1 Length_error (bulk_cas 1 Length_error ?b4)"
  note ds = bulk_ops bulk_begin_eval second_throws_def numeral_2_eq_2
  have a: "?s (bulk_begin 2) (bulk_post (bulk_begin 2))" by (rule bs_post) (simp add: ds)
  have b: "?s (bulk_post (bulk_begin 2)) ?b2" by (rule bs_post) (simp add: ds)
  have c: "?s ?b2 (bulk_call second_throws 1 ?b2)" by (rule bs_call) (simp_all add: ds)
  have d: "?s (bulk_call second_throws 1 ?b2) ?b4" by (rule bs_call) (simp_all add: ds)
  have e: "?s ?b4 (bulk_cas 1 Length_error ?b4)" by (rule bs_cas) (simp_all add: ds)
  have f: "?s (bulk_cas 1 Length_error ?b4) ?b6" by (rule bs_store) (simp_all add: ds)
  have g: "?s ?b6 (bulk_dec 1 ?b6)" by (rule bs_dec) (simp_all add: ds)
  have h: "?s (bulk_dec 1 ?b6) (bulk_dec 0 (bulk_dec 1 ?b6))" by (rule bs_dec) (simp_all add: ds)
  have i: "?s (bulk_dec 0 (bulk_dec 1 ?b6)) (second_run (bulk_begin 2))"
    unfolding second_run_def by (rule bs_complete) (simp_all add: ds)
  note more = relpowp_Suc_I [where P = ?s]
  have "(?s ^^ Suc (Suc (Suc (Suc (Suc (Suc (Suc (Suc (Suc 0))))))))) (bulk_begin 2) (second_run (bulk_begin 2))"
    by (rule more [OF more [OF more [OF more [OF more [OF more [OF more [OF more [OF more [OF _ a] b] c] d] e] f] g] h] i]) simp
  then show ?thesis by (simp add: numeral_eq_Suc)
qed

theorem bulk_exactly_one_witness:
  "bulk_allows second_throws 2 (Some (Set_error Length_error)) \<and> (\<nexists>b'. bulk_step second_throws (second_run (bulk_begin 2)) b')"
proof -
  note t = bulk_exactly_one [OF second_steps]
  have "bulk_finished (second_run (bulk_begin 2))" "bk_out (second_run (bulk_begin 2)) = [Some (Set_error Length_error)]"
    by (simp_all add: bulk_finished_def second_run_def bulk_ops bulk_begin_eval second_throws_def numeral_2_eq_2)
  with t show ?thesis by simp
qed

subsection \<open>The sender and its contract\<close>

text \<open>The token of the final receiver, as it answers after a possible stop request.\<close>

definition stopped_token :: "stop_token \<Rightarrow> bool \<Rightarrow> stop_token" where
  "stopped_token env_tok later =
     (if stop_possible env_tok then \<lparr>stop_possible = True, stop_requested = stop_requested env_tok \<or> later\<rparr> else no_token)"

lemma bridged_token:
  "bridge_token (if later then env_stop (bridge_start env_tok no_stop) else bridge_start env_tok no_stop) = stopped_token env_tok later"
  by (auto simp: stopped_token_def bridge_token_def bridge_start_def env_stop_def stop_forwarder_def no_stop_def Let_def)

lemma installed_tokens:
  assumes "\<forall>f \<in> set fs. slots f = None" and "tok = stopped_token env_tok later" and "f \<in> set fs"
  shows "current_fiber_stop_token f (fold (bulk_fiber_slots tok) fs slots) = tok"
proof (cases "stop_possible tok")
  case True
  have "f \<in> set fs \<or> slots f = Some tok \<Longrightarrow> fold (bulk_fiber_slots tok) fs slots f = Some tok" for slots
    by (induction fs arbitrary: slots) (auto simp: bulk_fiber_slots_def install_fiber_stop_token_def True)
  then show ?thesis using assms(3) by (simp add: current_fiber_stop_token_def)
next
  case False
  then have "fold (bulk_fiber_slots tok) fs slots = slots"
    by (induction fs) (simp_all add: bulk_fiber_slots_def install_fiber_stop_token_def)
  moreover have "tok = no_token" using False assms(2) by (simp add: stopped_token_def split: if_splits)
  ultimately show ?thesis using assms(1,3) by (simp add: current_fiber_stop_token_def)
qed

text \<open>
  C20. A bulk operation carries pool and stop token to its fibers. The sender the domain builds
  from \<open>schedule(sched) | bulk(policy, n, fn)\<close> runs on the pool of \<open>sched\<close>, with the shape and function
  given, and its completed predecessor starts the loop over \<open>n\<close> indices. Every fiber it posts sees
  a stoppable token exactly when the final receiver has one, and sees it stopped exactly when a
  stop was requested there, before the start or later.
\<close>
theorem bulk_stop_chain:
  assumes "slots launcher = None" and "\<forall>f \<in> set fs. slots f = None"
    and "bop = bulk_start (bulk_connect env_tok (transform_sender (policy, n, fn) (schedule sched)))"
    and "tok = launcher_token launcher slots (if later then bop\<lparr>bo_inner := env_stop (bo_inner bop)\<rparr> else bop)"
  shows "bo_pool bop = sch_ctx sched \<and> bo_fun bop = fn \<and> bulk_set_value (bo_shared bop) = bulk_begin n
    \<and> (\<forall>f \<in> set fs. current_fiber_stop_token f (fold (bulk_fiber_slots tok) fs slots) = stopped_token env_tok later)"
proof -
  have inner: "bo_inner bop = bridge_start env_tok no_stop" by (simp add: assms(3) bulk_start_def bulk_get_env_def bulk_connect_def)
  have tok: "tok = stopped_token env_tok later"
    using bridged_token [of later env_tok] by (cases later) (simp_all add: assms(4) launcher_token_def fiber_token_bridge [where slots = slots and fiber = launcher, OF assms(1)] inner)
  have "bo_pool bop = sch_ctx sched \<and> bo_fun bop = fn \<and> bulk_set_value (bo_shared bop) = bulk_begin n"
    by (simp add: assms(3) bulk_start_def bulk_get_env_def bulk_connect_def transform_sender_def schedule_completion_scheduler_def schedule_def bulk_begin_def)
  then show ?thesis using installed_tokens [OF assms(2) tok] tok by simp
qed

theorem bulk_stop_chain_witness:
  "current_fiber_stop_token 8 (fold (bulk_fiber_slots \<lparr>stop_possible = True, stop_requested = True\<rparr>) [7, 8] (\<lambda>_. None))
     = \<lparr>stop_possible = True, stop_requested = True\<rparr>"
proof -
  let ?e = "\<lparr>stop_possible = True, stop_requested = False\<rparr>"
  let ?o = "bulk_start (bulk_connect ?e (transform_sender ((), 2, ()) (schedule \<lparr>sch_ctx = 1\<rparr>)))"
  have "launcher_token 3 (\<lambda>_. None) (?o\<lparr>bo_inner := env_stop (bo_inner ?o)\<rparr>) = \<lparr>stop_possible = True, stop_requested = True\<rparr>"
    by (simp add: launcher_token_def fiber_token_bridge bulk_start_def bulk_get_env_def bulk_connect_def bridge_token_def bridge_start_def env_stop_def
        stop_forwarder_def no_stop_def Let_def)
  then show ?thesis
    using bulk_stop_chain [of "\<lambda>_. None" 3 "[7, 8]" ?o ?e "()" 2 "()" "\<lparr>sch_ctx = 1\<rparr>" _ True] by (simp add: stopped_token_def)
qed

end
