(* ===== verification/Gather.thy ===== *)
theory Gather
  imports Bulk
begin

text \<open>
  \<open>examples/parallel_gather.cpp\<close>: sixteen producer threads send one number each into a socket of
  their own, and a bulk operation on the pool receives them, one fiber per socket; the main
  thread waits for the bulk operation, joins the producers and adds the numbers up.

  The bulk operation is the one of \<open>Bulk\<close>, with the call of the function at index \<open>i\<close> being the
  receive from socket \<open>i\<close>. The socket pairs are the environment: a receive returns once its
  number is there, with all four bytes (\<open>MSG_WAITALL\<close>), unless it fails; \<open>fails\<close> says at which
  indices it does and with what exception. An exception that leaves \<open>main\<close> ends the program.
\<close>

subsection \<open>State and steps\<close>

definition gather_n :: nat where "gather_n = 16"

definition gather_value :: "nat \<Rightarrow> u32" where
  "gather_value i = word_of_nat (i * i)"

text \<open>The main thread: in \<open>sync_wait\<close>, joining the producers from a given one on, at its end, or left by an exception.\<close>

datatype gather_main = Gm_wait | Gm_join nat | Gm_done | Gm_thrown exn

record gather =
  ga_bulk :: bulk
  ga_sent :: "nat \<Rightarrow> bool"
  ga_results :: "u32 list"
  ga_main :: gather_main
  ga_sum :: "u32 option"

definition gather_start :: gather where
  "gather_start = \<lparr>ga_bulk = bulk_begin (int gather_n), ga_sent = (\<lambda>_. False), ga_results = replicate gather_n 0,
     ga_main = Gm_wait, ga_sum = None\<rparr>"

definition gather_send :: "nat \<Rightarrow> gather \<Rightarrow> gather" where
  "gather_send i s = s\<lparr>ga_sent := (ga_sent s)(i := True)\<rparr>"

text \<open>The function given to \<open>bulk\<close> returns or throws at index \<open>i\<close>.\<close>

definition gather_recv :: "(int \<Rightarrow> exn option) \<Rightarrow> nat \<Rightarrow> gather \<Rightarrow> gather" where
  "gather_recv fails i s = s\<lparr>ga_bulk := bulk_call fails i (ga_bulk s),
     ga_results := (if fails (int i) = None then (ga_results s)[i := gather_value i] else ga_results s)\<rparr>"

definition gather_resume :: "unit completion option \<Rightarrow> gather \<Rightarrow> gather" where
  "gather_resume x s = s\<lparr>ga_main := (case x of Some (Set_error ex) \<Rightarrow> Gm_thrown ex | _ \<Rightarrow> Gm_join 0)\<rparr>"

definition gather_join :: "nat \<Rightarrow> gather \<Rightarrow> gather" where
  "gather_join j s = s\<lparr>ga_main := Gm_join (j + 1)\<rparr>"

definition gather_total :: "gather \<Rightarrow> gather" where
  "gather_total s = s\<lparr>ga_main := Gm_done, ga_sum := Some (fold (+) (ga_results s) 0)\<rparr>"

lemmas gather_ops = gather_send_def gather_recv_def gather_resume_def gather_join_def gather_total_def

text \<open>A step of the bulk operation that is not the end of a call.\<close>

definition keeps_posted :: "bulk \<Rightarrow> bulk \<Rightarrow> bool" where
  "keeps_posted b b' \<longleftrightarrow> (\<forall>i < length (phases b). phases b ! i = Bk_posted \<longrightarrow> phases b' ! i = Bk_posted)"

inductive gather_step :: "(int \<Rightarrow> exn option) \<Rightarrow> gather \<Rightarrow> gather \<Rightarrow> bool" for fails :: "int \<Rightarrow> exn option" where
  gs_send: "i < gather_n \<Longrightarrow> \<not> ga_sent s i \<Longrightarrow> \<forall>ex. ga_main s \<noteq> Gm_thrown ex \<Longrightarrow> gather_step fails s (gather_send i s)"
| gs_recv: "i < length (phases (ga_bulk s)) \<Longrightarrow> phases (ga_bulk s) ! i = Bk_posted \<Longrightarrow> ga_sent s i \<or> fails (int i) \<noteq> None \<Longrightarrow>
     gather_step fails s (gather_recv fails i s)"
| gs_fiber: "bulk_step fails (ga_bulk s) b' \<Longrightarrow> keeps_posted (ga_bulk s) b' \<Longrightarrow> gather_step fails s (s\<lparr>ga_bulk := b'\<rparr>)"
| gs_resume: "ga_main s = Gm_wait \<Longrightarrow> bk_out (ga_bulk s) = [x] \<Longrightarrow> gather_step fails s (gather_resume x s)"
| gs_join: "ga_main s = Gm_join j \<Longrightarrow> j < gather_n \<Longrightarrow> ga_sent s j \<Longrightarrow> gather_step fails s (gather_join j s)"
| gs_total: "ga_main s = Gm_join gather_n \<Longrightarrow> gather_step fails s (gather_total s)"

definition gather_final :: "gather \<Rightarrow> bool" where
  "gather_final s \<longleftrightarrow> ga_main s = Gm_done \<or> (\<exists>ex. ga_main s = Gm_thrown ex)"

subsection \<open>Invariant\<close>

text \<open>What the main thread knows of the bulk operation and of the producers.\<close>

fun main_ok :: "gather \<Rightarrow> gather_main \<Rightarrow> bool" where
  "main_ok s Gm_wait \<longleftrightarrow> True"
| "main_ok s (Gm_join j) \<longleftrightarrow> j \<le> gather_n \<and> bk_out (ga_bulk s) = [Some (Set_value ())] \<and> (\<forall>i < j. ga_sent s i)"
| "main_ok s Gm_done \<longleftrightarrow> bk_out (ga_bulk s) = [Some (Set_value ())] \<and> (\<forall>i < gather_n. ga_sent s i) \<and> ga_sum s = Some (fold (+) (ga_results s) 0)"
| "main_ok s (Gm_thrown ex) \<longleftrightarrow> bk_out (ga_bulk s) = [Some (Set_error ex)]"

definition gather_inv :: "(int \<Rightarrow> exn option) \<Rightarrow> gather \<Rightarrow> bool" where
  "gather_inv fails s \<longleftrightarrow> bulk_inv fails (int gather_n) (ga_bulk s) \<and> length (ga_results s) = gather_n
     \<and> (\<forall>i < gather_n. past (phases (ga_bulk s) ! i) \<and> fails (int i) = None \<longrightarrow> ga_results s ! i = gather_value i)
     \<and> main_ok s (ga_main s)"

lemma gather_phases: "gather_inv fails s \<Longrightarrow> length (phases (ga_bulk s)) = gather_n"
  by (simp add: gather_inv_def bulk_inv_def)

text \<open>Only the end of a call takes a fiber that does not fail past the call.\<close>

lemma fiber_past:
  assumes "bulk_inv fails n b" and "bulk_step fails b b'" and "keeps_posted b b'" and "i < length (phases b)"
    and "past (phases b' ! i)" and "fails (int i) = None"
  shows "past (phases b ! i)"
  using assms(2)
proof cases
  case bs_post
  then show ?thesis using assms(4,5) by (cases "i = nat (bk_next b)") (simp_all add: bulk_ops)
next
  case (bs_call j)
  then have "phases b' ! j = Bk_posted" using assms(3) by (simp add: keeps_posted_def)
  then show ?thesis using bs_call by (simp add: bulk_ops split: option.splits)
next
  case (bs_cas j ex)
  then have "fails (int j) = Some ex" using inv_phase [OF assms(1), of j] by (simp add: phase_ok_def)
  then have "j \<noteq> i" using assms(6) by auto
  then show ?thesis using bs_cas assms(5) by (auto simp: bulk_ops split: if_splits)
next
  case (bs_store j ex)
  then have "fails (int j) = Some ex" using inv_phase [OF assms(1), of j] by (simp add: phase_ok_def)
  then have "j \<noteq> i" using assms(6) by auto
  then show ?thesis using bs_store assms(5) by (auto simp: bulk_ops)
next
  case (bs_dec j)
  then show ?thesis using assms(5) by (cases "i = j") (auto simp: bulk_ops)
next
  case (bs_complete j)
  then show ?thesis using assms(5) by (cases "i = j") (auto simp: bulk_ops)
qed

text \<open>Once the bulk operation has completed, it is over.\<close>

lemma completed_no_step:
  assumes "bulk_inv fails n b" and "bk_out b \<noteq> []"
  shows "bulk_finished b" and "\<not> bulk_step fails b b'"
proof -
  show f: "bulk_finished b" using finished_iff_completed [OF assms(1)] assms(2) by (auto split: if_splits)
  show "\<not> bulk_step fails b b'" by (rule bulk_finished_step [OF assms(1) f])
qed

lemma main_waits: "bk_out (ga_bulk s) = [] \<Longrightarrow> main_ok s (ga_main s) \<Longrightarrow> ga_main s = Gm_wait"
  by (cases "ga_main s") auto

lemma bulk_moves:
  assumes "gather_inv fails s" and "bulk_step fails (ga_bulk s) b'"
  shows "ga_main s = Gm_wait"
proof -
  have inv: "bulk_inv fails (int gather_n) (ga_bulk s)" and m: "main_ok s (ga_main s)" using assms(1) by (simp_all add: gather_inv_def)
  have "bk_out (ga_bulk s) = []" using completed_no_step(2) [OF inv] assms(2) by blast
  from main_waits [OF this m] show ?thesis .
qed

lemma gather_step_inv:
  assumes "gather_inv fails s" and "gather_step fails s s'"
  shows "gather_inv fails s'"
  using assms(2)
proof cases
  case (gs_send i)
  then show ?thesis using assms(1) by (cases "ga_main s") (auto simp: gather_inv_def gather_ops)
next
  case (gs_recv i)
  have st: "bulk_step fails (ga_bulk s) (bulk_call fails i (ga_bulk s))" using gs_recv(2,3) by (rule bs_call)
  have i: "i < length (ga_results s)" using gs_recv(2) assms(1) gather_phases [OF assms(1)] by (simp add: gather_inv_def)
  have "past (phases (ga_bulk s') ! j) \<and> fails (int j) = None \<longrightarrow> ga_results s' ! j = gather_value j" if "j < gather_n" for j
    using that i assms(1) by (cases "j = i") (auto simp: gs_recv(1) gather_inv_def gather_ops bulk_ops)
  moreover have "bulk_inv fails (int gather_n) (ga_bulk s')" using assms(1) bulk_step_inv [OF _ st] by (simp add: gs_recv(1) gather_inv_def gather_ops)
  ultimately show ?thesis using assms(1) bulk_moves [OF assms(1) st] by (simp add: gather_inv_def gs_recv(1) gather_ops)
next
  case (gs_fiber b')
  have inv: "bulk_inv fails (int gather_n) (ga_bulk s)" using assms(1) by (simp add: gather_inv_def)
  have "ga_results s ! j = gather_value j" if "j < gather_n" "past (phases b' ! j)" "fails (int j) = None" for j
    using fiber_past [OF inv gs_fiber(2,3), of j] that assms(1) gather_phases [OF assms(1)] by (simp add: gather_inv_def)
  then show ?thesis using assms(1) bulk_step_inv [OF inv gs_fiber(2)] bulk_moves [OF assms(1) gs_fiber(2)]
    by (simp add: gather_inv_def gs_fiber(1))
next
  case (gs_resume x)
  have inv: "bulk_inv fails (int gather_n) (ga_bulk s)" using assms(1) by (simp add: gather_inv_def)
  have "bulk_allows fails (int gather_n) x" using inv_out [OF inv] gs_resume(3) by simp
  then have "x = Some (Set_value ()) \<or> (\<exists>ex. x = Some (Set_error ex))" by (auto simp: bulk_allows_def split: if_splits)
  then show ?thesis using assms(1) gs_resume by (auto simp: gather_inv_def gather_ops)
next
  case (gs_join j)
  then show ?thesis using assms(1) by (auto simp: gather_inv_def gather_ops less_Suc_eq)
next
  case gs_total
  then show ?thesis using assms(1) by (auto simp: gather_inv_def gather_ops)
qed

subsection \<open>Termination\<close>

fun main_weight :: "gather_main \<Rightarrow> nat" where
  "main_weight Gm_wait = gather_n + 2" | "main_weight (Gm_join j) = gather_n + 1 - j" | "main_weight Gm_done = 0" | "main_weight (Gm_thrown _) = 0"

definition gather_stutter :: "gather \<Rightarrow> nat" where
  "gather_stutter s = card {i. i < gather_n \<and> \<not> ga_sent s i} + main_weight (ga_main s)"

lemma send_less:
  assumes "i < gather_n" and "\<not> ga_sent s i"
  shows "gather_stutter (gather_send i s) < gather_stutter s"
proof -
  have "{j. j < gather_n \<and> \<not> ga_sent (gather_send i s) j} \<subset> {j. j < gather_n \<and> \<not> ga_sent s j}"
    using assms by (auto simp: gather_send_def)
  from psubset_card_mono [OF _ this] show ?thesis by (simp add: gather_stutter_def gather_send_def)
qed

lemma gather_stutter_step:
  assumes "gather_inv fails s" and "gather_step fails s s'"
  shows "if bulk_step fails (ga_bulk s) (ga_bulk s') then gather_stutter s' = gather_stutter s
    else ga_bulk s' = ga_bulk s \<and> gather_stutter s' < gather_stutter s"
proof -
  have same: "\<not> bulk_step fails (ga_bulk s) (ga_bulk s)"
    using bulk_rank_step [of fails "int gather_n" "ga_bulk s" "ga_bulk s"] assms(1) by (auto simp: gather_inv_def)
  show ?thesis using assms(2)
  proof cases
    case (gs_send i)
    then show ?thesis using send_less [of i s] same by (simp add: gather_send_def)
  next
    case (gs_recv i)
    have "bulk_step fails (ga_bulk s) (bulk_call fails i (ga_bulk s))" using gs_recv(2,3) by (rule bs_call)
    then show ?thesis by (simp add: gs_recv(1) gather_recv_def gather_stutter_def)
  next
    case (gs_resume x)
    have "main_weight (ga_main s') < main_weight (ga_main s)"
      using gs_resume(2) by (auto simp: gs_resume(1) gather_resume_def split: option.splits completion.splits)
    then show ?thesis using same by (simp add: gs_resume(1) gather_resume_def gather_stutter_def)
  qed (use same in \<open>simp_all add: gather_ops gather_stutter_def\<close>)
qed

interpretation ga: ranked_simulation "gather_step fails" "gather_inv fails" "bulk_step fails" ga_bulk
    "bulk_inv fails (int gather_n)" bulk_rank bulk_finished gather_stutter 0 for fails
proof unfold_locales
  fix s s'
  assume inv: "gather_inv fails s"
  then show "bulk_inv fails (int gather_n) (ga_bulk s)" by (simp add: gather_inv_def)
  assume st: "gather_step fails s s'"
  show "gather_inv fails s'" by (rule gather_step_inv [OF inv st])
  note g = gather_stutter_step [OF inv st]
  show "bulk_step fails (ga_bulk s) (ga_bulk s') \<or> ga_bulk s' = ga_bulk s" using g by (auto split: if_splits)
  show "gather_stutter s' \<le> gather_stutter s + 0" using g by (auto split: if_splits)
  show "\<not> bulk_step fails (ga_bulk s) (ga_bulk s') \<Longrightarrow> gather_stutter s' < gather_stutter s" using g by simp
qed

lemma fiber_step:
  assumes "gather_inv fails s" and "\<not> bulk_finished (ga_bulk s)" and "\<forall>ex. ga_main s \<noteq> Gm_thrown ex"
  shows "\<exists>s'. gather_step fails s s'"
proof -
  have inv: "bulk_inv fails (int gather_n) (ga_bulk s)" using assms(1) by (simp add: gather_inv_def)
  from bulk_progress [OF inv assms(2)] obtain b' where st: "bulk_step fails (ga_bulk s) b'" by blast
  show ?thesis
  proof (cases "keeps_posted (ga_bulk s) b'")
    case True
    then show ?thesis using gs_fiber [OF st] by blast
  next
    case False
    then obtain i where i: "i < length (phases (ga_bulk s))" "phases (ga_bulk s) ! i = Bk_posted" by (auto simp: keeps_posted_def)
    then have "i < gather_n" using gather_phases [OF assms(1)] by simp
    then show ?thesis using gs_recv [OF i] gs_send [of i s] assms(3) by (cases "ga_sent s i") blast+
  qed
qed

lemma gather_progress:
  assumes "gather_inv fails s" and "\<not> gather_final s"
  shows "\<exists>s'. gather_step fails s s'"
proof (cases "ga_main s")
  case Gm_wait
  have inv: "bulk_inv fails (int gather_n) (ga_bulk s)" using assms(1) by (simp add: gather_inv_def)
  show ?thesis
  proof (cases "bulk_finished (ga_bulk s)")
    case True
    then obtain x where "bk_out (ga_bulk s) = [x]" using finished_iff_completed [OF inv] by auto
    from gs_resume [OF Gm_wait this] show ?thesis by blast
  next
    case False
    then show ?thesis using fiber_step [OF assms(1)] Gm_wait by simp
  qed
next
  case (Gm_join j)
  then have "j \<le> gather_n" using assms(1) by (simp add: gather_inv_def)
  then consider "j = gather_n" | "j < gather_n" by linarith
  then show ?thesis
  proof cases
    case 1
    then show ?thesis using gs_total Gm_join by blast
  next
    case 2
    then show ?thesis using gs_join [OF Gm_join] gs_send [of j s] Gm_join by (cases "ga_sent s j") auto
  qed
qed (use assms(2) in \<open>simp_all add: gather_final_def\<close>)

lemma gather_final_step:
  assumes "gather_inv fails s" and "gather_final s"
  shows "\<not> gather_step fails s s'"
proof
  assume st: "gather_step fails s s'"
  have inv: "bulk_inv fails (int gather_n) (ga_bulk s)" and m: "main_ok s (ga_main s)" using assms(1) by (simp_all add: gather_inv_def)
  have "bk_out (ga_bulk s) \<noteq> []" using assms(2) m by (auto simp: gather_final_def)
  note no = completed_no_step(2) [OF inv this]
  from st show False
  proof cases
    case (gs_recv i)
    from bs_call [OF gs_recv(2,3), of fails] no show ?thesis by blast
  qed (use assms(2) m no in \<open>auto simp: gather_final_def\<close>)
qed

interpretation gr: ranked_system "gather_step fails" "gather_inv fails" "\<lambda>s. bulk_rank (ga_bulk s) + gather_stutter s" gather_final for fails
  using ga.whole_rank_step by unfold_locales (auto intro: gather_progress simp: gather_final_step)

lemma gather_start_inv: "gather_inv fails gather_start"
  using start_inv [of "int gather_n" fails]
  by (simp add: gather_inv_def gather_start_def bulk_begin_eval)

lemma gather_start_rank: "bulk_rank (ga_bulk gather_start) + gather_stutter gather_start = 130"
  by (simp add: gather_start_def start_rank gather_stutter_def gather_n_def)

lemma squares_total: "fold (+) (map gather_value [0..<gather_n]) 0 = 1240"
  by (simp add: gather_value_def gather_n_def upt_rec)

lemma all_received:
  assumes "gather_inv fails s" and "bk_out (ga_bulk s) = [Some (Set_value ())]"
  shows "\<forall>i < gather_n. fails (int i) = None" and "ga_results s = map gather_value [0..<gather_n]"
proof -
  have inv: "bulk_inv fails (int gather_n) (ga_bulk s)" using assms(1) by (simp add: gather_inv_def)
  have "bulk_allows fails (int gather_n) (Some (Set_value ()))" using inv_out [OF inv] assms(2) by simp
  then show no: "\<forall>i < gather_n. fails (int i) = None" by (auto simp: bulk_allows_def split: if_splits)
  have "bulk_finished (ga_bulk s)" by (rule completed_no_step(1) [OF inv]) (simp add: assms(2))
  then have "phases (ga_bulk s) ! i = Bk_done" if "i < gather_n" for i
    using that gather_phases [OF assms(1)] not_finished [of "ga_bulk s"] by simp
  then show "ga_results s = map gather_value [0..<gather_n]"
    using assms(1) no by (intro nth_equalityI) (auto simp: gather_inv_def)
qed

text \<open>
  C15. Fan-out and gather. Every interleaving of the producers, the fibers of the bulk operation
  and the main thread takes at most 130 steps and goes on until the main thread has reached
  its end or was left by an exception. It reaches its end exactly when no receive failed, and
  then \<open>results\<close> holds the squares of the indices in order and the sum printed is 1240, the value
  announced; otherwise the exception is one that some receive threw.
\<close>
theorem gather_results:
  assumes "(gather_step fails ^^ k) gather_start s"
  shows "k \<le> 130 \<and> ((\<nexists>s'. gather_step fails s s') \<longleftrightarrow> gather_final s)
    \<and> (ga_main s = Gm_done \<longrightarrow> (\<forall>i < gather_n. fails (int i) = None) \<and> ga_results s = map (\<lambda>i. word_of_nat (i * i)) [0..<gather_n]
         \<and> ga_sum s = Some 1240 \<and> (gather_n - 1) * gather_n * (2 * gather_n - 1) div 6 = 1240)
    \<and> (\<forall>ex. ga_main s = Gm_thrown ex \<longrightarrow> (\<exists>i < gather_n. fails (int i) = Some ex))"
proof -
  have inv: "gather_inv fails s" by (rule ga.steps_keep [OF assms gather_start_inv])
  then have m: "main_ok s (ga_main s)" and b: "bulk_inv fails (int gather_n) (ga_bulk s)" by (simp_all add: gather_inv_def)
  have "k \<le> 130" using gr.run_bound [OF assms gather_start_inv] gather_start_rank by simp
  moreover have "(\<nexists>s'. gather_step fails s s') \<longleftrightarrow> gather_final s" by (rule gr.maximal_final [OF inv])
  moreover have "(\<forall>i < gather_n. fails (int i) = None) \<and> ga_results s = map (\<lambda>i. word_of_nat (i * i)) [0..<gather_n] \<and> ga_sum s = Some 1240"
    if "ga_main s = Gm_done"
    using all_received [OF inv] m that squares_total by (auto simp: gather_value_def)
  moreover have "\<exists>i < gather_n. fails (int i) = Some ex" if "ga_main s = Gm_thrown ex" for ex
  proof -
    have "bulk_allows fails (int gather_n) (Some (Set_error ex))" using inv_out [OF b] m that by simp
    then obtain i where "0 \<le> i" "i < int gather_n" "fails i = Some ex" by (auto simp: bulk_allows_def split: if_splits)
    then show ?thesis by (intro exI [of _ "nat i"]) simp
  qed
  ultimately show ?thesis by (simp add: gather_n_def)
qed

theorem gather_results_witness:
  "\<exists>k s. (gather_step (\<lambda>_. None) ^^ k) gather_start s \<and> ga_sum s = Some 1240"
proof -
  from gr.final_reachable [OF gather_start_inv] obtain s where s: "(gather_step (\<lambda>_. None))\<^sup>*\<^sup>* gather_start s" "gather_final s" by blast
  then obtain k where k: "(gather_step (\<lambda>_. None) ^^ k) gather_start s" using rtranclp_imp_relpowp by metis
  from gather_results [OF k] s(2) have "ga_sum s = Some 1240" by (auto simp: gather_final_def)
  with k show ?thesis by blast
qed

end
