(* ===== verification/Backpressure.thy ===== *)
theory Backpressure
  imports Channel Runs
begin

text \<open>
  \<open>examples/channel_backpressure.cpp\<close>: a fast producer and a slow consumer over one channel. The
  two fibers run on any workers, so each call on the channel is a step, enabled when the call
  returns; a suspended call is a step that is not enabled. The sleep of the consumer ends by a
  step of its own. The Boost channel is the parameter of \<open>Channel\<close>, and the proofs use the
  wrapper only through the interface \<open>bounded_channel\<close>.
\<close>

subsection \<open>State and steps\<close>

definition k_items :: int where "k_items = 12"

definition bp_capacity :: nat where "bp_capacity = 4"

datatype bp_consumer = Cn_pop | Cn_sleep int | Cn_returned

record 'c backpressure =
  bp_ch :: 'c
  bp_i :: int
  bp_closed :: bool
  bp_consumer :: bp_consumer
  bp_produced :: "int list"
  bp_consumed :: "int list"

definition bp_start :: "'c \<Rightarrow> 'c backpressure" where
  "bp_start ch = \<lparr>bp_ch = ch, bp_i = 0, bp_closed = False, bp_consumer = Cn_pop, bp_produced = [], bp_consumed = []\<rparr>"

definition bp_push :: "'c \<Rightarrow> 'c backpressure \<Rightarrow> 'c backpressure" where
  "bp_push ch' s = s\<lparr>bp_ch := ch', bp_i := bp_i s + 1, bp_produced := bp_produced s @ [bp_i s]\<rparr>"

definition bp_close :: "('c, int) boost_channel \<Rightarrow> 'c backpressure \<Rightarrow> 'c backpressure" where
  "bp_close bc s = s\<lparr>bp_ch := channel_close bc (bp_ch s), bp_closed := True\<rparr>"

definition bp_pop :: "channel_op_status \<Rightarrow> int option \<Rightarrow> 'c \<Rightarrow> 'c backpressure \<Rightarrow> 'c backpressure" where
  "bp_pop st v ch' s = s\<lparr>bp_ch := ch',
     bp_consumer := (if st = Ch_success then Cn_sleep (case v of Some x \<Rightarrow> x | None \<Rightarrow> 0) else Cn_returned)\<rparr>"

definition bp_print :: "int \<Rightarrow> 'c backpressure \<Rightarrow> 'c backpressure" where
  "bp_print v s = s\<lparr>bp_consumer := Cn_pop, bp_consumed := bp_consumed s @ [v]\<rparr>"

lemmas bp_ops = bp_push_def bp_close_def bp_pop_def bp_print_def

inductive bp_step :: "('c, int) boost_channel \<Rightarrow> 'c backpressure \<Rightarrow> 'c backpressure \<Rightarrow> bool"
  for bc :: "('c, int) boost_channel" where
  bps_push: "\<not> bp_closed s \<Longrightarrow> bp_i s < k_items \<Longrightarrow> channel_push bc (bp_ch s) (bp_i s) = Ret (st, ch') \<Longrightarrow>
     bp_step bc s (bp_push ch' s)"
| bps_close: "\<not> bp_closed s \<Longrightarrow> \<not> bp_i s < k_items \<Longrightarrow> bp_step bc s (bp_close bc s)"
| bps_pop: "bp_consumer s = Cn_pop \<Longrightarrow> channel_pop bc (bp_ch s) = Ret (st, v, ch') \<Longrightarrow> bp_step bc s (bp_pop st v ch' s)"
| bps_print: "bp_consumer s = Cn_sleep v \<Longrightarrow> bp_step bc s (bp_print v s)"

inductive_cases bp_stepE: "bp_step bc s s'"

definition bp_finished :: "'c backpressure \<Rightarrow> bool" where
  "bp_finished s \<longleftrightarrow> bp_closed s \<and> bp_consumer s = Cn_returned"

subsection \<open>Invariant\<close>

definition bp_hand :: "'c backpressure \<Rightarrow> int list" where
  "bp_hand s = (case bp_consumer s of Cn_sleep v \<Rightarrow> [v] | _ \<Rightarrow> [])"

text \<open>
  Consumed, in the hand of the consumer and queued are the numbers below \<open>i\<close>, in order. The
  channel is closed exactly by the producer.
\<close>

definition bp_inv :: "('c \<Rightarrow> int fifo) \<Rightarrow> nat \<Rightarrow> 'c backpressure \<Rightarrow> bool" where
  "bp_inv view lim s \<longleftrightarrow> 0 \<le> bp_i s \<and> bp_i s \<le> k_items \<and> bp_produced s = [0..bp_i s - 1]
     \<and> bp_consumed s @ bp_hand s @ f_items (view (bp_ch s)) = [0..bp_i s - 1]
     \<and> f_limit (view (bp_ch s)) = lim \<and> 0 < lim \<and> length (f_items (view (bp_ch s))) \<le> lim
     \<and> f_closed (view (bp_ch s)) = bp_closed s \<and> (bp_closed s \<longrightarrow> bp_i s = k_items)
     \<and> (bp_consumer s = Cn_returned \<longrightarrow> bp_closed s \<and> f_items (view (bp_ch s)) = [])"

definition bp_rank :: "('c \<Rightarrow> int fifo) \<Rightarrow> 'c backpressure \<Rightarrow> nat" where
  "bp_rank view s = 3 * nat (k_items - bp_i s) + 2 * length (f_items (view (bp_ch s))) + length (bp_hand s)
     + (if bp_closed s then 0 else 1) + (if bp_consumer s = Cn_returned then 0 else 1)"

lemma upto_snoc: "0 \<le> i \<Longrightarrow> [0..i] = [0..i - 1] @ [i :: int]"
  by (rule upto_rec2)

locale bp_system =
  bounded_channel "channel_push bc" "channel_try_push bc" "channel_pop bc" "channel_close bc" view
  for bc :: "('c, int) boost_channel" and view :: "'c \<Rightarrow> int fifo"
begin

lemma bp_inv_step:
  assumes "bp_inv view lim s" and "bp_step bc s s'"
  shows "bp_inv view lim s'"
  using assms(2)
proof cases
  case (bps_push st ch')
  then show ?thesis using assms(1) push_returned [OF bps_push(4)] upto_snoc [of "bp_i s"]
    by (auto simp: bp_inv_def bp_push_def bp_hand_def)
next
  case bps_close
  then show ?thesis using assms(1) by (auto simp: bp_inv_def bp_close_def bp_hand_def close_view)
next
  case (bps_pop st v ch')
  then show ?thesis using assms(1) pop_returned [OF bps_pop(3)] by (auto simp: bp_inv_def bp_pop_def bp_hand_def)
next
  case (bps_print v)
  then show ?thesis using assms(1) by (simp add: bp_inv_def bp_print_def bp_hand_def)
qed

lemma bp_rank_step:
  assumes "bp_inv view lim s" and "bp_step bc s s'"
  shows "bp_rank view s' < bp_rank view s"
  using assms(2)
proof cases
  case (bps_push st ch')
  then show ?thesis using assms(1) push_returned [OF bps_push(4)]
    by (auto simp: bp_inv_def bp_push_def bp_hand_def bp_rank_def)
next
  case bps_close
  then show ?thesis by (simp add: bp_close_def bp_hand_def bp_rank_def close_view)
next
  case (bps_pop st v ch')
  then show ?thesis using pop_returned [OF bps_pop(3)] by (auto simp: bp_pop_def bp_hand_def bp_rank_def)
next
  case (bps_print v)
  then show ?thesis by (simp add: bp_print_def bp_hand_def bp_rank_def)
qed

text \<open>A full channel has something to pop, and an empty one has room.\<close>

lemma bp_progress:
  assumes "bp_inv view lim s" and "\<not> bp_finished s"
  shows "\<exists>s'. bp_step bc s s'"
proof (cases "bp_consumer s")
  case (Cn_sleep v)
  then show ?thesis by (blast intro: bps_print)
next
  case Cn_returned
  then show ?thesis using assms by (simp add: bp_inv_def bp_finished_def)
next
  case Cn_pop
  have cl: "f_closed (view (bp_ch s)) = bp_closed s" using assms(1) by (simp add: bp_inv_def)
  show ?thesis
  proof (cases "f_items (view (bp_ch s))")
    case (Cons x xs)
    from pop_succeeds [OF this] obtain ch' where "channel_pop bc (bp_ch s) = Ret (Ch_success, Some x, ch')" by blast
    from bps_pop [OF Cn_pop this] show ?thesis by blast
  next
    case Nil
    show ?thesis
    proof (cases "bp_closed s")
      case True
      with Nil cl pop_after_close [of "bp_ch s"] obtain ch' where "channel_pop bc (bp_ch s) = Ret (Ch_closed, None, ch')" by blast
      from bps_pop [OF Cn_pop this] show ?thesis by blast
    next
      case False
      have "length (f_items (view (bp_ch s))) < f_limit (view (bp_ch s))" using Nil assms(1) by (simp add: bp_inv_def)
      with False cl push_succeeds [of "bp_ch s" "bp_i s"] obtain ch' where "channel_push bc (bp_ch s) (bp_i s) = Ret (Ch_success, ch')"
        by blast
      then show ?thesis using bps_push [OF False] bps_close [OF False] by blast
    qed
  qed
qed

lemma bp_finished_step: "bp_inv view lim s \<Longrightarrow> bp_finished s \<Longrightarrow> \<not> bp_step bc s s'"
  by (auto simp: bp_finished_def elim: bp_stepE)

end

sublocale bp_system \<subseteq> bp: ranked_system "bp_step bc" "bp_inv view lim" "bp_rank view" bp_finished for lim
  by unfold_locales (auto intro: bp_inv_step bp_rank_step bp_progress simp: bp_finished_step)

context bp_system
begin

lemma bp_start_inv:
  "view ch = \<lparr>f_items = [], f_limit = lim, f_closed = False\<rparr> \<Longrightarrow> 0 < lim \<Longrightarrow> bp_inv view lim (bp_start ch)"
  by (simp add: bp_inv_def bp_start_def bp_hand_def k_items_def)

lemma bp_run:
  assumes "view ch = \<lparr>f_items = [], f_limit = lim, f_closed = False\<rparr>" and "0 < lim" and "(bp_step bc ^^ k) (bp_start ch) s"
  shows "bp_inv view lim s" and "k \<le> 38" and "(\<nexists>s'. bp_step bc s s') \<longleftrightarrow> bp_finished s"
proof -
  note st = bp_start_inv [OF assms(1,2)]
  show inv: "bp_inv view lim s" by (rule bp.steps_keep [OF assms(3) st])
  show "k \<le> 38" using bp.run_bound [OF assms(3) st] by (simp add: bp_rank_def bp_start_def bp_hand_def k_items_def assms(1))
  show "(\<nexists>s'. bp_step bc s s') \<longleftrightarrow> bp_finished s" by (rule bp.maximal_final [OF inv])
qed

text \<open>The producer alone fills the channel.\<close>

lemma bp_fill:
  assumes "view ch = \<lparr>f_items = [], f_limit = lim, f_closed = False\<rparr>" and "0 < lim" and "j \<le> lim" and "int j \<le> k_items"
  shows "\<exists>s. (bp_step bc ^^ j) (bp_start ch) s \<and> bp_i s = int j \<and> \<not> bp_closed s \<and> bp_consumer s = Cn_pop \<and> bp_consumed s = []"
  using assms(3,4)
proof (induction j)
  case 0
  then show ?case by (simp add: bp_start_def)
next
  case (Suc j)
  then obtain s where s: "(bp_step bc ^^ j) (bp_start ch) s" "bp_i s = int j" "\<not> bp_closed s" "bp_consumer s = Cn_pop" "bp_consumed s = []"
    by auto
  have inv: "bp_inv view lim s" by (rule bp.steps_keep [OF s(1) bp_start_inv [OF assms(1,2)]])
  then have "f_items (view (bp_ch s)) = [0..int j - 1]" "f_limit (view (bp_ch s)) = lim" "\<not> f_closed (view (bp_ch s))"
    using s by (simp_all add: bp_inv_def bp_hand_def)
  with push_succeeds [of "bp_ch s" "bp_i s"] Suc.prems obtain ch' where "channel_push bc (bp_ch s) (bp_i s) = Ret (Ch_success, ch')" by auto
  from bps_push [OF s(3) _ this] have "bp_step bc s (bp_push ch' s)" using s(2) Suc.prems by simp
  from relpowp_Suc_I [OF s(1) this] show ?case using s by (intro exI [of _ "bp_push ch' s"]) (simp add: bp_push_def)
qed

end

interpretation ref_bp: bp_system ref_boost "channel_view ref_boost rc_items rc_size"
  unfolding bp_system_def by (rule ref_bc.is_bounded_channel)

lemma bp_system_of_boost:
  "boost_buffered_channel bc items ring_size \<Longrightarrow> bp_system bc (channel_view bc items ring_size)"
  unfolding bp_system_def by (rule boost_buffered_channel.is_bounded_channel)

subsection \<open>The example works\<close>

text \<open>
  C19. Producer and consumer over a channel. In every interleaving over any Boost channel with
  the documented behaviour, the example takes at most 38 steps and can go on until both
  fibers have returned; items are consumed in the order produced, none lost or duplicated,
  all twelve at the end. The channel of capacity 4 holds up to 7 items, and all 7 can be
  produced before the consumer takes any.
\<close>
theorem backpressure_delivers:
  assumes "boost_buffered_channel bc items ring_size" and "channel_new bc bp_capacity = Ret ch"
    and "(bp_step bc ^^ k) (bp_start ch) s"
  shows "k \<le> 38 \<and> ((\<nexists>s'. bp_step bc s s') \<longleftrightarrow> bp_finished s) \<and> length (items (bp_ch s)) \<le> 7
    \<and> bp_consumed s @ bp_hand s @ items (bp_ch s) = bp_produced s
    \<and> (bp_finished s \<longrightarrow> bp_consumed s = [0..11])
    \<and> (\<exists>s7. (bp_step bc ^^ 7) (bp_start ch) s7 \<and> bp_consumer s7 = Cn_pop \<and> bp_consumed s7 = [] \<and> bp_produced s7 = [0..6])"
proof -
  let ?v = "channel_view bc items ring_size"
  have sys: "bp_system bc ?v" by (rule bp_system_of_boost [OF assms(1)])
  have "bit_ceil (Suc bp_capacity) = 8" using bit_ceil_Suc_power [of 2] by (simp add: bp_capacity_def)
  moreover have "1 \<le> bp_capacity" "bp_capacity < 2 ^ 63" by (simp_all add: bp_capacity_def)
  ultimately have new: "?v ch = \<lparr>f_items = [], f_limit = 7, f_closed = False\<rparr>"
    using boost_buffered_channel.new_channel [OF assms(1), of bp_capacity] assms(2) by fastforce
  note run = bp_system.bp_run [OF sys new zero_less_numeral]
  have inv: "bp_inv ?v 7 s" by (rule run(1) [OF assms(3)])
  obtain s7 where s7: "(bp_step bc ^^ 7) (bp_start ch) s7" "bp_i s7 = 7" "bp_consumer s7 = Cn_pop" "bp_consumed s7 = []"
    using bp_system.bp_fill [OF sys new, of 7] by (auto simp: k_items_def)
  moreover have "bp_produced s7 = [0..6]" using run(1) [OF s7(1)] s7(2) by (simp add: bp_inv_def)
  moreover have "bp_finished s \<longrightarrow> bp_consumed s = [0..11]"
    using inv by (auto simp: bp_finished_def bp_inv_def bp_hand_def k_items_def)
  ultimately show ?thesis using inv run(2,3) [OF assms(3)] by (auto simp: bp_inv_def channel_view_def)
qed

theorem backpressure_delivers_witness:
  "\<exists>s7. (bp_step ref_boost ^^ 7) (bp_start \<lparr>rc_items = [], rc_size = 8, rc_closed = False\<rparr>) s7 \<and> bp_produced s7 = [0..6]"
proof -
  have "bit_ceil 5 = 8" using bit_ceil_Suc_power [of 2] by simp
  moreover have "is_pow2 8" using bit_ceil_power [of 3] by (simp add: is_pow2_def)
  ultimately have "channel_new ref_boost bp_capacity = Ret \<lparr>rc_items = [], rc_size = 8, rc_closed = False\<rparr>"
    by (simp add: channel_new_def bp_capacity_def size_add_def size_t_mod_def ref_boost_def Let_def)
  from backpressure_delivers [OF ref_bc.boost_buffered_channel_axioms this, of 0] show ?thesis by auto
qed

end
