(* ===== verification/Echo_Pool.thy ===== *)
theory Echo_Pool
  imports Channel Runs "HOL-Library.Sublist"
begin

text \<open>
  \<open>examples/echo_server_pool.cpp\<close>: an accept loop, four workers and eight clients, decoupled by a
  channel of accepted descriptors. The fibers run on any workers of the pool, so every call
  that can suspend is a step, enabled when the call returns.

  The kernel's sockets are the environment: a listening queue, and for each connection the
  bytes on their way in either direction. A stream socket takes and gives a non-empty part of
  what there is, of any length; a read sees the end or a reset only after the peer closed, a
  write fails only then; a listening socket that was shut down accepts nothing more. The
  server's descriptor of a connection is named by the number of its client.
\<close>

subsection \<open>State\<close>

definition k_workers :: nat where "k_workers = 4"
definition k_clients :: nat where "k_clients = 8"
definition ep_capacity :: nat where "ep_capacity = 8"
definition ep_buf_size :: nat where "ep_buf_size = 256"

fun to_string :: "nat \<Rightarrow> string" where
  "to_string n = (if n < 10 then [char_of (48 + n)] else to_string (n div 10) @ [char_of (48 + n mod 10)])"

declare to_string.simps [simp del]

definition greeting :: "nat \<Rightarrow> string" where
  "greeting i = ''hello from client '' @ to_string i"

datatype echo_client = Cl_connect | Cl_send | Cl_recv | Cl_close | Cl_count | Cl_shutdown | Cl_returned

datatype accept_loop = Ac_accept | Ac_push nat | Ac_refused nat | Ac_break | Ac_returned

datatype echo_worker = Wk_pop | Wk_recv nat | Wk_send nat | Wk_close nat | Wk_returned

text \<open>
  \<open>handler_buf\<close> are the bytes \<open>handle_connection\<close> has received and not yet sent; \<open>reply\<close> is what the
  client printed.
\<close>

record conn =
  to_server :: string
  to_client :: string
  handler_buf :: string
  client_closed :: bool
  reply :: "string option"

record 'c echo_pool =
  ep_ch :: 'c
  ep_backlog :: "nat list"
  ep_shut :: bool
  ep_done :: nat
  ep_client :: "nat \<Rightarrow> echo_client"
  ep_conn :: "nat \<Rightarrow> conn"
  ep_acceptor :: accept_loop
  ep_worker :: "nat \<Rightarrow> echo_worker"
  ep_closed :: "nat list"

definition no_conn :: conn where
  "no_conn = \<lparr>to_server = [], to_client = [], handler_buf = [], client_closed = False, reply = None\<rparr>"

definition ep_start :: "'c \<Rightarrow> 'c echo_pool" where
  "ep_start ch = \<lparr>ep_ch = ch, ep_backlog = [], ep_shut = False, ep_done = 0, ep_client = (\<lambda>_. Cl_connect), ep_conn = (\<lambda>_. no_conn),
     ep_acceptor = Ac_accept, ep_worker = (\<lambda>_. Wk_pop), ep_closed = []\<rparr>"

definition set_client :: "nat \<Rightarrow> echo_client \<Rightarrow> 'c echo_pool \<Rightarrow> 'c echo_pool" where
  "set_client i ph s = s\<lparr>ep_client := (ep_client s)(i := ph)\<rparr>"

definition set_wk :: "nat \<Rightarrow> echo_worker \<Rightarrow> 'c echo_pool \<Rightarrow> 'c echo_pool" where
  "set_wk w ph s = s\<lparr>ep_worker := (ep_worker s)(w := ph)\<rparr>"

definition set_conn :: "nat \<Rightarrow> conn \<Rightarrow> 'c echo_pool \<Rightarrow> 'c echo_pool" where
  "set_conn i c s = s\<lparr>ep_conn := (ep_conn s)(i := c)\<rparr>"

subsection \<open>The clients\<close>

definition client_connect :: "nat \<Rightarrow> 'c echo_pool \<Rightarrow> 'c echo_pool" where
  "client_connect i s = (set_client i Cl_send s)\<lparr>ep_backlog := ep_backlog s @ [i]\<rparr>"

text \<open>\<open>n\<close> bytes were taken by the socket.\<close>

definition client_send :: "nat \<Rightarrow> nat \<Rightarrow> 'c echo_pool \<Rightarrow> 'c echo_pool" where
  "client_send i n s = (let c = ep_conn s i in
     set_client i Cl_recv (set_conn i (c\<lparr>to_server := to_server c @ take n (greeting i)\<rparr>) s))"

definition client_recv :: "nat \<Rightarrow> nat \<Rightarrow> 'c echo_pool \<Rightarrow> 'c echo_pool" where
  "client_recv i n s = (let c = ep_conn s i in
     set_client i Cl_close (set_conn i (c\<lparr>reply := Some (take n (to_client c)), to_client := drop n (to_client c)\<rparr>) s))"

definition client_close :: "nat \<Rightarrow> 'c echo_pool \<Rightarrow> 'c echo_pool" where
  "client_close i s = set_client i Cl_count (set_conn i ((ep_conn s i)\<lparr>client_closed := True\<rparr>) s)"

definition client_count :: "nat \<Rightarrow> 'c echo_pool \<Rightarrow> 'c echo_pool" where
  "client_count i s = (set_client i (if ep_done s = k_clients - 1 then Cl_shutdown else Cl_returned) s)\<lparr>ep_done := ep_done s + 1\<rparr>"

definition client_shutdown :: "nat \<Rightarrow> 'c echo_pool \<Rightarrow> 'c echo_pool" where
  "client_shutdown i s = (set_client i Cl_returned s)\<lparr>ep_shut := True\<rparr>"

subsection \<open>The accept loop\<close>

definition accept_conn :: "'c echo_pool \<Rightarrow> 'c echo_pool" where
  "accept_conn s = s\<lparr>ep_acceptor := Ac_push (hd (ep_backlog s)), ep_backlog := tl (ep_backlog s)\<rparr>"

text \<open>\<open>async_accept\<close> throws, and the loop is left.\<close>

definition accept_throws :: "'c echo_pool \<Rightarrow> 'c echo_pool" where
  "accept_throws s = s\<lparr>ep_acceptor := Ac_break\<rparr>"

definition accept_push :: "nat \<Rightarrow> channel_op_status \<Rightarrow> 'c \<Rightarrow> 'c echo_pool \<Rightarrow> 'c echo_pool" where
  "accept_push i st ch' s = s\<lparr>ep_ch := ch', ep_acceptor := (if st = Ch_success then Ac_accept else Ac_refused i)\<rparr>"

definition accept_refused :: "nat \<Rightarrow> 'c echo_pool \<Rightarrow> 'c echo_pool" where
  "accept_refused i s = s\<lparr>ep_closed := ep_closed s @ [i], ep_acceptor := Ac_break\<rparr>"

definition accept_end :: "('c, int) boost_channel \<Rightarrow> 'c echo_pool \<Rightarrow> 'c echo_pool" where
  "accept_end bc s = s\<lparr>ep_ch := channel_close bc (ep_ch s), ep_acceptor := Ac_returned\<rparr>"

subsection \<open>The workers\<close>

definition worker_pop :: "nat \<Rightarrow> channel_op_status \<Rightarrow> int option \<Rightarrow> 'c \<Rightarrow> 'c echo_pool \<Rightarrow> 'c echo_pool" where
  "worker_pop w st v ch' s = (set_wk w (if st = Ch_success then Wk_recv (nat (case v of Some fd \<Rightarrow> fd | None \<Rightarrow> 0)) else Wk_returned) s)
     \<lparr>ep_ch := ch'\<rparr>"

text \<open>\<open>handle_connection\<close>: a received part, its echo, and the two ways out of the loop.\<close>

definition worker_recv :: "nat \<Rightarrow> nat \<Rightarrow> nat \<Rightarrow> 'c echo_pool \<Rightarrow> 'c echo_pool" where
  "worker_recv w i n s = (let c = ep_conn s i in
     set_wk w (Wk_send i) (set_conn i (c\<lparr>handler_buf := take n (to_server c), to_server := drop n (to_server c)\<rparr>) s))"

definition worker_send :: "nat \<Rightarrow> nat \<Rightarrow> nat \<Rightarrow> 'c echo_pool \<Rightarrow> 'c echo_pool" where
  "worker_send w i n s = (let c = ep_conn s i in
     set_wk w (Wk_recv i) (set_conn i (c\<lparr>to_client := to_client c @ take n (handler_buf c), handler_buf := []\<rparr>) s))"

definition worker_leave :: "nat \<Rightarrow> nat \<Rightarrow> 'c echo_pool \<Rightarrow> 'c echo_pool" where
  "worker_leave w i s = set_wk w (Wk_close i) s"

definition worker_close :: "nat \<Rightarrow> nat \<Rightarrow> 'c echo_pool \<Rightarrow> 'c echo_pool" where
  "worker_close w i s = (set_wk w Wk_pop s)\<lparr>ep_closed := ep_closed s @ [i]\<rparr>"

lemmas ep_ops = client_connect_def client_send_def client_recv_def client_close_def client_count_def client_shutdown_def
  accept_conn_def accept_throws_def accept_push_def accept_refused_def accept_end_def worker_pop_def worker_recv_def
  worker_send_def worker_leave_def worker_close_def set_client_def set_wk_def set_conn_def Let_def

inductive ep_step :: "('c, int) boost_channel \<Rightarrow> 'c echo_pool \<Rightarrow> 'c echo_pool \<Rightarrow> bool" for bc :: "('c, int) boost_channel" where
  es_connect: "i < k_clients \<Longrightarrow> ep_client s i = Cl_connect \<Longrightarrow> \<not> ep_shut s \<Longrightarrow> ep_step bc s (client_connect i s)"
| es_send: "i < k_clients \<Longrightarrow> ep_client s i = Cl_send \<Longrightarrow> i \<notin> set (ep_closed s) \<Longrightarrow> 0 < n \<Longrightarrow> n \<le> length (greeting i) \<Longrightarrow>
     ep_step bc s (client_send i n s)"
| es_recv: "i < k_clients \<Longrightarrow> ep_client s i = Cl_recv \<Longrightarrow> 0 < n \<Longrightarrow> n \<le> length (to_client (ep_conn s i)) \<Longrightarrow> n \<le> ep_buf_size \<Longrightarrow>
     ep_step bc s (client_recv i n s)"
| es_recv_end: "i < k_clients \<Longrightarrow> ep_client s i = Cl_recv \<Longrightarrow> i \<in> set (ep_closed s) \<Longrightarrow> to_client (ep_conn s i) = [] \<Longrightarrow>
     ep_step bc s (client_recv i 0 s)"
| es_close: "i < k_clients \<Longrightarrow> ep_client s i = Cl_close \<Longrightarrow> ep_step bc s (client_close i s)"
| es_count: "i < k_clients \<Longrightarrow> ep_client s i = Cl_count \<Longrightarrow> ep_step bc s (client_count i s)"
| es_shutdown: "i < k_clients \<Longrightarrow> ep_client s i = Cl_shutdown \<Longrightarrow> ep_step bc s (client_shutdown i s)"
| es_accept: "ep_acceptor s = Ac_accept \<Longrightarrow> ep_backlog s \<noteq> [] \<Longrightarrow> \<not> ep_shut s \<Longrightarrow> ep_step bc s (accept_conn s)"
| es_accept_throws: "ep_acceptor s = Ac_accept \<Longrightarrow> ep_shut s \<Longrightarrow> ep_step bc s (accept_throws s)"
| es_push: "ep_acceptor s = Ac_push i \<Longrightarrow> channel_push bc (ep_ch s) (int i) = Ret (st, ch') \<Longrightarrow> ep_step bc s (accept_push i st ch' s)"
| es_refused: "ep_acceptor s = Ac_refused i \<Longrightarrow> ep_step bc s (accept_refused i s)"
| es_end: "ep_acceptor s = Ac_break \<Longrightarrow> ep_step bc s (accept_end bc s)"
| es_pop: "w < k_workers \<Longrightarrow> ep_worker s w = Wk_pop \<Longrightarrow> channel_pop bc (ep_ch s) = Ret (st, v, ch') \<Longrightarrow>
     ep_step bc s (worker_pop w st v ch' s)"
| es_wrecv: "w < k_workers \<Longrightarrow> ep_worker s w = Wk_recv i \<Longrightarrow> 0 < n \<Longrightarrow> n \<le> length (to_server (ep_conn s i)) \<Longrightarrow> n \<le> ep_buf_size \<Longrightarrow>
     ep_step bc s (worker_recv w i n s)"
| es_wend: "w < k_workers \<Longrightarrow> ep_worker s w = Wk_recv i \<Longrightarrow> client_closed (ep_conn s i) \<Longrightarrow> ep_step bc s (worker_leave w i s)"
| es_wsend: "w < k_workers \<Longrightarrow> ep_worker s w = Wk_send i \<Longrightarrow> 0 < n \<Longrightarrow> n \<le> length (handler_buf (ep_conn s i)) \<Longrightarrow>
     ep_step bc s (worker_send w i n s)"
| es_wfail: "w < k_workers \<Longrightarrow> ep_worker s w = Wk_send i \<Longrightarrow> client_closed (ep_conn s i) \<Longrightarrow> ep_step bc s (worker_leave w i s)"
| es_wclose: "w < k_workers \<Longrightarrow> ep_worker s w = Wk_close i \<Longrightarrow> ep_step bc s (worker_close w i s)"

definition ep_finished :: "'c echo_pool \<Rightarrow> bool" where
  "ep_finished s \<longleftrightarrow> (\<forall>i < k_clients. ep_client s i = Cl_returned) \<and> ep_acceptor s = Ac_returned \<and> (\<forall>w < k_workers. ep_worker s w = Wk_returned)"

subsection \<open>Invariant\<close>

text \<open>Where the connection of a client is.\<close>

datatype place = Nowhere | In_backlog | In_hand | In_queue | At_worker nat | Is_closed

fun acc_hand :: "accept_loop \<Rightarrow> nat option" where
  "acc_hand (Ac_push i) = Some i" | "acc_hand (Ac_refused i) = Some i" | "acc_hand _ = None"

fun wk_hand :: "echo_worker \<Rightarrow> nat option" where
  "wk_hand (Wk_recv i) = Some i" | "wk_hand (Wk_send i) = Some i" | "wk_hand (Wk_close i) = Some i" | "wk_hand _ = None"

definition placed :: "('c \<Rightarrow> int fifo) \<Rightarrow> (nat \<Rightarrow> place) \<Rightarrow> 'c echo_pool \<Rightarrow> bool" where
  "placed view loc s \<longleftrightarrow> distinct (ep_backlog s) \<and> distinct (f_items (view (ep_ch s))) \<and> distinct (ep_closed s)
     \<and> set (ep_backlog s) = {i. loc i = In_backlog} \<and> set (f_items (view (ep_ch s))) = int ` {i. loc i = In_queue}
     \<and> set (ep_closed s) = {i. loc i = Is_closed} \<and> (\<forall>i. loc i = In_hand \<longleftrightarrow> acc_hand (ep_acceptor s) = Some i)
     \<and> (\<forall>i w. loc i = At_worker w \<longleftrightarrow> w < k_workers \<and> wk_hand (ep_worker s w) = Some i)
     \<and> (\<forall>i. loc i = Nowhere \<longleftrightarrow> \<not> i < k_clients \<or> ep_client s i = Cl_connect)"

text \<open>
  What is known of a connection from the phase of its client and its place. What the client
  has and what is on its way back is a part of its greeting; while the client waits for the
  echo, some of it is under way; a connection no worker has taken has not been echoed.
\<close>

definition conn_ok :: "nat \<Rightarrow> echo_client \<Rightarrow> place \<Rightarrow> (nat \<Rightarrow> echo_worker) \<Rightarrow> conn \<Rightarrow> bool" where
  "conn_ok i ph p ws c \<longleftrightarrow>
     subseq ((case reply c of None \<Rightarrow> [] | Some r \<Rightarrow> r) @ to_client c @ handler_buf c @ to_server c) (greeting i)
     \<and> (ph = Cl_connect \<or> ph = Cl_send \<longrightarrow> c = no_conn)
     \<and> (ph = Cl_recv \<longrightarrow> reply c = None \<and> (to_server c \<noteq> [] \<or> handler_buf c \<noteq> [] \<or> to_client c \<noteq> []))
     \<and> (client_closed c \<longleftrightarrow> ph = Cl_count \<or> ph = Cl_shutdown \<or> ph = Cl_returned)
     \<and> (ph = Cl_close \<or> client_closed c \<longrightarrow> reply c \<noteq> None \<and> reply c \<noteq> Some [])
     \<and> (p = In_backlog \<or> p = In_hand \<or> p = In_queue \<longrightarrow> to_client c = [] \<and> handler_buf c = [] \<and> (ph = Cl_send \<or> ph = Cl_recv))
     \<and> (p = Is_closed \<longrightarrow> client_closed c)
     \<and> (\<forall>w. p = At_worker w \<longrightarrow> (ws w = Wk_recv i \<longrightarrow> handler_buf c = []) \<and> (ws w = Wk_send i \<longrightarrow> handler_buf c \<noteq> [])
          \<and> (ws w = Wk_close i \<longrightarrow> client_closed c))"

definition conns_ok :: "(nat \<Rightarrow> place) \<Rightarrow> 'c echo_pool \<Rightarrow> bool" where
  "conns_ok loc s \<longleftrightarrow> (\<forall>i < k_clients. conn_ok i (ep_client s i) (loc i) (ep_worker s) (ep_conn s i))"

definition counted :: "echo_client \<Rightarrow> bool" where
  "counted ph \<longleftrightarrow> ph = Cl_shutdown \<or> ph = Cl_returned"

definition count_ok :: "'c echo_pool \<Rightarrow> bool" where
  "count_ok s \<longleftrightarrow> ep_done s = card {i. i < k_clients \<and> counted (ep_client s i)}
     \<and> (ep_shut s \<longrightarrow> ep_done s = k_clients) \<and> (\<forall>i < k_clients. ep_client s i = Cl_shutdown \<longrightarrow> ep_done s = k_clients)
     \<and> (ep_done s = k_clients \<longrightarrow> ep_shut s \<or> (\<exists>i < k_clients. ep_client s i = Cl_shutdown))"

definition queue_ok :: "('c \<Rightarrow> int fifo) \<Rightarrow> nat \<Rightarrow> 'c echo_pool \<Rightarrow> bool" where
  "queue_ok view lim s \<longleftrightarrow> f_limit (view (ep_ch s)) = lim \<and> 0 < lim
     \<and> (f_closed (view (ep_ch s)) \<longleftrightarrow> ep_acceptor s = Ac_returned) \<and> (\<forall>i. ep_acceptor s \<noteq> Ac_refused i)
     \<and> (ep_acceptor s = Ac_break \<or> ep_acceptor s = Ac_returned \<longrightarrow> ep_shut s)
     \<and> (\<forall>w < k_workers. ep_worker s w = Wk_returned \<longrightarrow> f_closed (view (ep_ch s)) \<and> f_items (view (ep_ch s)) = [])"

definition ep_inv :: "('c \<Rightarrow> int fifo) \<Rightarrow> nat \<Rightarrow> 'c echo_pool \<Rightarrow> bool" where
  "ep_inv view lim s \<longleftrightarrow> (\<exists>loc. placed view loc s \<and> conns_ok loc s) \<and> count_ok s \<and> queue_ok view lim s"

lemma ep_invI: "placed view loc s \<Longrightarrow> conns_ok loc s \<Longrightarrow> count_ok s \<Longrightarrow> queue_ok view lim s \<Longrightarrow> ep_inv view lim s"
  by (auto simp: ep_inv_def)

text \<open>Counting the clients that are done.\<close>

lemma count_change:
  assumes "i < k_clients" and "\<not> counted (f i)"
  shows "card {j. j < k_clients \<and> counted ((f(i := ph)) j)} = card {j. j < k_clients \<and> counted (f j)} + of_bool (counted ph)"
proof (cases "counted ph")
  case True
  then have "{j. j < k_clients \<and> counted ((f(i := ph)) j)} = insert i {j. j < k_clients \<and> counted (f j)}"
    using assms(1) by auto
  then show ?thesis using True assms(2) by simp
next
  case False
  then have "{j. j < k_clients \<and> counted ((f(i := ph)) j)} = {j. j < k_clients \<and> counted (f j)}"
    using assms(2) by auto
  then show ?thesis using False by simp
qed

lemma count_below:
  assumes "count_ok s" and "i < k_clients" and "\<not> counted (ep_client s i)"
  shows "ep_done s < k_clients"
proof -
  have "{j. j < k_clients \<and> counted (ep_client s j)} \<subset> {..<k_clients}" using assms(2,3) by auto
  from psubset_card_mono [OF _ this] show ?thesis using assms(1) by (simp add: count_ok_def)
qed

lemma subseq_drop_middle: "subseq (a @ b @ c) d \<Longrightarrow> subseq b' b \<Longrightarrow> subseq (a @ b' @ c) d"
  by (meson list_emb_append_mono subseq_order.order_refl subseq_order.order_trans)

lemma conn_ok_other: "conn_ok i ph p ws c \<Longrightarrow> p \<noteq> At_worker w \<Longrightarrow> conn_ok i ph p (ws(w := x)) c"
  by (auto simp: conn_ok_def)

text \<open>A step concerns one connection and at most one worker.\<close>

lemma conns_update:
  assumes "conns_ok loc s" and "\<And>j. j \<noteq> i \<Longrightarrow> ep_client s' j = ep_client s j \<and> ep_conn s' j = ep_conn s j \<and> loc' j = loc j"
    and "\<And>j. j \<noteq> i \<Longrightarrow> j < k_clients \<Longrightarrow> loc j \<noteq> At_worker w" and "ep_worker s' = (ep_worker s)(w := x)"
    and "i < k_clients \<Longrightarrow> conn_ok i (ep_client s' i) (loc' i) (ep_worker s') (ep_conn s' i)"
  shows "conns_ok loc' s'"
  unfolding conns_ok_def
proof (intro allI impI)
  fix j
  assume j: "j < k_clients"
  show "conn_ok j (ep_client s' j) (loc' j) (ep_worker s') (ep_conn s' j)"
  proof (cases "j = i")
    case True
    then show ?thesis using assms(5) j by simp
  next
    case False
    then show ?thesis using conn_ok_other [of j "ep_client s j" "loc j" "ep_worker s" "ep_conn s j" w x] assms(1-4) j
      by (simp add: conns_ok_def)
  qed
qed

lemma conns_client:
  assumes "conns_ok loc s" and "\<And>j. j \<noteq> i \<Longrightarrow> ep_client s' j = ep_client s j \<and> ep_conn s' j = ep_conn s j \<and> loc' j = loc j"
    and "ep_worker s' = ep_worker s" and "i < k_clients \<Longrightarrow> conn_ok i (ep_client s' i) (loc' i) (ep_worker s') (ep_conn s' i)"
  shows "conns_ok loc' s'"
  using assms by (auto simp: conns_ok_def) metis

lemma conns_same:
  "conns_ok loc s \<Longrightarrow> ep_client s' = ep_client s \<Longrightarrow> ep_conn s' = ep_conn s \<Longrightarrow> ep_worker s' = ep_worker s \<Longrightarrow> conns_ok loc s'"
  by (simp add: conns_ok_def)

lemma placed_worker:
  assumes "placed view loc s" and "w < k_workers" and "wk_hand (ep_worker s w) = Some i"
  shows "loc i = At_worker w" "i < k_clients" "\<And>j. j \<noteq> i \<Longrightarrow> loc j \<noteq> At_worker w"
proof -
  show l: "loc i = At_worker w" using assms by (simp add: placed_def)
  have "loc i = Nowhere \<longleftrightarrow> \<not> i < k_clients \<or> ep_client s i = Cl_connect" using assms(1) by (simp add: placed_def)
  then show "i < k_clients" using l by simp
  show "loc j \<noteq> At_worker w" if "j \<noteq> i" for j
  proof
    assume "loc j = At_worker w"
    then have "wk_hand (ep_worker s w) = Some j" using assms(1) by (simp add: placed_def)
    then show False using assms(3) that by simp
  qed
qed

lemma placed_client: "placed view loc s \<Longrightarrow> loc i \<noteq> Nowhere \<Longrightarrow> i < k_clients \<and> ep_client s i \<noteq> Cl_connect"
  by (auto simp: placed_def)

lemma placed_same:
  "placed view loc s \<Longrightarrow> ep_backlog s' = ep_backlog s \<Longrightarrow> view (ep_ch s') = view (ep_ch s) \<Longrightarrow> ep_closed s' = ep_closed s \<Longrightarrow>
   acc_hand (ep_acceptor s') = acc_hand (ep_acceptor s) \<Longrightarrow> (\<And>w. wk_hand (ep_worker s' w) = wk_hand (ep_worker s w)) \<Longrightarrow>
   (\<And>i. ep_client s' i = Cl_connect \<longleftrightarrow> ep_client s i = Cl_connect) \<Longrightarrow> placed view loc s'"
  by (simp add: placed_def)

lemma placed_elsewhere:
  assumes "placed view loc s"
  shows "loc i \<noteq> In_hand \<Longrightarrow> acc_hand (ep_acceptor s) \<noteq> Some i"
    and "loc i \<noteq> At_worker w \<Longrightarrow> w < k_workers \<Longrightarrow> wk_hand (ep_worker s w) \<noteq> Some i"
  using assms by (simp_all add: placed_def)

lemma queue_same:
  "queue_ok view lim s \<Longrightarrow> ep_ch s' = ep_ch s \<Longrightarrow> ep_acceptor s' = ep_acceptor s \<Longrightarrow> (ep_shut s \<Longrightarrow> ep_shut s') \<Longrightarrow>
   (\<And>w. w < k_workers \<Longrightarrow> ep_worker s' w = Wk_returned \<Longrightarrow> ep_worker s w = Wk_returned) \<Longrightarrow> queue_ok view lim s'"
  unfolding queue_ok_def by metis

subsubsection \<open>Clients\<close>

lemma ep_connect_inv:
  assumes "ep_inv view lim s" and "i < k_clients" and "ep_client s i = Cl_connect" and "\<not> ep_shut s"
  shows "ep_inv view lim (client_connect i s)"
proof -
  from assms(1) obtain loc where p: "placed view loc s" and c: "conns_ok loc s" and n: "count_ok s" and q: "queue_ok view lim s"
    by (auto simp: ep_inv_def)
  have nc: "\<not> counted (ep_client s i)" using assms(3) by (simp add: counted_def)
  have "loc i = Nowhere" using p assms(3) by (auto simp: placed_def)
  then have "placed view (loc(i := In_backlog)) (client_connect i s)"
    using p assms(2,3) placed_elsewhere [OF p, of i] by (auto simp: placed_def ep_ops)
  moreover have "conns_ok (loc(i := In_backlog)) (client_connect i s)"
  proof (rule conns_client [OF c, where i = i])
    have "conn_ok i Cl_connect (loc i) (ep_worker s) (ep_conn s i)" using c assms(2,3) by (metis conns_ok_def)
    then show "conn_ok i (ep_client (client_connect i s) i) ((loc(i := In_backlog)) i) (ep_worker (client_connect i s)) (ep_conn (client_connect i s) i)"
      by (simp add: conn_ok_def ep_ops no_conn_def)
  qed (simp_all add: ep_ops)
  moreover have "count_ok (client_connect i s)"
    using n count_below [OF n assms(2) nc] count_change [of i "ep_client s" Cl_send, OF assms(2) nc] assms(2)
    by (auto simp: count_ok_def ep_ops counted_def)
  moreover have "queue_ok view lim (client_connect i s)" by (rule queue_same [OF q]) (simp_all add: ep_ops)
  ultimately show ?thesis by (rule ep_invI)
qed

text \<open>A client that moves on before it has counted itself.\<close>

lemma client_moves:
  assumes "ep_inv view lim s" and "i < k_clients" and "\<not> counted (ep_client s i)" and "ep_client s i \<noteq> Cl_connect"
    and "s' = set_client i ph (set_conn i c s)" and "\<not> counted ph" and "ph \<noteq> Cl_connect"
    and "\<And>p. conn_ok i (ep_client s i) p (ep_worker s) (ep_conn s i) \<Longrightarrow> (p = Is_closed \<longleftrightarrow> i \<in> set (ep_closed s)) \<Longrightarrow> conn_ok i ph p (ep_worker s) c"
  shows "ep_inv view lim s'"
proof -
  from assms(1) obtain loc where p: "placed view loc s" and co: "conns_ok loc s" and n: "count_ok s" and q: "queue_ok view lim s"
    by (auto simp: ep_inv_def)
  have "placed view loc s'" by (rule placed_same [OF p]) (auto simp: assms(4,5,7) set_client_def set_conn_def)
  moreover have "conns_ok loc s'"
  proof (rule conns_client [OF co, where i = i])
    have "loc i = Is_closed \<longleftrightarrow> i \<in> set (ep_closed s)" using p by (auto simp: placed_def)
    moreover have "conn_ok i (ep_client s i) (loc i) (ep_worker s) (ep_conn s i)" using co assms(2) by (simp add: conns_ok_def)
    ultimately show "conn_ok i (ep_client s' i) (loc i) (ep_worker s') (ep_conn s' i)"
      using assms(8) by (simp add: assms(5) set_client_def set_conn_def)
  qed (simp_all add: assms(5) set_client_def set_conn_def)
  moreover have "count_ok s'"
    using n count_below [OF n assms(2,3)] count_change [of i "ep_client s" ph, OF assms(2,3)] assms(2,3,6)
    by (auto simp: count_ok_def assms(5) set_client_def set_conn_def counted_def)
  moreover have "queue_ok view lim s'" by (rule queue_same [OF q]) (simp_all add: assms(5) set_client_def set_conn_def)
  ultimately show ?thesis by (rule ep_invI)
qed

lemma ep_send_inv:
  assumes "ep_inv view lim s" and "i < k_clients" and "ep_client s i = Cl_send" and "0 < n"
  shows "ep_inv view lim (client_send i n s)"
proof (rule client_moves [OF assms(1,2)])
  have "greeting i \<noteq> []" by (simp add: greeting_def)
  then have t: "take n (greeting i) \<noteq> []" "subseq (take n (greeting i)) (greeting i)"
    using assms(4) by (simp_all add: prefix_imp_subseq take_is_prefix)
  show "conn_ok i Cl_recv p (ep_worker s) ((ep_conn s i)\<lparr>to_server := to_server (ep_conn s i) @ take n (greeting i)\<rparr>)"
    if "conn_ok i (ep_client s i) p (ep_worker s) (ep_conn s i)" for p
    using that assms(3) t by (auto simp: conn_ok_def no_conn_def)
qed (simp_all add: assms(3) counted_def client_send_def Let_def)

lemma ep_recv_inv:
  assumes "ep_inv view lim s" and "i < k_clients" and "ep_client s i = Cl_recv" and "0 < n" and "n \<le> length (to_client (ep_conn s i))"
  shows "ep_inv view lim (client_recv i n s)"
proof (rule client_moves [OF assms(1,2)])
  have t: "take n (to_client (ep_conn s i)) \<noteq> []" "to_client (ep_conn s i) \<noteq> []" using assms(4,5) by auto
  show "conn_ok i Cl_close p (ep_worker s) ((ep_conn s i)\<lparr>reply := Some (take n (to_client (ep_conn s i))),
      to_client := drop n (to_client (ep_conn s i))\<rparr>)"
    if "conn_ok i (ep_client s i) p (ep_worker s) (ep_conn s i)" for p
    using that assms(3) t append_take_drop_id [of n "to_client (ep_conn s i)"]
    by (auto simp: conn_ok_def simp flip: append_assoc)
qed (simp_all add: assms(3) counted_def client_recv_def Let_def)

lemma ep_recv_end_inv:
  assumes "ep_inv view lim s" and "i < k_clients" and "ep_client s i = Cl_recv" and "i \<in> set (ep_closed s)"
  shows "ep_inv view lim (client_recv i 0 s)"
  by (rule client_moves [OF assms(1,2)]) (use assms(3,4) in \<open>auto simp: counted_def client_recv_def Let_def conn_ok_def\<close>)

lemma ep_close_inv:
  assumes "ep_inv view lim s" and "i < k_clients" and "ep_client s i = Cl_close"
  shows "ep_inv view lim (client_close i s)"
  by (rule client_moves [OF assms(1,2)]) (use assms(3) in \<open>auto simp: counted_def client_close_def conn_ok_def\<close>)

text \<open>The last client to count itself finds all the others counted.\<close>

lemma ep_count_inv:
  assumes "ep_inv view lim s" and "i < k_clients" and "ep_client s i = Cl_count"
  shows "ep_inv view lim (client_count i s)"
proof -
  from assms(1) obtain loc where p: "placed view loc s" and c: "conns_ok loc s" and n: "count_ok s" and q: "queue_ok view lim s"
    by (auto simp: ep_inv_def)
  let ?ph = "if ep_done s = k_clients - 1 then Cl_shutdown else Cl_returned"
  have nc: "\<not> counted (ep_client s i)" using assms(3) by (simp add: counted_def)
  have "placed view loc (client_count i s)" by (rule placed_same [OF p]) (auto simp: ep_ops assms(3))
  moreover have "conns_ok loc (client_count i s)"
  proof (rule conns_client [OF c, where i = i])
    have "conn_ok i Cl_count (loc i) (ep_worker s) (ep_conn s i)" using c assms(2,3) by (metis conns_ok_def)
    then show "conn_ok i (ep_client (client_count i s) i) (loc i) (ep_worker (client_count i s)) (ep_conn (client_count i s) i)"
      by (auto simp: conn_ok_def ep_ops)
  qed (simp_all add: ep_ops)
  moreover have "count_ok (client_count i s)"
    using n count_below [OF n assms(2) nc] count_change [OF assms(2), of "ep_client s" ?ph, OF nc] assms(2)
    by (auto simp: count_ok_def ep_ops counted_def)
  moreover have "queue_ok view lim (client_count i s)" by (rule queue_same [OF q]) (simp_all add: ep_ops)
  ultimately show ?thesis by (rule ep_invI)
qed

lemma ep_shutdown_inv:
  assumes "ep_inv view lim s" and "i < k_clients" and "ep_client s i = Cl_shutdown"
  shows "ep_inv view lim (client_shutdown i s)"
proof -
  from assms(1) obtain loc where p: "placed view loc s" and c: "conns_ok loc s" and n: "count_ok s" and q: "queue_ok view lim s"
    by (auto simp: ep_inv_def)
  have "placed view loc (client_shutdown i s)" by (rule placed_same [OF p]) (auto simp: ep_ops assms(3))
  moreover have "conns_ok loc (client_shutdown i s)"
  proof (rule conns_client [OF c, where i = i])
    have "conn_ok i Cl_shutdown (loc i) (ep_worker s) (ep_conn s i)" using c assms(2,3) by (metis conns_ok_def)
    then show "conn_ok i (ep_client (client_shutdown i s) i) (loc i) (ep_worker (client_shutdown i s)) (ep_conn (client_shutdown i s) i)"
      by (auto simp: conn_ok_def ep_ops)
  qed (simp_all add: ep_ops)
  moreover have "{j. j < k_clients \<and> counted (((ep_client s)(i := Cl_returned)) j)} = {j. j < k_clients \<and> counted (ep_client s j)}"
    using assms(3) by (auto simp: counted_def)
  then have "count_ok (client_shutdown i s)" using n assms(2,3) by (auto simp: count_ok_def ep_ops)
  moreover have "queue_ok view lim (client_shutdown i s)" by (rule queue_same [OF q]) (simp_all add: ep_ops)
  ultimately show ?thesis by (rule ep_invI)
qed

subsubsection \<open>The accept loop\<close>

lemma count_same:
  "count_ok s \<Longrightarrow> ep_done s' = ep_done s \<Longrightarrow> ep_client s' = ep_client s \<Longrightarrow> ep_shut s' = ep_shut s \<Longrightarrow> count_ok s'"
  unfolding count_ok_def by metis

text \<open>The connection in hand moves from one place to another that no worker has.\<close>

lemma conns_moved:
  assumes "conns_ok loc s" and "ep_client s' = ep_client s" and "ep_conn s' = ep_conn s" and "ep_worker s' = ep_worker s"
    and "loc i = In_backlog \<or> loc i = In_hand" and "p = In_hand \<or> p = In_queue"
  shows "conns_ok (loc(i := p)) s'"
proof (rule conns_client [OF assms(1), where i = i])
  assume "i < k_clients"
  then have "conn_ok i (ep_client s i) (loc i) (ep_worker s) (ep_conn s i)" using assms(1) by (simp add: conns_ok_def)
  then show "conn_ok i (ep_client s' i) ((loc(i := p)) i) (ep_worker s') (ep_conn s' i)"
    using assms(2-6) by (auto simp: conn_ok_def)
qed (simp_all add: assms(2-4))

lemma ep_accept_inv:
  assumes "ep_inv view lim s" and "ep_acceptor s = Ac_accept" and "ep_backlog s \<noteq> []"
  shows "ep_inv view lim (accept_conn s)"
proof -
  from assms(1) obtain loc where p: "placed view loc s" and c: "conns_ok loc s" and n: "count_ok s" and q: "queue_ok view lim s"
    by (auto simp: ep_inv_def)
  obtain i r where b: "ep_backlog s = i # r" using assms(3) by (cases "ep_backlog s") auto
  have l: "loc i = In_backlog" using p b by (auto simp: placed_def)
  have r: "set r = {j. loc j = In_backlog} - {i}" "distinct r" using p b by (auto simp: placed_def)
  have "placed view (loc(i := In_hand)) (accept_conn s)"
    using p l r b assms(2) placed_elsewhere [OF p, of i] placed_client [OF p, of i] by (auto simp: placed_def ep_ops)
  moreover have "conns_ok (loc(i := In_hand)) (accept_conn s)" by (rule conns_moved [OF c]) (simp_all add: ep_ops l)
  moreover have "count_ok (accept_conn s)" by (rule count_same [OF n]) (simp_all add: ep_ops)
  moreover have "queue_ok view lim (accept_conn s)" using q assms(2) by (auto simp: queue_ok_def ep_ops)
  ultimately show ?thesis by (rule ep_invI)
qed

lemma ep_accept_throws_inv:
  assumes "ep_inv view lim s" and "ep_acceptor s = Ac_accept" and "ep_shut s"
  shows "ep_inv view lim (accept_throws s)"
proof -
  from assms(1) obtain loc where p: "placed view loc s" and c: "conns_ok loc s" and n: "count_ok s" and q: "queue_ok view lim s"
    by (auto simp: ep_inv_def)
  have "placed view loc (accept_throws s)" by (rule placed_same [OF p]) (simp_all add: ep_ops assms(2))
  moreover have "conns_ok loc (accept_throws s)" by (rule conns_same [OF c]) (simp_all add: ep_ops)
  moreover have "count_ok (accept_throws s)" by (rule count_same [OF n]) (simp_all add: ep_ops)
  moreover have "queue_ok view lim (accept_throws s)" using q assms(2,3) by (auto simp: queue_ok_def ep_ops)
  ultimately show ?thesis by (rule ep_invI)
qed

locale ep_system =
  bounded_channel "channel_push bc" "channel_try_push bc" "channel_pop bc" "channel_close bc" view
  for bc :: "('c, int) boost_channel" and view :: "'c \<Rightarrow> int fifo"
begin

lemma ep_push_inv:
  assumes "ep_inv view lim s" and "ep_acceptor s = Ac_push i" and "channel_push bc (ep_ch s) (int i) = Ret (st, ch')"
  shows "ep_inv view lim (accept_push i st ch' s)"
proof -
  from assms(1) obtain loc where p: "placed view loc s" and c: "conns_ok loc s" and n: "count_ok s" and q: "queue_ok view lim s"
    by (auto simp: ep_inv_def)
  have "\<not> f_closed (view (ep_ch s))" using q assms(2) by (simp add: queue_ok_def)
  note pr = push_returned [OF assms(3) this]
  have l: "loc i = In_hand" using p assms(2) by (simp add: placed_def)
  then have l': "loc i \<noteq> In_queue" "loc i \<noteq> In_backlog" "loc i \<noteq> Is_closed" "\<And>w. loc i \<noteq> At_worker w" by simp_all
  have ci: "i < k_clients" "ep_client s i \<noteq> Cl_connect" using placed_client [OF p, of i] l by simp_all
  have "placed view (loc(i := In_queue)) (accept_push i st ch' s)"
    using p assms(2) l' pr placed_elsewhere(2) [OF p l'(4)] ci by (auto simp: placed_def ep_ops)
  moreover have "conns_ok (loc(i := In_queue)) (accept_push i st ch' s)" by (rule conns_moved [OF c]) (simp_all add: ep_ops l)
  moreover have "count_ok (accept_push i st ch' s)" by (rule count_same [OF n]) (simp_all add: ep_ops)
  moreover have "queue_ok view lim (accept_push i st ch' s)" using q assms(2) pr by (auto simp: queue_ok_def ep_ops)
  ultimately show ?thesis by (rule ep_invI)
qed

lemma ep_end_inv:
  assumes "ep_inv view lim s" and "ep_acceptor s = Ac_break"
  shows "ep_inv view lim (accept_end bc s)"
proof -
  from assms(1) obtain loc where p: "placed view loc s" and c: "conns_ok loc s" and n: "count_ok s" and q: "queue_ok view lim s"
    by (auto simp: ep_inv_def)
  have "placed view loc (accept_end bc s)" using p assms(2) by (simp add: placed_def ep_ops close_view)
  moreover have "conns_ok loc (accept_end bc s)" by (rule conns_same [OF c]) (simp_all add: ep_ops)
  moreover have "count_ok (accept_end bc s)" by (rule count_same [OF n]) (simp_all add: ep_ops)
  moreover have "queue_ok view lim (accept_end bc s)" using q assms(2) by (auto simp: queue_ok_def ep_ops close_view)
  ultimately show ?thesis by (rule ep_invI)
qed

lemma ep_pop_inv:
  assumes "ep_inv view lim s" and "w < k_workers" and "ep_worker s w = Wk_pop" and "channel_pop bc (ep_ch s) = Ret (st, v, ch')"
  shows "ep_inv view lim (worker_pop w st v ch' s)"
proof -
  from assms(1) obtain loc where p: "placed view loc s" and c: "conns_ok loc s" and n: "count_ok s" and q: "queue_ok view lim s"
    by (auto simp: ep_inv_def)
  have n': "count_ok (worker_pop w st v ch' s)" by (rule count_same [OF n]) (simp_all add: ep_ops)
  from pop_returned [OF assms(4)] show ?thesis
  proof (elim disjE exE conjE)
    assume cl: "f_items (view (ep_ch s)) = []" "f_closed (view (ep_ch s))" "st = Ch_closed" "v = None" "view ch' = view (ep_ch s)"
    have "placed view loc (worker_pop w st v ch' s)" by (rule placed_same [OF p]) (simp_all add: ep_ops cl assms(3))
    moreover have "conns_ok loc (worker_pop w st v ch' s)" using c assms(3) cl
      by (auto simp: conns_ok_def conn_ok_def ep_ops)
    moreover have "queue_ok view lim (worker_pop w st v ch' s)" using q cl by (auto simp: queue_ok_def ep_ops)
    ultimately show ?thesis using n' by (blast intro: ep_invI)
  next
    fix x xs
    assume it: "f_items (view (ep_ch s)) = x # xs" "st = Ch_success" "v = Some x" "view ch' = (view (ep_ch s))\<lparr>f_items := xs\<rparr>"
    have st: "set (x # xs) = int ` {j. loc j = In_queue}" "distinct (x # xs)" using p it(1) by (simp_all add: placed_def)
    then have "x \<in> int ` {j. loc j = In_queue}" by (metis list.set_intros(1))
    then obtain i where i: "x = int i" "loc i = In_queue" by auto
    have "set xs = int ` {j. loc j = In_queue} - {x}" using st by auto
    then have xs: "set xs = int ` ({j. loc j = In_queue} - {i})" "distinct xs"
      using st(2) i(1) by (simp_all add: image_set_diff [OF inj_of_nat])
    have ci: "i < k_clients" "ep_client s i \<noteq> Cl_connect" using placed_client [OF p, of i] i by simp_all
    have nw: "\<And>j. loc j \<noteq> At_worker w" using p assms(3) by (simp add: placed_def)
    have "placed view (loc(i := At_worker w)) (worker_pop w st v ch' s)"
    proof -
      have hands: "wk_hand (ep_worker (worker_pop w st v ch' s) u) = (if u = w then Some i else wk_hand (ep_worker s u))" for u
        by (simp add: ep_ops it i)
      have others: "ep_backlog (worker_pop w st v ch' s) = ep_backlog s" "ep_closed (worker_pop w st v ch' s) = ep_closed s"
        "ep_acceptor (worker_pop w st v ch' s) = ep_acceptor s" "ep_client (worker_pop w st v ch' s) = ep_client s"
        "f_items (view (ep_ch (worker_pop w st v ch' s))) = xs"
        by (simp_all add: ep_ops it)
      have at: "\<And>j u. loc j = At_worker u \<longleftrightarrow> u < k_workers \<and> wk_hand (ep_worker s u) = Some j" using p by (simp add: placed_def)
      have sets: "{j. (loc(i := At_worker w)) j = q} = {j. loc j = q} - {i}" if "q \<noteq> At_worker w" for q using that by auto
      have keep: "{j. loc j = q} - {i} = {j. loc j = q}" if "q \<noteq> In_queue" for q using i(2) that by auto
      have "(loc(i := At_worker w)) j = At_worker u \<longleftrightarrow> u < k_workers \<and> (if u = w then Some i else wk_hand (ep_worker s u)) = Some j" for j u
        using at [of j u] at [of i u] i(2) nw [of j] assms(2) by auto
      moreover have "(loc(i := At_worker w)) j = In_hand \<longleftrightarrow> loc j = In_hand" "(loc(i := At_worker w)) j = Nowhere \<longleftrightarrow> loc j = Nowhere" for j
        using i(2) by auto
      ultimately show ?thesis using p xs unfolding placed_def hands others
        by (simp add: sets keep del: fun_upd_apply)
    qed
    moreover have "conns_ok (loc(i := At_worker w)) (worker_pop w st v ch' s)"
    proof (rule conns_update [OF c, where i = i and w = w and x = "Wk_recv i"])
      have "conn_ok i (ep_client s i) In_queue (ep_worker s) (ep_conn s i)" using c ci i by (metis conns_ok_def)
      then show "conn_ok i (ep_client (worker_pop w st v ch' s) i) ((loc(i := At_worker w)) i) (ep_worker (worker_pop w st v ch' s))
          (ep_conn (worker_pop w st v ch' s) i)"
        by (auto simp: conn_ok_def ep_ops it i)
    qed (simp_all add: ep_ops nw it i)
    moreover have "queue_ok view lim (worker_pop w st v ch' s)" using q it by (auto simp: queue_ok_def ep_ops)
    ultimately show ?thesis using n' by (blast intro: ep_invI)
  qed
qed

end

subsubsection \<open>Handling a connection\<close>

text \<open>A worker that goes on with the connection it has.\<close>

lemma worker_moves:
  assumes "ep_inv view lim s" and "w < k_workers" and "wk_hand (ep_worker s w) = Some i" and "wk_hand x = Some i"
    and "s' = set_wk w x (set_conn i c s)"
    and "conn_ok i (ep_client s i) (At_worker w) (ep_worker s) (ep_conn s i) \<Longrightarrow> conn_ok i (ep_client s i) (At_worker w) ((ep_worker s)(w := x)) c"
  shows "ep_inv view lim s'"
proof -
  from assms(1) obtain loc where p: "placed view loc s" and co: "conns_ok loc s" and n: "count_ok s" and q: "queue_ok view lim s"
    by (auto simp: ep_inv_def)
  note l = placed_worker [OF p assms(2,3)]
  have "placed view loc s'" by (rule placed_same [OF p]) (auto simp: assms(3-5) set_wk_def set_conn_def)
  moreover have "conns_ok loc s'"
  proof (rule conns_update [OF co, where i = i and w = w and x = x])
    have "conn_ok i (ep_client s i) (At_worker w) (ep_worker s) (ep_conn s i)" using co l(1,2) by (metis conns_ok_def)
    from assms(6) [OF this] show "conn_ok i (ep_client s' i) (loc i) (ep_worker s') (ep_conn s' i)"
      by (simp add: assms(5) set_wk_def set_conn_def l(1))
  qed (simp_all add: assms(5) set_wk_def set_conn_def l(3))
  moreover have "count_ok s'" by (rule count_same [OF n]) (simp_all add: assms(5) set_wk_def set_conn_def)
  moreover have "queue_ok view lim s'" by (rule queue_same [OF q]) (use assms(4) in \<open>auto simp: assms(5) set_wk_def set_conn_def split: if_splits\<close>)
  ultimately show ?thesis by (rule ep_invI)
qed

lemma ep_wrecv_inv:
  assumes "ep_inv view lim s" and "w < k_workers" and "ep_worker s w = Wk_recv i" and "0 < n" and "n \<le> length (to_server (ep_conn s i))"
  shows "ep_inv view lim (worker_recv w i n s)"
proof (rule worker_moves [OF assms(1,2)])
  let ?c = "ep_conn s i"
  have t: "take n (to_server ?c) \<noteq> []" "take n (to_server ?c) @ drop n (to_server ?c) = to_server ?c" "to_server ?c \<noteq> []"
    using assms(4,5) by auto
  show "conn_ok i (ep_client s i) (At_worker w) ((ep_worker s)(w := Wk_send i)) (?c\<lparr>handler_buf := take n (to_server ?c), to_server := drop n (to_server ?c)\<rparr>)"
    if "conn_ok i (ep_client s i) (At_worker w) (ep_worker s) ?c"
    using that assms(3) t by (auto simp: conn_ok_def no_conn_def)
qed (simp_all add: assms(3) worker_recv_def Let_def)

lemma ep_wsend_inv:
  assumes "ep_inv view lim s" and "w < k_workers" and "ep_worker s w = Wk_send i" and "0 < n" and "n \<le> length (handler_buf (ep_conn s i))"
  shows "ep_inv view lim (worker_send w i n s)"
proof (rule worker_moves [OF assms(1,2)])
  let ?c = "ep_conn s i"
  have t: "take n (handler_buf ?c) \<noteq> []" "handler_buf ?c \<noteq> []" using assms(4,5) by auto
  have "subseq (take n (handler_buf ?c)) (handler_buf ?c)" by (simp add: prefix_imp_subseq take_is_prefix)
  from subseq_drop_middle [of "(case reply ?c of None \<Rightarrow> [] | Some r \<Rightarrow> r) @ to_client ?c" _ _ "greeting i", OF _ this]
  show "conn_ok i (ep_client s i) (At_worker w) ((ep_worker s)(w := Wk_recv i)) (?c\<lparr>to_client := to_client ?c @ take n (handler_buf ?c), handler_buf := []\<rparr>)"
    if "conn_ok i (ep_client s i) (At_worker w) (ep_worker s) ?c"
    using that assms(3) t by (auto simp: conn_ok_def no_conn_def)
qed (simp_all add: assms(3) worker_send_def Let_def)

lemma ep_leave_inv:
  assumes "ep_inv view lim s" and "w < k_workers" and "wk_hand (ep_worker s w) = Some i" and "client_closed (ep_conn s i)"
  shows "ep_inv view lim (worker_leave w i s)"
proof (rule worker_moves [OF assms(1-3)])
  show "worker_leave w i s = set_wk w (Wk_close i) (set_conn i (ep_conn s i) s)" by (simp add: ep_ops)
qed (use assms(4) in \<open>auto simp: conn_ok_def\<close>)

lemma ep_wclose_inv:
  assumes "ep_inv view lim s" and "w < k_workers" and "ep_worker s w = Wk_close i"
  shows "ep_inv view lim (worker_close w i s)"
proof -
  from assms(1) obtain loc where p: "placed view loc s" and c: "conns_ok loc s" and n: "count_ok s" and q: "queue_ok view lim s"
    by (auto simp: ep_inv_def)
  note l = placed_worker [OF p assms(2), of i, unfolded assms(3), OF wk_hand.simps(3)]
  have ci: "ep_client s i \<noteq> Cl_connect" using placed_client [OF p, of i] l(1) by simp
  have l': "loc i \<noteq> In_queue" "loc i \<noteq> In_backlog" "loc i \<noteq> Is_closed" "loc i \<noteq> In_hand" "\<And>w'. w' \<noteq> w \<Longrightarrow> loc i \<noteq> At_worker w'"
    using l(1) by simp_all
  have "placed view (loc(i := Is_closed)) (worker_close w i s)"
    using p ci l' l(2,3) assms(2,3) placed_elsewhere(1) [OF p l'(4)] placed_elsewhere(2) [OF p l'(5)]
    by (auto simp: placed_def ep_ops)
  moreover have "conns_ok (loc(i := Is_closed)) (worker_close w i s)"
  proof (rule conns_update [OF c, where i = i and w = w and x = Wk_pop])
    have "conn_ok i (ep_client s i) (At_worker w) (ep_worker s) (ep_conn s i)" using c l(1,2) by (metis conns_ok_def)
    then show "conn_ok i (ep_client (worker_close w i s) i) ((loc(i := Is_closed)) i) (ep_worker (worker_close w i s)) (ep_conn (worker_close w i s) i)"
      using assms(3) by (auto simp: conn_ok_def ep_ops)
  qed (simp_all add: ep_ops l(3))
  moreover have "count_ok (worker_close w i s)" by (rule count_same [OF n]) (simp_all add: ep_ops)
  moreover have "queue_ok view lim (worker_close w i s)" by (rule queue_same [OF q]) (auto simp: ep_ops split: if_splits)
  ultimately show ?thesis by (rule ep_invI)
qed

subsection \<open>Termination\<close>

text \<open>Weights: bytes under way to the server count twice, a connection by its place, a client by its phase.\<close>

fun client_weight :: "nat \<Rightarrow> echo_client \<Rightarrow> nat" where
  "client_weight i Cl_connect = 12 + 2 * length (greeting i)" | "client_weight i Cl_send = 5 + 2 * length (greeting i)"
| "client_weight i Cl_recv = 4" | "client_weight i Cl_close = 3" | "client_weight i Cl_count = 2"
| "client_weight i Cl_shutdown = 1" | "client_weight i Cl_returned = 0"

fun acceptor_weight :: "accept_loop \<Rightarrow> nat" where
  "acceptor_weight Ac_accept = 2" | "acceptor_weight (Ac_push _) = 7" | "acceptor_weight (Ac_refused _) = 3"
| "acceptor_weight Ac_break = 1" | "acceptor_weight Ac_returned = 0"

fun wk_weight :: "echo_worker \<Rightarrow> nat" where
  "wk_weight Wk_pop = 1" | "wk_weight (Wk_recv _) = 4" | "wk_weight (Wk_send _) = 5" | "wk_weight (Wk_close _) = 3"
| "wk_weight Wk_returned = 0"

definition ep_rank :: "('c \<Rightarrow> int fifo) \<Rightarrow> 'c echo_pool \<Rightarrow> nat" where
  "ep_rank view s = (\<Sum>i<k_clients. client_weight i (ep_client s i) + 2 * length (to_server (ep_conn s i)))
     + 6 * length (ep_backlog s) + acceptor_weight (ep_acceptor s) + 4 * length (f_items (view (ep_ch s)))
     + (\<Sum>w<k_workers. wk_weight (ep_worker s w))"

lemma ep_rank_client:
  assumes "i < k_clients" and "\<And>j. j \<noteq> i \<Longrightarrow> ep_client s' j = ep_client s j \<and> ep_conn s' j = ep_conn s j"
    and "ep_acceptor s' = ep_acceptor s" and "ep_ch s' = ep_ch s" and "ep_worker s' = ep_worker s"
    and "6 * length (ep_backlog s') + client_weight i (ep_client s' i) + 2 * length (to_server (ep_conn s' i))
      < 6 * length (ep_backlog s) + client_weight i (ep_client s i) + 2 * length (to_server (ep_conn s i))"
  shows "ep_rank view s' < ep_rank view s"
  using sum_change [OF assms(1), of "\<lambda>i. client_weight i (ep_client s' i) + 2 * length (to_server (ep_conn s' i))"
      "\<lambda>i. client_weight i (ep_client s i) + 2 * length (to_server (ep_conn s i))"] assms(2-6)
  by (simp add: ep_rank_def)

lemma ep_rank_worker:
  assumes "w < k_workers" and "\<And>v. v \<noteq> w \<Longrightarrow> ep_worker s' v = ep_worker s v" and "ep_client s' = ep_client s"
    and "\<And>j. j \<noteq> i \<Longrightarrow> ep_conn s' j = ep_conn s j" and "i < k_clients"
    and "ep_acceptor s' = ep_acceptor s" and "ep_backlog s' = ep_backlog s"
    and "wk_weight (ep_worker s' w) + 2 * length (to_server (ep_conn s' i)) + 4 * length (f_items (view (ep_ch s')))
      < wk_weight (ep_worker s w) + 2 * length (to_server (ep_conn s i)) + 4 * length (f_items (view (ep_ch s)))"
  shows "ep_rank view s' < ep_rank view s"
  using sum_change [OF assms(1), of "\<lambda>w. wk_weight (ep_worker s' w)" "\<lambda>w. wk_weight (ep_worker s w)"]
    sum_change [OF assms(5), of "\<lambda>i. client_weight i (ep_client s' i) + 2 * length (to_server (ep_conn s' i))"
      "\<lambda>i. client_weight i (ep_client s i) + 2 * length (to_server (ep_conn s i))"] assms(2-4,6-8)
  by (simp add: ep_rank_def)

lemma ep_worker_client:
  assumes "ep_inv view lim s" and "w < k_workers" and "wk_hand (ep_worker s w) = Some i"
  shows "i < k_clients"
  using assms placed_worker(2) by (fastforce simp: ep_inv_def)

lemma acc_not_refused: "ep_inv view lim s \<Longrightarrow> ep_acceptor s \<noteq> Ac_refused i"
  by (simp add: ep_inv_def queue_ok_def)

context ep_system
begin

lemma ep_step_inv:
  assumes "ep_inv view lim s" and "ep_step bc s s'"
  shows "ep_inv view lim s'"
  using assms(2)
proof cases
  case (es_refused i)
  then show ?thesis using acc_not_refused [OF assms(1)] by blast
qed (use assms(1) in \<open>simp_all add: ep_connect_inv ep_send_inv ep_recv_inv ep_recv_end_inv ep_close_inv ep_count_inv ep_shutdown_inv
  ep_accept_inv ep_accept_throws_inv ep_push_inv ep_end_inv ep_pop_inv ep_wrecv_inv ep_wsend_inv ep_leave_inv ep_wclose_inv\<close>)

lemma ep_rank_step:
  assumes "ep_inv view lim s" and "ep_step bc s s'"
  shows "ep_rank view s' < ep_rank view s"
  using assms(2)
proof cases
  case (es_connect i)
  then show ?thesis by (intro ep_rank_client [of i]) (simp_all add: ep_ops)
next
  case (es_send i n)
  then show ?thesis by (intro ep_rank_client [of i]) (simp_all add: ep_ops)
next
  case (es_recv i n)
  then show ?thesis by (intro ep_rank_client [of i]) (simp_all add: ep_ops)
next
  case (es_recv_end i)
  then show ?thesis by (intro ep_rank_client [of i]) (simp_all add: ep_ops)
next
  case (es_close i)
  then show ?thesis by (intro ep_rank_client [of i]) (simp_all add: ep_ops)
next
  case (es_count i)
  then show ?thesis by (intro ep_rank_client [of i]) (simp_all add: ep_ops)
next
  case (es_shutdown i)
  then show ?thesis by (intro ep_rank_client [of i]) (simp_all add: ep_ops)
next
  case es_accept
  then show ?thesis by (cases "ep_backlog s") (simp_all add: ep_rank_def ep_ops)
next
  case es_accept_throws
  then show ?thesis by (simp add: ep_rank_def ep_ops)
next
  case (es_push i st ch')
  have "\<not> f_closed (view (ep_ch s))" using assms(1) es_push(2) by (simp add: ep_inv_def queue_ok_def)
  from push_returned [OF es_push(3) this] es_push show ?thesis by (simp add: ep_rank_def ep_ops)
next
  case (es_refused i)
  then show ?thesis by (simp add: ep_rank_def ep_ops)
next
  case es_end
  then show ?thesis by (simp add: ep_rank_def ep_ops close_view)
next
  case (es_pop w st v ch')
  from pop_returned [OF es_pop(4)] es_pop(1-3) show ?thesis
    by (intro ep_rank_worker [of w _ _ 0]) (auto simp: ep_ops k_clients_def)
next
  case (es_wrecv w i n)
  then show ?thesis using ep_worker_client [OF assms(1), of w i] by (intro ep_rank_worker [of w _ _ i]) (simp_all add: ep_ops)
next
  case (es_wend w i)
  then show ?thesis using ep_worker_client [OF assms(1), of w i] by (intro ep_rank_worker [of w _ _ i]) (simp_all add: ep_ops)
next
  case (es_wsend w i n)
  then show ?thesis using ep_worker_client [OF assms(1), of w i] by (intro ep_rank_worker [of w _ _ i]) (simp_all add: ep_ops)
next
  case (es_wfail w i)
  then show ?thesis using ep_worker_client [OF assms(1), of w i] by (intro ep_rank_worker [of w _ _ i]) (simp_all add: ep_ops)
next
  case (es_wclose w i)
  then show ?thesis using ep_worker_client [OF assms(1), of w i] by (intro ep_rank_worker [of w _ _ i]) (simp_all add: ep_ops)
qed

text \<open>A worker with a connection, or the client of that connection, can go on.\<close>

lemma busy_worker:
  assumes "ep_inv view lim s" and "w < k_workers" and "wk_hand (ep_worker s w) = Some i"
  shows "\<exists>s'. ep_step bc s s'"
proof -
  from assms(1) obtain loc where p: "placed view loc s" and c: "conns_ok loc s" by (auto simp: ep_inv_def)
  note l = placed_worker [OF p assms(2,3)]
  have ok: "conn_ok i (ep_client s i) (At_worker w) (ep_worker s) (ep_conn s i)" using c l(1,2) by (metis conns_ok_def)
  have "set (ep_closed s) = {i. loc i = Is_closed}" using p by (simp add: placed_def)
  then have nc: "i \<notin> set (ep_closed s)" using l(1) by simp
  have one: "0 < Suc 0" by simp
  show ?thesis
  proof (cases "ep_worker s w")
    case (Wk_recv j)
    then have j: "j = i" using assms(3) by simp
    show ?thesis
    proof (cases "to_server (ep_conn s i) = []")
      case False
      then have "Suc 0 \<le> length (to_server (ep_conn s i))" by (simp add: Suc_le_eq)
      from es_wrecv [OF assms(2) Wk_recv [unfolded j] one this] show ?thesis by (auto simp: ep_buf_size_def)
    next
      case True
      have "handler_buf (ep_conn s i) = []" using ok Wk_recv j by (simp add: conn_ok_def)
      note e = True this
      show ?thesis
      proof (cases "ep_client s i")
        case Cl_send
        from es_send [OF l(2) this nc, of "Suc 0"] show ?thesis by (auto simp: greeting_def)
      next
        case Cl_recv
        then have "Suc 0 \<le> length (to_client (ep_conn s i))" using ok e by (simp add: conn_ok_def Suc_le_eq)
        from es_recv [OF l(2) Cl_recv one this] show ?thesis by (auto simp: ep_buf_size_def)
      next
        case Cl_close
        from es_close [OF l(2) this] show ?thesis by blast
      next
        case Cl_connect
        then show ?thesis using placed_client [OF p, of i] l(1) by simp
      qed (use ok es_wend [OF assms(2) Wk_recv [unfolded j]] in \<open>auto simp: conn_ok_def\<close>)
    qed
  next
    case (Wk_send j)
    then have j: "j = i" using assms(3) by simp
    then have "Suc 0 \<le> length (handler_buf (ep_conn s i))" using ok Wk_send by (simp add: conn_ok_def Suc_le_eq)
    from es_wsend [OF assms(2) Wk_send [unfolded j] one this] show ?thesis by blast
  next
    case (Wk_close j)
    from es_wclose [OF assms(2) this] show ?thesis by blast
  qed (use assms(3) in simp_all)
qed

lemma queued_step:
  assumes "ep_inv view lim s" and "f_items (view (ep_ch s)) \<noteq> []"
  shows "\<exists>s'. ep_step bc s s'"
proof (cases "wk_hand (ep_worker s 0)")
  case (Some i)
  then show ?thesis using busy_worker [OF assms(1), of 0 i] by (simp add: k_workers_def)
next
  case None
  have w: "0 < k_workers" by (simp add: k_workers_def)
  have "ep_worker s 0 \<noteq> Wk_returned" using assms w by (auto simp: ep_inv_def queue_ok_def)
  then have "ep_worker s 0 = Wk_pop" using None by (cases "ep_worker s 0") simp_all
  moreover obtain x xs where "f_items (view (ep_ch s)) = x # xs" using assms(2) by (cases "f_items (view (ep_ch s))") auto
  with pop_succeeds obtain ch' where "channel_pop bc (ep_ch s) = Ret (Ch_success, Some x, ch')" by blast
  ultimately have "ep_step bc s (worker_pop 0 Ch_success (Some x) ch' s)" by (rule es_pop [OF w])
  then show ?thesis by blast
qed

lemma pushing_step:
  assumes "ep_inv view lim s" and "ep_acceptor s = Ac_push i"
  shows "\<exists>s'. ep_step bc s s'"
proof (cases "f_items (view (ep_ch s)) = []")
  case False
  then show ?thesis by (rule queued_step [OF assms(1)])
next
  case True
  have "\<not> f_closed (view (ep_ch s))" "length (f_items (view (ep_ch s))) < f_limit (view (ep_ch s))"
    using assms True by (simp_all add: ep_inv_def queue_ok_def)
  from push_succeeds [OF this, of "int i"] obtain ch' where "channel_push bc (ep_ch s) (int i) = Ret (Ch_success, ch')" by blast
  from es_push [OF assms(2) this] show ?thesis by blast
qed

lemma waiting_client:
  assumes "ep_inv view lim s" and "i < k_clients" and "ep_client s i \<noteq> Cl_returned"
  shows "\<exists>s'. ep_step bc s s'"
proof -
  from assms(1) obtain loc where p: "placed view loc s" and c: "conns_ok loc s" and n: "count_ok s" and q: "queue_ok view lim s"
    by (auto simp: ep_inv_def)
  have ok: "conn_ok i (ep_client s i) (loc i) (ep_worker s) (ep_conn s i)" using c assms(2) by (simp add: conns_ok_def)
  have sets: "set (ep_closed s) = {i. loc i = Is_closed}" "set (ep_backlog s) = {i. loc i = In_backlog}"
    "set (f_items (view (ep_ch s))) = int ` {i. loc i = In_queue}" using p by (simp_all add: placed_def)
  have nshut: "\<not> ep_shut s" if "\<not> counted (ep_client s i)" using count_below [OF n assms(2) that] n by (simp add: count_ok_def)
  have nc: "loc i \<noteq> Is_closed" if "ep_client s i = Cl_send \<or> ep_client s i = Cl_recv" using ok that by (auto simp: conn_ok_def)
  show ?thesis
  proof (cases "ep_client s i")
    case Cl_connect
    then show ?thesis using es_connect [OF assms(2)] nshut by (auto simp: counted_def)
  next
    case Cl_send
    then have "i \<notin> set (ep_closed s)" using nc sets(1) by simp
    from es_send [OF assms(2) Cl_send this, of "Suc 0"] show ?thesis by (auto simp: greeting_def)
  next
    case Cl_recv
    then have shut: "\<not> ep_shut s" using nshut by (simp add: counted_def)
    show ?thesis
    proof (cases "loc i")
      case (At_worker w)
      then have "w < k_workers \<and> wk_hand (ep_worker s w) = Some i" using p by (simp add: placed_def)
      then show ?thesis using busy_worker [OF assms(1)] by blast
    next
      case In_queue
      then have "f_items (view (ep_ch s)) \<noteq> []" using sets(3) by auto
      then show ?thesis by (rule queued_step [OF assms(1)])
    next
      case In_hand
      then have "acc_hand (ep_acceptor s) = Some i" using p by (simp add: placed_def)
      then show ?thesis using pushing_step [OF assms(1)] acc_not_refused [OF assms(1)] by (cases "ep_acceptor s") auto
    next
      case In_backlog
      then have b: "ep_backlog s \<noteq> []" using sets(2) by auto
      show ?thesis
      proof (cases "ep_acceptor s")
        case Ac_accept
        from es_accept [OF this b shut] show ?thesis by blast
      next
        case (Ac_push j)
        then show ?thesis by (rule pushing_step [OF assms(1)])
      qed (use q shut in \<open>auto simp: queue_ok_def\<close>)
    next
      case Nowhere
      then show ?thesis using p assms(2) Cl_recv by (auto simp: placed_def)
    next
      case Is_closed
      then show ?thesis using nc Cl_recv by simp
    qed
  qed (use assms(2,3) es_close es_count es_shutdown in blast)+
qed

lemma ep_progress:
  assumes "ep_inv view lim s" and "\<not> ep_finished s"
  shows "\<exists>s'. ep_step bc s s'"
proof (cases "\<forall>i < k_clients. ep_client s i = Cl_returned")
  case False
  then show ?thesis using waiting_client [OF assms(1)] by blast
next
  case True
  have n: "count_ok s" and q: "queue_ok view lim s" using assms(1) by (auto simp: ep_inv_def)
  have "{i. i < k_clients \<and> counted (ep_client s i)} = {..<k_clients}" using True by (auto simp: counted_def)
  then have shut: "ep_shut s" using n True by (auto simp: count_ok_def)
  show ?thesis
  proof (cases "ep_acceptor s")
    case Ac_accept
    from es_accept_throws [OF this shut] show ?thesis by blast
  next
    case (Ac_push i)
    then show ?thesis by (rule pushing_step [OF assms(1)])
  next
    case (Ac_refused i)
    then show ?thesis using acc_not_refused [OF assms(1)] by blast
  next
    case Ac_break
    from es_end [OF this] show ?thesis by blast
  next
    case Ac_returned
    then obtain w where w: "w < k_workers" "ep_worker s w \<noteq> Wk_returned" using assms(2) True by (auto simp: ep_finished_def)
    have cl: "f_closed (view (ep_ch s))" using q Ac_returned by (simp add: queue_ok_def)
    show ?thesis
    proof (cases "f_items (view (ep_ch s)) = []")
      case False
      then show ?thesis by (rule queued_step [OF assms(1)])
    next
      case empty: True
      show ?thesis
      proof (cases "wk_hand (ep_worker s w)")
        case (Some i)
        then show ?thesis by (rule busy_worker [OF assms(1) w(1)])
      next
        case None
        then have "ep_worker s w = Wk_pop" using w(2) by (cases "ep_worker s w") simp_all
        moreover obtain ch' where "channel_pop bc (ep_ch s) = Ret (Ch_closed, None, ch')" using pop_after_close [OF empty cl] by blast
        ultimately have "ep_step bc s (worker_pop w Ch_closed None ch' s)" by (rule es_pop [OF w(1)])
        then show ?thesis by blast
      qed
    qed
  qed
qed

lemma ep_finished_step: "ep_inv view lim s \<Longrightarrow> ep_finished s \<Longrightarrow> \<not> ep_step bc s s'"
  by (auto simp: ep_finished_def elim!: ep_step.cases)

end

sublocale ep_system \<subseteq> ep: ranked_system "ep_step bc" "ep_inv view lim" "ep_rank view" ep_finished for lim
  by unfold_locales (auto intro: ep_step_inv ep_rank_step ep_progress simp: ep_finished_step)

interpretation ref_ep: ep_system ref_boost "channel_view ref_boost rc_items rc_size"
  unfolding ep_system_def by (rule ref_bc.is_bounded_channel)

lemma ep_system_of_boost:
  "boost_buffered_channel bc items ring_size \<Longrightarrow> ep_system bc (channel_view bc items ring_size)"
  unfolding ep_system_def by (rule boost_buffered_channel.is_bounded_channel)

lemma ep_start_inv:
  "view ch = \<lparr>f_items = [], f_limit = lim, f_closed = False\<rparr> \<Longrightarrow> 0 < lim \<Longrightarrow> ep_inv view lim (ep_start ch)"
  by (rule ep_invI [of _ "\<lambda>_. Nowhere"])
    (auto simp: placed_def conns_ok_def conn_ok_def count_ok_def queue_ok_def ep_start_def no_conn_def counted_def k_clients_def)

lemma greeting_length: "i < k_clients \<Longrightarrow> length (greeting i) = 19"
  by (simp add: greeting_def to_string.simps k_clients_def)

lemma ep_start_rank:
  assumes "view ch = \<lparr>f_items = [], f_limit = lim, f_closed = False\<rparr>"
  shows "ep_rank view (ep_start ch) = 406"
proof -
  have "(\<Sum>i<k_clients. client_weight i Cl_connect) = (\<Sum>i<k_clients. 50)"
    by (rule sum.cong) (simp_all add: greeting_length)
  then show ?thesis using assms by (simp add: ep_rank_def ep_start_def no_conn_def k_clients_def k_workers_def)
qed

text \<open>What the invariant says of the replies and of the end.\<close>

lemma ep_inv_reply:
  assumes "ep_inv view lim s" and "i < k_clients" and "reply (ep_conn s i) = Some r"
  shows "r \<noteq> [] \<and> subseq r (greeting i)"
proof -
  from assms(1) obtain loc where "conns_ok loc s" by (auto simp: ep_inv_def)
  then have ok: "conn_ok i (ep_client s i) (loc i) (ep_worker s) (ep_conn s i)" using assms(2) by (simp add: conns_ok_def)
  let ?c = "ep_conn s i"
  have "subseq r (r @ to_client ?c @ handler_buf ?c @ to_server ?c)" by (rule prefix_imp_subseq) simp
  moreover have "subseq (r @ to_client ?c @ handler_buf ?c @ to_server ?c) (greeting i)" using ok assms(3) by (simp add: conn_ok_def)
  ultimately have "subseq r (greeting i)" by (rule subseq_order.order_trans)
  moreover have "ep_client s i = Cl_close \<or> client_closed ?c" using ok assms(3)
    by (cases "ep_client s i") (auto simp: conn_ok_def no_conn_def)
  ultimately show ?thesis using ok assms(3) by (auto simp: conn_ok_def)
qed

lemma ep_inv_finished:
  assumes "ep_inv view lim s" and "ep_finished s"
  shows "set (ep_closed s) = {..<k_clients}" and "f_items (view (ep_ch s)) = []" and "f_closed (view (ep_ch s))"
    and "i < k_clients \<Longrightarrow> reply (ep_conn s i) \<noteq> None"
proof -
  from assms(1) obtain loc where p: "placed view loc s" and c: "conns_ok loc s" and q: "queue_ok view lim s" by (auto simp: ep_inv_def)
  have cl: "ep_client s i = Cl_returned" if "i < k_clients" for i using assms(2) that by (simp add: ep_finished_def)
  have ok: "conn_ok i Cl_returned (loc i) (ep_worker s) (ep_conn s i)" if "i < k_clients" for i
    using c that cl [OF that] by (metis conns_ok_def)
  have "ep_worker s 0 = Wk_returned" using assms(2) by (simp add: ep_finished_def k_workers_def)
  then show "f_items (view (ep_ch s)) = []" "f_closed (view (ep_ch s))"
    using q unfolding queue_ok_def by (auto simp: k_workers_def dest: spec [of _ 0])
  show "reply (ep_conn s i) \<noteq> None" if "i < k_clients" using ok [OF that] by (auto simp: conn_ok_def)
  have nw: "loc i \<noteq> At_worker w" for i w using p assms(2) by (auto simp: placed_def ep_finished_def)
  have "loc i = Is_closed \<longleftrightarrow> i < k_clients" for i
  proof
    assume "i < k_clients"
    then show "loc i = Is_closed" using ok [of i] cl [of i] nw [of i] p by (cases "loc i") (auto simp: conn_ok_def placed_def)
  qed (use placed_client [OF p, of i] in simp)
  moreover have "set (ep_closed s) = {i. loc i = Is_closed}" using p by (simp add: placed_def)
  ultimately show "set (ep_closed s) = {..<k_clients}" by auto
qed

context ep_system
begin

lemma ep_run:
  assumes "view ch = \<lparr>f_items = [], f_limit = lim, f_closed = False\<rparr>" and "0 < lim" and "(ep_step bc ^^ k) (ep_start ch) s"
  shows "ep_inv view lim s" and "k \<le> 406" and "(\<nexists>s'. ep_step bc s s') \<longleftrightarrow> ep_finished s"
proof -
  note st = ep_start_inv [of view ch lim, OF assms(1,2)]
  show inv: "ep_inv view lim s" by (rule ep.steps_keep [OF assms(3) st])
  show "k \<le> 406" using ep.run_bound [OF assms(3) st] by (simp add: ep_start_rank [of view ch lim, OF assms(1)])
  show "(\<nexists>s'. ep_step bc s s') \<longleftrightarrow> ep_finished s" by (rule ep.maximal_final [OF inv])
qed

end

subsection \<open>The server and its clients finish\<close>

text \<open>
  C12. The worker-pool server. Over any Boost channel with the documented behaviour, every
  interleaving of the accept loop, the workers and the clients takes at most 406 steps and is
  never stuck before all of them have returned. No descriptor is closed twice; at the end
  every accepted connection has been closed, the channel is closed and drained, and every
  client has got a reply. Every reply is non-empty and made of bytes of the client's own
  greeting in their order; since the results of the sends are ignored it need not be all of
  it, nor a beginning of it.
\<close>
theorem echo_pool_finishes:
  assumes "boost_buffered_channel bc items ring_size" and "channel_new bc ep_capacity = Ret ch"
    and "(ep_step bc ^^ k) (ep_start ch) s"
  shows "k \<le> 406 \<and> ((\<nexists>s'. ep_step bc s s') \<longleftrightarrow> ep_finished s) \<and> distinct (ep_closed s)
    \<and> (\<forall>i r. i < k_clients \<and> reply (ep_conn s i) = Some r \<longrightarrow> r \<noteq> [] \<and> subseq r (greeting i))
    \<and> (ep_finished s \<longrightarrow> set (ep_closed s) = {..<k_clients} \<and> items (ep_ch s) = [] \<and> channel_is_closed bc (ep_ch s)
         \<and> (\<forall>i < k_clients. reply (ep_conn s i) \<noteq> None))"
proof -
  let ?v = "channel_view bc items ring_size"
  have sys: "ep_system bc ?v" by (rule ep_system_of_boost [OF assms(1)])
  have "bit_ceil (Suc ep_capacity) = 16" using bit_ceil_Suc_power [of 3] by (simp add: ep_capacity_def)
  moreover have "1 \<le> ep_capacity" "ep_capacity < 2 ^ 63" by (simp_all add: ep_capacity_def)
  ultimately have new: "?v ch = \<lparr>f_items = [], f_limit = 15, f_closed = False\<rparr>"
    using boost_buffered_channel.new_channel [OF assms(1), of ep_capacity] assms(2) by fastforce
  note run = ep_system.ep_run [OF sys new zero_less_numeral assms(3)]
  have "distinct (ep_closed s)" using run(1) by (auto simp: ep_inv_def placed_def)
  then show ?thesis using run(2,3) ep_inv_reply [OF run(1)] ep_inv_finished [OF run(1)]
    by (auto simp: channel_view_def channel_is_closed_def)
qed

text \<open>A run in which the server echoes \<open>''hello''\<close> by a send of two bytes and \<open>'' from''\<close> in full.\<close>

definition empty_queue :: "int ref_chan" where
  "empty_queue = \<lparr>rc_items = [], rc_size = 16, rc_closed = False\<rparr>"

lemma new_empty_queue: "channel_new ref_boost 8 = Ret empty_queue"
proof -
  have "bit_ceil 9 = 16" using bit_ceil_Suc_power [of 3] by simp
  moreover have "is_pow2 16" using bit_ceil_power [of 4] by (simp add: is_pow2_def)
  ultimately show ?thesis by (simp add: channel_new_def size_add_def size_t_mod_def ref_boost_def Let_def empty_queue_def)
qed

lemma empty_queue_view: "channel_view ref_boost rc_items rc_size empty_queue = \<lparr>f_items = [], f_limit = 15, f_closed = False\<rparr>"
  by (simp add: channel_view_def empty_queue_def ref_boost_simps channel_is_closed_def)

definition accepted_one :: "int ref_chan echo_pool" where
  "accepted_one = worker_pop 0 Ch_success (Some 0) empty_queue (accept_push 0 Ch_success (empty_queue\<lparr>rc_items := [0]\<rparr>)
     (accept_conn (client_send 0 19 (client_connect 0 (ep_start empty_queue)))))"

lemma greeting_0: "greeting 0 = ''hello from client 0''"
  by (simp add: greeting_def to_string.simps char_of_def bit_0)

lemma accepted_one_run: "(ep_step ref_boost ^^ 5) (ep_start empty_queue) accepted_one"
proof -
  let ?R = "ep_step ref_boost"
  let ?s0 = "ep_start empty_queue"
  let ?s1 = "client_connect 0 ?s0"
  let ?s2 = "client_send 0 19 ?s1"
  let ?s3 = "accept_conn ?s2"
  let ?s4 = "accept_push 0 Ch_success (empty_queue\<lparr>rc_items := [0]\<rparr>) ?s3"
  note ds = ep_ops ep_start_def no_conn_def k_clients_def k_workers_def
  have a: "?R ?s0 ?s1" by (rule es_connect) (simp_all add: ds)
  have b: "?R ?s1 ?s2" by (rule es_send) (simp_all add: ds greeting_0)
  have c: "?R ?s2 ?s3" by (rule es_accept) (simp_all add: ds)
  have d: "?R ?s3 ?s4" by (rule es_push) (simp_all add: ds channel_push_def ref_boost_simps empty_queue_def)
  have e: "?R ?s4 accepted_one" unfolding accepted_one_def
    by (rule es_pop) (simp_all add: ds channel_pop_def ref_boost_simps empty_queue_def)
  note more = relpowp_Suc_I [where P = ?R]
  have "(?R ^^ Suc (Suc (Suc (Suc (Suc 0))))) ?s0 accepted_one"
    by (rule more [OF more [OF more [OF more [OF more [OF _ a] b] c] d] e]) simp
  then show ?thesis by (simp add: numeral_eq_Suc)
qed

lemma accepted_one_state:
  "ep_worker accepted_one 0 = Wk_recv 0" "ep_client accepted_one 0 = Cl_recv"
  "ep_conn accepted_one 0 = no_conn\<lparr>to_server := ''hello from client 0''\<rparr>"
  by (simp_all add: accepted_one_def ep_ops ep_start_def no_conn_def greeting_0)

lemma short_echo_run:
  "\<exists>s. (ep_step ref_boost ^^ 10) (ep_start empty_queue) s \<and> reply (ep_conn s 0) = Some ''he from''"
proof -
  let ?R = "ep_step ref_boost"
  let ?s6 = "worker_recv 0 0 5 accepted_one"
  let ?s7 = "worker_send 0 0 2 ?s6"
  let ?s8 = "worker_recv 0 0 5 ?s7"
  let ?s9 = "worker_send 0 0 5 ?s8"
  let ?s10 = "client_recv 0 7 ?s9"
  note ds = ep_ops accepted_one_state no_conn_def k_clients_def k_workers_def ep_buf_size_def
  have a: "?R accepted_one ?s6" by (rule es_wrecv) (simp_all add: ds)
  have b: "?R ?s6 ?s7" by (rule es_wsend) (simp_all add: ds)
  have c: "?R ?s7 ?s8" by (rule es_wrecv) (simp_all add: ds)
  have d: "?R ?s8 ?s9" by (rule es_wsend) (simp_all add: ds)
  have e: "?R ?s9 ?s10" by (rule es_recv) (simp_all add: ds)
  note more = relpowp_Suc_I [where P = ?R]
  have "(?R ^^ Suc (Suc (Suc (Suc (Suc 5))))) (ep_start empty_queue) ?s10"
    by (rule more [OF more [OF more [OF more [OF more [OF accepted_one_run a] b] c] d] e])
  moreover have "reply (ep_conn ?s10 0) = Some ''he from''" by (simp add: ds)
  ultimately show ?thesis by (intro exI [of _ ?s10]) simp
qed

theorem echo_pool_finishes_witness:
  "subseq ''he from'' (greeting 0) \<and> \<not> prefix ''he from'' (greeting 0)"
proof -
  have new: "channel_new ref_boost ep_capacity = Ret empty_queue" by (simp add: ep_capacity_def new_empty_queue)
  obtain s where s: "(ep_step ref_boost ^^ 10) (ep_start empty_queue) s" "reply (ep_conn s 0) = Some ''he from''"
    using short_echo_run by blast
  from echo_pool_finishes [OF ref_bc.boost_buffered_channel_axioms new s(1)] s(2)
  have "subseq ''he from'' (greeting 0)" by (auto simp: k_clients_def)
  then show ?thesis by (simp add: greeting_0)
qed

end
