(* ===== verification/Echo_Multishot.thy ===== *)
theory Echo_Multishot
  imports Echo_Pool Multishot_Acceptor
begin

text \<open>
  \<open>examples/echo_server_multishot.cpp\<close>: the worker-pool server with a \<open>multishot_acceptor\<close> in place of
  the loop of single accepts. Workers, clients and channel are those of \<open>Echo_Pool\<close>; the acceptor
  is the one of \<open>Multishot_Acceptor\<close>, with its completions, its queue and its promise.

  The kernel accepts from the listening queue while the request is in flight, with or without
  ending the request; after \<open>::shutdown\<close> it ends the request with the error \<open>err\<close>. What the acceptor
  documents, and what the example relies on, is that this error is \<open>-EINVAL\<close>. The projection of the
  system to \<open>Echo_Pool\<close> puts the connections on their way through the acceptor in front of the
  listening queue, and its projection to \<open>Multishot_Acceptor\<close> is the acceptor's own step system.
\<close>

subsection \<open>State and steps\<close>

text \<open>\<open>em_left\<close>: the exception that left the accept loop, if any.\<close>

record 'c echo_ms =
  em_pool :: "'c echo_pool"
  em_aw :: acc_world
  em_left :: "exn option"

definition em_start :: "'c \<Rightarrow> acceptor \<Rightarrow> uring \<Rightarrow> 'c echo_ms" where
  "em_start ch a r = \<lparr>em_pool = ep_start ch, em_aw = acc_start a r, em_left = None\<rparr>"

definition accept_req :: "u64 \<Rightarrow> acc_world \<Rightarrow> sqe" where
  "accept_req self w = accept_sqe (server_fd (aw_acc w)) (acc_addr (aw_acc w)) (acc_addrlen (aw_acc w)) self blank_sqe"

text \<open>The kernel accepts the first connection of the listening queue.\<close>

definition kernel_accept :: "u64 \<Rightarrow> bool \<Rightarrow> nat \<Rightarrow> acc_world \<Rightarrow> acc_world" where
  "kernel_accept self stays i w =
     (if stays then w\<lparr>aw_cq := aw_cq w @ [(int i, IORING_CQE_F_MORE)], aw_in := aw_in w @ [int i]\<rparr>
      else w\<lparr>aw_cq := aw_cq w @ [(int i, 0)], aw_in := aw_in w @ [int i],
        aw_ring := (aw_ring w)\<lparr>inflight := remove1 (accept_req self w) (inflight (aw_ring w))\<rparr>\<rparr>)"

definition kernel_end :: "u64 \<Rightarrow> int \<Rightarrow> acc_world \<Rightarrow> acc_world" where
  "kernel_end self err w = w\<lparr>aw_cq := aw_cq w @ [(err, 0)],
     aw_ring := (aw_ring w)\<lparr>inflight := remove1 (accept_req self w) (inflight (aw_ring w))\<rparr>\<rparr>"

text \<open>The loop after a call of \<open>next\<close>: push the connection, leave the loop, or be left by the exception.\<close>

definition loop_got :: "int next_result \<Rightarrow> 'c echo_ms \<Rightarrow> 'c echo_ms" where
  "loop_got x s =
     (case x of
        Nx_value fd \<Rightarrow> s\<lparr>em_pool := (em_pool s)\<lparr>ep_acceptor := Ac_push (nat fd)\<rparr>\<rparr>
      | Nx_none \<Rightarrow> s\<lparr>em_pool := (em_pool s)\<lparr>ep_acceptor := Ac_break\<rparr>\<rparr>
      | Nx_throw ex \<Rightarrow> s\<lparr>em_left := Some ex\<rparr>
      | Nx_wait \<Rightarrow> s)"

inductive em_step :: "('c, int) boost_channel \<Rightarrow> liburing \<Rightarrow> u64 \<Rightarrow> int \<Rightarrow> 'c echo_ms \<Rightarrow> 'c echo_ms \<Rightarrow> bool"
  for bc :: "('c, int) boost_channel" and lu :: liburing and self :: u64 and err :: int where
  ms_other: "ep_step bc (em_pool s) p \<Longrightarrow> ep_acceptor (em_pool s) = Ac_accept \<longrightarrow> ep_acceptor p = Ac_accept \<Longrightarrow>
     em_step bc lu self err s (s\<lparr>em_pool := p\<rparr>)"
| ms_accept: "accept_req self (em_aw s) \<in> set (inflight (aw_ring (em_aw s))) \<Longrightarrow> ep_backlog (em_pool s) = i # is \<Longrightarrow> \<not> ep_shut (em_pool s) \<Longrightarrow>
     em_step bc lu self err s (s\<lparr>em_aw := kernel_accept self stays i (em_aw s), em_pool := (em_pool s)\<lparr>ep_backlog := is\<rparr>\<rparr>)"
| ms_end: "accept_req self (em_aw s) \<in> set (inflight (aw_ring (em_aw s))) \<Longrightarrow> ep_shut (em_pool s) \<Longrightarrow>
     em_step bc lu self err s (s\<lparr>em_aw := kernel_end self err (em_aw s)\<rparr>)"
| ms_drain: "aw_cq (em_aw s) = (res, flags) # cs \<Longrightarrow>
     acc_complete lu self (aw_acc (em_aw s)) (aw_ring (em_aw s)) res flags = Ret (a, r, woken) \<Longrightarrow>
     em_step bc lu self err s (s\<lparr>em_aw := (em_aw s)\<lparr>aw_acc := a, aw_ring := r, aw_cq := cs,
       aw_fut := (case woken of Some (_, v) \<Rightarrow> Some v | None \<Rightarrow> aw_fut (em_aw s))\<rparr>\<rparr>)"
| ms_next: "em_left s = None \<Longrightarrow> ep_acceptor (em_pool s) = Ac_accept \<Longrightarrow> acc_waiter (aw_acc (em_aw s)) = None \<Longrightarrow> aw_fut (em_aw s) = None \<Longrightarrow>
     acc_next fiber no_token (aw_acc (em_aw s)) = (a, x) \<Longrightarrow>
     em_step bc lu self err s (loop_got x (s\<lparr>em_aw := (em_aw s)\<lparr>aw_acc := a, aw_out := aw_out (em_aw s) @ got x\<rparr>\<rparr>))"
| ms_resume: "aw_fut (em_aw s) = Some v \<Longrightarrow>
     em_step bc lu self err s (loop_got (acc_next_resume v)
       (s\<lparr>em_aw := (em_aw s)\<lparr>aw_fut := None, aw_out := aw_out (em_aw s) @ got (acc_next_resume v)\<rparr>\<rparr>))"

subsection \<open>Projections\<close>

text \<open>Connections on their way through the acceptor.\<close>

definition acc_pipe :: "acc_world \<Rightarrow> int list" where
  "acc_pipe w = acc_taken (aw_fut w) @ pending_fds (aw_acc w) @ posted_fds (aw_cq w)"

definition queued_before :: "nat list \<Rightarrow> 'c echo_pool \<Rightarrow> 'c echo_pool" where
  "queued_before is p = p\<lparr>ep_backlog := is @ ep_backlog p\<rparr>"

definition em_proj :: "'c echo_ms \<Rightarrow> 'c echo_pool" where
  "em_proj s = queued_before (map nat (acc_pipe (em_aw s))) (em_pool s)"

lemma queued_before_simps [simp]:
  "ep_ch (queued_before is p) = ep_ch p" "ep_backlog (queued_before is p) = is @ ep_backlog p" "ep_shut (queued_before is p) = ep_shut p"
  "ep_done (queued_before is p) = ep_done p" "ep_client (queued_before is p) = ep_client p" "ep_conn (queued_before is p) = ep_conn p"
  "ep_acceptor (queued_before is p) = ep_acceptor p" "ep_worker (queued_before is p) = ep_worker p" "ep_closed (queued_before is p) = ep_closed p"
  "ep_finished (queued_before is p) = ep_finished p"
  by (simp_all add: queued_before_def ep_finished_def)

lemma queued_before_ops:
  "queued_before is (client_connect i p) = client_connect i (queued_before is p)"
  "queued_before is (client_send i n p) = client_send i n (queued_before is p)"
  "queued_before is (client_recv i n p) = client_recv i n (queued_before is p)"
  "queued_before is (client_close i p) = client_close i (queued_before is p)"
  "queued_before is (client_count i p) = client_count i (queued_before is p)"
  "queued_before is (client_shutdown i p) = client_shutdown i (queued_before is p)"
  "queued_before is (accept_push i st ch' p) = accept_push i st ch' (queued_before is p)"
  "queued_before is (accept_refused i p) = accept_refused i (queued_before is p)"
  "queued_before is (accept_end bc p) = accept_end bc (queued_before is p)"
  "queued_before is (worker_pop w st v ch' p) = worker_pop w st v ch' (queued_before is p)"
  "queued_before is (worker_recv w i n p) = worker_recv w i n (queued_before is p)"
  "queued_before is (worker_send w i n p) = worker_send w i n (queued_before is p)"
  "queued_before is (worker_leave w i p) = worker_leave w i (queued_before is p)"
  "queued_before is (worker_close w i p) = worker_close w i (queued_before is p)"
  by (simp_all add: queued_before_def ep_ops)

text \<open>Every step of \<open>Echo_Pool\<close> but those that accept is the same whatever is in front of the listening queue.\<close>

definition keeps_accepting :: "'c echo_pool \<Rightarrow> 'c echo_pool \<Rightarrow> bool" where
  "keeps_accepting p q \<longleftrightarrow> (ep_acceptor p = Ac_accept \<longrightarrow> ep_acceptor q = Ac_accept)"

lemma other_step_before:
  assumes "ep_step bc p q" and "keeps_accepting p q"
  shows "ep_step bc (queued_before is p) (queued_before is q)"
  using assms(1)
proof cases
  case es_accept
  then show ?thesis using assms(2) by (simp add: keeps_accepting_def accept_conn_def)
next
  case es_accept_throws
  then show ?thesis using assms(2) by (simp add: keeps_accepting_def accept_throws_def)
qed (simp add: queued_before_ops, rule ep_step.intros, simp_all)+

lemma other_step_behind:
  assumes "ep_step bc (queued_before is p) q" and "keeps_accepting (queued_before is p) q"
  shows "\<exists>q'. ep_step bc p q' \<and> keeps_accepting p q'"
  using assms(1)
proof cases
  case es_accept
  then show ?thesis using assms(2) by (simp add: keeps_accepting_def accept_conn_def)
next
  case es_accept_throws
  then show ?thesis using assms(2) by (simp add: keeps_accepting_def accept_throws_def)
qed (use assms(2) in \<open>auto simp: keeps_accepting_def ep_ops intro: ep_step.intros\<close>)

subsection \<open>Invariant\<close>

text \<open>
  The accept request: until an end is recorded, either it is in flight or the completion that
  ended it is the last of those not yet drained.
\<close>

definition reqs :: "u64 \<Rightarrow> acc_world \<Rightarrow> nat" where
  "reqs self w = length (filter (\<lambda>e. e = accept_req self w) (inflight (aw_ring w)))"

definition lasts :: "acc_world \<Rightarrow> nat" where
  "lasts w = length (filter (\<lambda>c. snd c = 0) (aw_cq w))"

definition acc_once :: "u64 \<Rightarrow> acc_world \<Rightarrow> bool" where
  "acc_once self w \<longleftrightarrow> sq (aw_ring w) = [] \<and> reqs self w + lasts w = (if acc_error (aw_acc w) = 0 then 1 else 0)
     \<and> (\<forall>c \<in> set (butlast (aw_cq w)). snd c = IORING_CQE_F_MORE)
     \<and> (\<forall>c \<in> set (aw_cq w). snd c = 0 \<or> snd c = IORING_CQE_F_MORE \<and> 0 \<le> fst c)
     \<and> (acc_error (aw_acc w) \<noteq> 0 \<longrightarrow> aw_cq w = [])"

text \<open>Errors come from the shutdown.\<close>

definition acc_end_ok :: "int \<Rightarrow> bool \<Rightarrow> acc_world \<Rightarrow> bool" where
  "acc_end_ok err shut w \<longleftrightarrow> (acc_error (aw_acc w) \<noteq> 0 \<longrightarrow> acc_error (aw_acc w) = err \<and> shut)
     \<and> (\<forall>c \<in> set (aw_cq w). fst c < 0 \<longrightarrow> fst c = err \<and> shut)
     \<and> (\<forall>v. aw_fut w = Some v \<and> v < 0 \<longrightarrow> v = err \<and> acc_error (aw_acc w) \<noteq> 0 \<and> pending_fds (aw_acc w) = [])"

definition loop_ok :: "int \<Rightarrow> 'c echo_ms \<Rightarrow> bool" where
  "loop_ok err s \<longleftrightarrow>
     (acc_waiter (aw_acc (em_aw s)) \<noteq> None \<or> aw_fut (em_aw s) \<noteq> None \<longrightarrow> ep_acceptor (em_pool s) = Ac_accept \<and> em_left s = None)
     \<and> (em_left s \<noteq> None \<longrightarrow> ep_acceptor (em_pool s) = Ac_accept \<and> err \<noteq> - ECANCELED \<and> err \<noteq> - EINVAL)
     \<and> (ep_acceptor (em_pool s) = Ac_break \<or> ep_acceptor (em_pool s) = Ac_returned \<longrightarrow>
          acc_error (aw_acc (em_aw s)) \<noteq> 0 \<and> pending_fds (aw_acc (em_aw s)) = [])"

definition em_inv :: "('c \<Rightarrow> int fifo) \<Rightarrow> nat \<Rightarrow> u64 \<Rightarrow> int \<Rightarrow> 'c echo_ms \<Rightarrow> bool" where
  "em_inv view lim self err s \<longleftrightarrow> ep_inv view lim (em_proj s) \<and> acc_conserved (em_aw s) \<and> acc_once self (em_aw s)
     \<and> acc_end_ok err (ep_shut (em_pool s)) (em_aw s) \<and> loop_ok err s"

lemma more_flag: "IORING_CQE_F_MORE \<noteq> 0" "IORING_CQE_F_MORE AND IORING_CQE_F_MORE \<noteq> 0"
  by (simp_all add: flag_defs)

lemma in_flight_reqs: "accept_req self w \<in> set (inflight (aw_ring w)) \<longleftrightarrow> 0 < reqs self w"
  by (auto simp: reqs_def filter_empty_conv)

text \<open>While the request is in flight, nothing has ended it.\<close>

lemma in_flight_open:
  assumes "acc_once self w" and "accept_req self w \<in> set (inflight (aw_ring w))"
  shows "acc_error (aw_acc w) = 0" "reqs self w = 1" "\<forall>c \<in> set (aw_cq w). snd c = IORING_CQE_F_MORE \<and> 0 \<le> fst c"
proof -
  have pos: "0 < reqs self w" using assms(2) by (simp add: in_flight_reqs)
  then show e: "acc_error (aw_acc w) = 0" "reqs self w = 1" using assms(1) by (auto simp: acc_once_def split: if_splits)
  then have "lasts w = 0" using assms(1) by (simp add: acc_once_def)
  then show "\<forall>c \<in> set (aw_cq w). snd c = IORING_CQE_F_MORE \<and> 0 \<le> fst c"
    using assms(1) by (auto simp: acc_once_def lasts_def filter_empty_conv)
qed

lemma last_is_last:
  assumes "acc_once self w" and "aw_cq w = (res, flags) # cs" and "flags \<noteq> IORING_CQE_F_MORE"
  shows "cs = []" "flags = 0" "acc_error (aw_acc w) = 0" "reqs self w = 0" "lasts w = 1"
proof -
  show c: "cs = []" using assms by (cases cs) (auto simp: acc_once_def)
  show f: "flags = 0" using assms by (auto simp: acc_once_def)
  show "lasts w = 1" using assms(2) c f by (simp add: lasts_def)
  then show "acc_error (aw_acc w) = 0" "reqs self w = 0" using assms(1) by (auto simp: acc_once_def split: if_splits)
qed

lemma removed_reqs:
  assumes "acc_once self w" and "accept_req self w \<in> set (inflight (aw_ring w))"
  shows "filter (\<lambda>e. e = accept_req self w) (remove1 (accept_req self w) (inflight (aw_ring w))) = []"
proof -
  have "length (filter (\<lambda>e. e = accept_req self w) (inflight (aw_ring w))) = 1"
    using in_flight_open(2) [OF assms] by (simp add: reqs_def)
  then show ?thesis using assms(2) by (simp add: filter_remove1 length_remove1 flip: length_0_conv)
qed

lemma once_accept:
  assumes "acc_once self w" and "accept_req self w \<in> set (inflight (aw_ring w))"
  shows "acc_once self (kernel_accept self stays i w)"
proof -
  note o = in_flight_open [OF assms] and r = removed_reqs [OF assms]
  have "lasts w = 0" using o(3) more_flag by (auto simp: lasts_def filter_empty_conv)
  then show ?thesis using assms(1) o r more_flag
    by (cases stays) (auto simp: acc_once_def kernel_accept_def reqs_def lasts_def accept_req_def)
qed

lemma once_end:
  assumes "acc_once self w" and "accept_req self w \<in> set (inflight (aw_ring w))"
  shows "acc_once self (kernel_end self err w)"
proof -
  note o = in_flight_open [OF assms] and r = removed_reqs [OF assms]
  have "lasts w = 0" using o(3) more_flag by (auto simp: lasts_def filter_empty_conv)
  then show ?thesis using assms(1) o r more_flag
    by (auto simp: acc_once_def kernel_end_def reqs_def lasts_def accept_req_def)
qed

text \<open>A drained completion. The ring has room for the re-armed request and takes it.\<close>

lemma once_drain:
  assumes "acc_once self w" and "aw_cq w = (res, flags) # cs" and "\<And>r. sq r = [] \<Longrightarrow> lu_sqe_available lu r" and "submits lu"
    and "acc_complete lu self (aw_acc w) (aw_ring w) res flags = Ret (a, r, woken)"
  shows "acc_once self (w\<lparr>aw_acc := a, aw_ring := r, aw_cq := cs, aw_fut := f\<rparr>)"
proof -
  have room: "lu_sqe_available lu (aw_ring w)" "sq (aw_ring w) = []" using assms(1,3) by (simp_all add: acc_once_def)
  have sub: "snd (io_uring_submit lu q) = q\<lparr>inflight := inflight q @ sq q, sq := []\<rparr>" for q
    using assms(4) by (simp add: submits_def submit_ok)
  have fd: "server_fd a = server_fd (aw_acc w)" "acc_addr a = acc_addr (aw_acc w)" "acc_addrlen a = acc_addrlen (aw_acc w)"
    using assms(5) by (auto simp: acc_complete_eval)
  show ?thesis
  proof (cases "flags = IORING_CQE_F_MORE")
    case True
    then have "0 \<le> res" using assms(1,2) more_flag by (auto simp: acc_once_def)
    then have "r = aw_ring w" "acc_error a = acc_error (aw_acc w)" using assms(5) True more_flag by (auto simp: acc_complete_eval)
    moreover have "lasts w = length (filter (\<lambda>c. snd c = 0) cs)" using assms(2) True more_flag by (simp add: lasts_def)
    ultimately show ?thesis using assms(1,2) fd
      by (cases cs) (auto simp: acc_once_def reqs_def lasts_def accept_req_def)
  next
    case False
    note l = last_is_last [OF assms(1,2) False]
    have none: "filter (\<lambda>e. e = accept_req self w) (inflight (aw_ring w)) = []" using l(4) by (simp add: reqs_def)
    show ?thesis using assms(5) l none room fd
      by (cases "0 \<le> res") (auto simp: acc_once_def reqs_def lasts_def accept_req_def acc_complete_eval sub)
  qed
qed

lemma shut_counted: "count_ok s \<Longrightarrow> ep_shut s \<Longrightarrow> i < k_clients \<Longrightarrow> counted (ep_client s i)"
  using count_below [of s i] by (auto simp: count_ok_def)

text \<open>After the shutdown nobody is waiting to be accepted.\<close>

lemma shut_no_backlog:
  assumes "ep_inv view lim s" and "ep_shut s"
  shows "ep_backlog s = []"
proof (rule ccontr)
  assume "ep_backlog s \<noteq> []"
  from assms(1) obtain loc where p: "placed view loc s" and c: "conns_ok loc s" and n: "count_ok s" by (auto simp: ep_inv_def)
  from \<open>ep_backlog s \<noteq> []\<close> obtain i where "i \<in> set (ep_backlog s)" by (cases "ep_backlog s") auto
  then have l: "loc i = In_backlog" using p by (auto simp: placed_def)
  then have i: "i < k_clients" using placed_client [OF p, of i] by simp
  then have "conn_ok i (ep_client s i) In_backlog (ep_worker s) (ep_conn s i)" using c l by (metis conns_ok_def)
  then show False using shut_counted [OF n assms(2) i] by (auto simp: conn_ok_def counted_def)
qed

lemma ep_shut_mono: "ep_step bc p q \<Longrightarrow> ep_shut p \<Longrightarrow> ep_shut q"
  by (erule ep_step.cases) (auto simp: ep_ops)

lemma ep_step_acceptor:
  assumes "ep_step bc p q"
  shows "ep_acceptor q = Ac_break \<or> ep_acceptor q = Ac_returned \<Longrightarrow> keeps_accepting p q \<Longrightarrow>
      (\<exists>i. ep_acceptor p = Ac_refused i) \<or> ep_acceptor p = Ac_break \<or> ep_acceptor p = Ac_returned"
    and "\<not> keeps_accepting p q \<Longrightarrow> ep_acceptor p = Ac_accept \<and> (ep_shut p \<or> ep_backlog p \<noteq> [])"
    and "keeps_accepting p q \<Longrightarrow> length (ep_backlog q) = length (ep_backlog p)
      \<or> (ep_acceptor q = ep_acceptor p \<and> length (ep_backlog q) = Suc (length (ep_backlog p)))"
  using assms by (cases, auto simp: keeps_accepting_def ep_ops split: if_splits)+

lemma loop_got_simps [simp]:
  "em_aw (loop_got x s) = em_aw s" "ep_backlog (em_pool (loop_got x s)) = ep_backlog (em_pool s)"
  "ep_shut (em_pool (loop_got x s)) = ep_shut (em_pool s)"
  by (cases x; simp add: loop_got_def)+

lemma conserved_pipe: "acc_conserved w \<Longrightarrow> aw_in w = aw_out w @ acc_pipe w"
  by (simp add: acc_conserved_def acc_pipe_def)

locale em_system = ep_system bc view
  for bc :: "('c, int) boost_channel" and view :: "'c \<Rightarrow> int fifo" +
  fixes lu :: liburing and self :: u64 and err :: int
  assumes room: "sq r = [] \<Longrightarrow> lu_sqe_available lu r" and accepted: "submits lu" and negative: "err < 0"
begin

text \<open>The steps of the acceptor are steps of \<open>Multishot_Acceptor\<close>.\<close>

lemma kernel_accept_step: "accept_req self w \<in> set (inflight (aw_ring w)) \<Longrightarrow> acc_step lu self w (kernel_accept self stays i w)"
  using as_more [of w self "int i" lu] as_last [of w self lu "int i"]
  by (cases stays) (simp_all add: kernel_accept_def accept_req_def)

lemma kernel_end_step: "accept_req self w \<in> set (inflight (aw_ring w)) \<Longrightarrow> acc_step lu self w (kernel_end self err w)"
  using as_last [of w self lu err] negative by (simp add: kernel_end_def accept_req_def)

lemma em_step_acc:
  assumes "em_step bc lu self err s s'"
  shows "acc_step lu self (em_aw s) (em_aw s') \<or> em_aw s' = em_aw s"
  using assms
proof cases
  case (ms_accept i "is" stays)
  then show ?thesis using kernel_accept_step by simp
next
  case ms_end
  then show ?thesis using kernel_end_step by simp
next
  case (ms_drain res flags cs a r woken)
  from as_drain [OF ms_drain(2,3)] show ?thesis by (simp add: ms_drain(1))
next
  case (ms_next fiber a x)
  from as_next [OF ms_next(4-6), of lu self] show ?thesis by (simp add: ms_next(1))
next
  case (ms_resume v)
  from as_resume [OF ms_resume(2), of lu self] show ?thesis by (simp add: ms_resume(1))
qed simp

lemma em_step_conserved: "em_step bc lu self err s s' \<Longrightarrow> acc_conserved (em_aw s) \<Longrightarrow> acc_conserved (em_aw s')"
  using em_step_acc acc_step_conserved by metis

text \<open>The loop after \<open>next\<close>: a connection is accepted, or the loop is left after the shutdown, or nothing the pool sees happens.\<close>

lemma loop_got_step:
  assumes "ep_inv view lim (em_proj s)" and "acc_conserved (em_aw s)" and "acc_conserved w" and "aw_in w = aw_in (em_aw s)"
    and "aw_out w = aw_out (em_aw s) @ got x" and "ep_acceptor (em_pool s) = Ac_accept" and "x = Nx_none \<Longrightarrow> ep_shut (em_pool s)"
  shows "ep_step bc (em_proj s) (em_proj (loop_got x (s\<lparr>em_aw := w\<rparr>))) \<or> em_proj (loop_got x (s\<lparr>em_aw := w\<rparr>)) = em_proj s"
proof -
  have pipe: "acc_pipe (em_aw s) = got x @ acc_pipe w"
    using conserved_pipe [OF assms(2)] conserved_pipe [OF assms(3)] assms(4,5) by simp
  show ?thesis
  proof (cases x)
    case (Nx_value fd)
    have b: "ep_backlog (em_proj s) = nat fd # map nat (acc_pipe w) @ ep_backlog (em_pool s)"
      using pipe by (simp add: em_proj_def Nx_value got_def)
    have "\<not> ep_shut (em_proj s)" using shut_no_backlog [OF assms(1)] b by auto
    then have "ep_step bc (em_proj s) (accept_conn (em_proj s))" using assms(6) b by (intro es_accept) (simp_all add: em_proj_def)
    moreover have "accept_conn (em_proj s) = em_proj (loop_got x (s\<lparr>em_aw := w\<rparr>))"
      using b by (simp add: accept_conn_def em_proj_def loop_got_def Nx_value queued_before_def)
    ultimately show ?thesis by simp
  next
    case Nx_none
    then have "ep_step bc (em_proj s) (accept_throws (em_proj s))" using assms(6,7) by (intro es_accept_throws) (simp_all add: em_proj_def)
    moreover have "accept_throws (em_proj s) = em_proj (loop_got x (s\<lparr>em_aw := w\<rparr>))"
      using pipe by (simp add: accept_throws_def em_proj_def loop_got_def Nx_none queued_before_def got_def)
    ultimately show ?thesis by simp
  qed (use pipe in \<open>simp_all add: em_proj_def loop_got_def got_def\<close>)
qed

lemma em_simulates:
  assumes "em_inv view lim self err s" and "em_step bc lu self err s s'"
  shows "ep_step bc (em_proj s) (em_proj s') \<or> em_proj s' = em_proj s"
proof -
  have inv: "ep_inv view lim (em_proj s)" and c: "acc_conserved (em_aw s)" and e: "acc_end_ok err (ep_shut (em_pool s)) (em_aw s)" and l: "loop_ok err s"
    using assms(1) by (simp_all add: em_inv_def)
  note c' = em_step_conserved [OF assms(2) c]
  show ?thesis using assms(2)
  proof cases
    case (ms_other p)
    then show ?thesis using other_step_before [of bc "em_pool s" p] by (simp add: em_proj_def keeps_accepting_def)
  next
    case (ms_accept i "is" stays)
    then show ?thesis by (cases stays) (simp_all add: em_proj_def acc_pipe_def kernel_accept_def queued_before_def)
  next
    case ms_end
    then show ?thesis using negative by (simp add: em_proj_def acc_pipe_def kernel_end_def)
  next
    case (ms_drain res flags cs a r woken)
    then show ?thesis using conserved_pipe [OF c] conserved_pipe [OF c'] by (simp add: em_proj_def)
  next
    case (ms_next fiber a x)
    have "ep_shut (em_pool s)" if "x = Nx_none"
      using ms_next(6) that e by (auto simp: acc_next_def acc_end_ok_def no_token_def split: list.splits if_splits)
    from loop_got_step [OF inv c _ _ _ ms_next(3) this, of "em_aw s'"] c' show ?thesis by (simp add: ms_next(1))
  next
    case (ms_resume v)
    have a: "ep_acceptor (em_pool s) = Ac_accept" using l ms_resume(2) by (simp add: loop_ok_def)
    have "ep_shut (em_pool s)" if "acc_next_resume v = Nx_none"
      using ms_resume(2) that e by (auto simp: acc_next_resume_def acc_end_ok_def split: if_splits)
    from loop_got_step [OF inv c _ _ _ a this, of "em_aw s'"] c' show ?thesis by (simp add: ms_resume(1))
  qed
qed

lemma em_step_once:
  assumes "em_inv view lim self err s" and "em_step bc lu self err s s'"
  shows "acc_once self (em_aw s')"
proof -
  have o: "acc_once self (em_aw s)" using assms(1) by (simp add: em_inv_def)
  show ?thesis using assms(2)
  proof cases
    case (ms_accept i "is" stays)
    then show ?thesis using once_accept [OF o] by simp
  next
    case ms_end
    then show ?thesis using once_end [OF o] by simp
  next
    case (ms_drain res flags cs a r woken)
    then show ?thesis using once_drain [OF o ms_drain(2) room accepted ms_drain(3)] by simp
  next
    case (ms_next fiber a x)
    have "acc_error a = acc_error (aw_acc (em_aw s))" "server_fd a = server_fd (aw_acc (em_aw s))"
      "acc_addr a = acc_addr (aw_acc (em_aw s))" "acc_addrlen a = acc_addrlen (aw_acc (em_aw s))"
      using ms_next(6) by (auto simp: acc_next_def no_token_def split: list.splits if_splits)
    then show ?thesis using o by (simp add: ms_next(1) acc_once_def reqs_def lasts_def accept_req_def)
  next
    case (ms_resume v)
    then show ?thesis using o by (simp add: acc_once_def reqs_def lasts_def accept_req_def)
  qed (use o in simp)
qed

lemma em_step_end:
  assumes "em_inv view lim self err s" and "em_step bc lu self err s s'"
  shows "acc_end_ok err (ep_shut (em_pool s')) (em_aw s')"
proof -
  have o: "acc_once self (em_aw s)" and e: "acc_end_ok err (ep_shut (em_pool s)) (em_aw s)" and c: "acc_conserved (em_aw s)"
    using assms(1) by (simp_all add: em_inv_def)
  show ?thesis using assms(2)
  proof cases
    case (ms_other p)
    then show ?thesis using e ep_shut_mono [OF ms_other(2)] by (auto simp: acc_end_ok_def)
  next
    case (ms_accept i "is" stays)
    then show ?thesis using e by (cases stays) (auto simp: acc_end_ok_def kernel_accept_def)
  next
    case ms_end
    then show ?thesis using e by (auto simp: acc_end_ok_def kernel_end_def)
  next
    case (ms_drain res flags cs a r woken)
    have op: "acc_error (aw_acc (em_aw s)) = 0" using o ms_drain(2) by (auto simp: acc_once_def)
    have w: "acc_waiter (aw_acc (em_aw s)) \<noteq> None \<Longrightarrow> pending_fds (aw_acc (em_aw s)) = []" using c by (simp add: acc_conserved_def)
    show ?thesis using ms_drain(2,3) e op w
      by (cases "acc_waiter (aw_acc (em_aw s))") (auto simp: ms_drain(1) acc_end_ok_def acc_complete_eval)
  next
    case (ms_next fiber a x)
    have "acc_error a = acc_error (aw_acc (em_aw s))"
      using ms_next(6) by (auto simp: acc_next_def no_token_def split: list.splits if_splits)
    then show ?thesis using e ms_next(5) by (auto simp: ms_next(1) acc_end_ok_def)
  next
    case (ms_resume v)
    then show ?thesis using e by (auto simp: acc_end_ok_def)
  qed
qed

lemma em_step_loop:
  assumes "em_inv view lim self err s" and "em_step bc lu self err s s'"
  shows "loop_ok err s'"
proof -
  have inv: "ep_inv view lim (em_proj s)" and o: "acc_once self (em_aw s)" and e: "acc_end_ok err (ep_shut (em_pool s)) (em_aw s)"
    and c: "acc_conserved (em_aw s)" and l: "loop_ok err s"
    using assms(1) by (simp_all add: em_inv_def)
  show ?thesis using assms(2)
  proof cases
    case (ms_other p)
    have k: "keeps_accepting (em_pool s) p" using ms_other(3) by (simp add: keeps_accepting_def)
    have "ep_acceptor (em_pool s) \<noteq> Ac_refused i" for i using acc_not_refused [OF inv] by (simp add: em_proj_def)
    then show ?thesis using l ep_step_acceptor(1) [OF ms_other(2) _ k] k by (auto simp: ms_other(1) loop_ok_def keeps_accepting_def)
  next
    case (ms_accept i "is" stays)
    then show ?thesis using l by (cases stays) (auto simp: loop_ok_def kernel_accept_def)
  next
    case ms_end
    then show ?thesis using l by (auto simp: loop_ok_def kernel_end_def)
  next
    case (ms_drain res flags cs a r woken)
    have "acc_error (aw_acc (em_aw s)) = 0" using o ms_drain(2) by (auto simp: acc_once_def)
    then show ?thesis using l ms_drain(3)
      by (cases "acc_waiter (aw_acc (em_aw s))") (auto simp: ms_drain(1) loop_ok_def acc_complete_eval)
  next
    case (ms_next fiber a x)
    show ?thesis
    proof (cases x)
      case (Nx_throw ex)
      then have "acc_error (aw_acc (em_aw s)) \<noteq> 0" "acc_ended (acc_error (aw_acc (em_aw s))) = Nx_throw ex" "a = aw_acc (em_aw s)"
        using ms_next(6) by (auto simp: acc_next_def no_token_def split: list.splits if_splits)
      then show ?thesis using ms_next(3-5) e by (auto simp: ms_next(1) Nx_throw loop_got_def loop_ok_def acc_end_ok_def acc_ended_def split: if_splits)
    qed (use ms_next l in \<open>auto simp: loop_got_def loop_ok_def acc_next_def no_token_def acc_ended_def split: list.splits if_splits\<close>)
  next
    case (ms_resume v)
    have n: "acc_waiter (aw_acc (em_aw s)) = None" using c ms_resume(2) by (auto simp: acc_conserved_def)
    have a: "ep_acceptor (em_pool s) = Ac_accept" using l ms_resume(2) by (simp add: loop_ok_def)
    have ve: "v < 0 \<Longrightarrow> v = err \<and> acc_error (aw_acc (em_aw s)) \<noteq> 0 \<and> pending_fds (aw_acc (em_aw s)) = []"
      using e ms_resume(2) by (simp add: acc_end_ok_def)
    show ?thesis using l n a ve ms_resume(2)
      by (auto simp: ms_resume(1) loop_got_def loop_ok_def acc_next_resume_def acc_ended_def)
  qed
qed

lemma em_step_inv:
  assumes "em_inv view lim self err s" and "em_step bc lu self err s s'"
  shows "em_inv view lim self err s'"
proof -
  have inv: "ep_inv view lim (em_proj s)" and c: "acc_conserved (em_aw s)" using assms(1) by (simp_all add: em_inv_def)
  have "ep_inv view lim (em_proj s')" using em_simulates [OF assms] ep_step_inv [OF inv] inv by metis
  then show ?thesis using em_step_conserved [OF assms(2) c] em_step_once [OF assms] em_step_end [OF assms] em_step_loop [OF assms]
    by (simp add: em_inv_def)
qed

end

subsection \<open>Termination\<close>

text \<open>What the steps of the acceptor lower: connections to accept, completions to drain, a value to take, a call of \<open>next\<close>, the end of the request.\<close>

definition em_stutter :: "'c echo_ms \<Rightarrow> nat" where
  "em_stutter s = 3 * length (ep_backlog (em_pool s)) + 2 * length (aw_cq (em_aw s)) + of_bool (aw_fut (em_aw s) \<noteq> None)
     + of_bool (em_left s = None \<and> ep_acceptor (em_pool s) = Ac_accept \<and> acc_waiter (aw_acc (em_aw s)) = None \<and> aw_fut (em_aw s) = None)
     + (if acc_error (aw_acc (em_aw s)) = 0 \<and> (\<forall>c \<in> set (aw_cq (em_aw s)). 0 \<le> fst c) then 3 else 0)"

context em_system
begin

lemma em_stutter_step:
  assumes "em_inv view lim self err s" and "em_step bc lu self err s s'"
  shows "em_stutter s' < em_stutter s \<or> ep_step bc (em_proj s) (em_proj s') \<and> em_stutter s' \<le> em_stutter s + 3"
proof -
  have o: "acc_once self (em_aw s)" and l: "loop_ok err s" using assms(1) by (simp_all add: em_inv_def)
  show ?thesis using assms(2)
  proof cases
    case (ms_other p)
    have k: "keeps_accepting (em_pool s) p" using ms_other(3) by (simp add: keeps_accepting_def)
    have "ep_step bc (em_proj s) (em_proj s')" using other_step_before [OF ms_other(2) k] by (simp add: ms_other(1) em_proj_def)
    moreover have "em_stutter s' \<le> em_stutter s + 3"
      using ep_step_acceptor(3) [OF ms_other(2) k] by (auto simp: ms_other(1) em_stutter_def)
    ultimately show ?thesis by blast
  next
    case (ms_accept i "is" stays)
    then show ?thesis by (cases stays) (simp_all add: em_stutter_def kernel_accept_def)
  next
    case ms_end
    then show ?thesis using in_flight_open [OF o ms_end(2)] negative by (simp add: em_stutter_def kernel_end_def)
  next
    case (ms_drain res flags cs a r woken)
    have "acc_error (aw_acc (em_aw s)) = 0" using o ms_drain(2) by (auto simp: acc_once_def)
    then show ?thesis using ms_drain(2,3)
      by (cases "acc_waiter (aw_acc (em_aw s))") (auto simp: ms_drain(1) em_stutter_def acc_complete_eval)
  next
    case (ms_next fiber a x)
    have "acc_error a = acc_error (aw_acc (em_aw s))"
      using ms_next(6) by (auto simp: acc_next_def no_token_def split: list.splits if_splits)
    moreover have "x = Nx_wait \<Longrightarrow> acc_waiter a \<noteq> None"
      using ms_next(6) by (auto simp: acc_next_def acc_ended_def split: list.splits if_splits)
    ultimately show ?thesis using ms_next(2-5) by (cases x) (auto simp: ms_next(1) em_stutter_def loop_got_def)
  next
    case (ms_resume v)
    have "acc_next_resume v \<noteq> Nx_wait" by (simp add: acc_next_resume_def acc_ended_def)
    then show ?thesis using ms_resume(2) by (cases "acc_next_resume v") (auto simp: ms_resume(1) em_stutter_def loop_got_def)
  qed
qed

text \<open>The acceptor goes on when a connection is waiting or the socket was shut down.\<close>

lemma em_accepting:
  assumes "em_inv view lim self err s" and "em_left s = None" and "ep_acceptor (em_pool s) = Ac_accept"
    and "ep_shut (em_pool s) \<or> ep_backlog (em_proj s) \<noteq> []"
  shows "\<exists>s'. em_step bc lu self err s s'"
proof -
  have o: "acc_once self (em_aw s)" and c: "acc_conserved (em_aw s)" using assms(1) by (simp_all add: em_inv_def)
  let ?w = "em_aw s"
  show ?thesis
  proof (cases "aw_fut ?w")
    case (Some v)
    from ms_resume [OF this] show ?thesis by blast
  next
    case fut: None
    show ?thesis
    proof (cases "acc_waiter (aw_acc ?w)")
      case None
      obtain a x where "acc_next 0 no_token (aw_acc ?w) = (a, x)" by (cases "acc_next 0 no_token (aw_acc ?w)")
      from ms_next [OF assms(2,3) None fut this] show ?thesis by blast
    next
      case (Some f)
      then have p: "pending_fds (aw_acc ?w) = []" "acc_error (aw_acc ?w) = 0" using c by (simp_all add: acc_conserved_def)
      show ?thesis
      proof (cases "aw_cq ?w")
        case Nil
        then have r: "accept_req self ?w \<in> set (inflight (aw_ring ?w))" using o p(2) by (simp add: in_flight_reqs acc_once_def lasts_def)
        show ?thesis
        proof (cases "ep_shut (em_pool s)")
          case True
          from ms_end [OF r this] show ?thesis by blast
        next
          case False
          then have "ep_backlog (em_pool s) \<noteq> []" using assms(4) p fut Nil by (simp add: em_proj_def acc_pipe_def)
          then obtain i "is" where "ep_backlog (em_pool s) = i # is" by (cases "ep_backlog (em_pool s)") auto
          from ms_accept [OF r this False] show ?thesis by blast
        qed
      next
        case (Cons x cs)
        then have "aw_cq ?w = (fst x, snd x) # cs" by simp
        from ms_drain [OF this acc_complete_eval] show ?thesis by blast
      qed
    qed
  qed
qed

lemma em_progress:
  assumes "em_inv view lim self err s" and "err = - EINVAL \<or> err = - ECANCELED" and "\<not> ep_finished (em_pool s)"
  shows "\<exists>s'. em_step bc lu self err s s'"
proof -
  have inv: "ep_inv view lim (em_proj s)" and l: "loop_ok err s" using assms(1) by (simp_all add: em_inv_def)
  from ep_progress [OF inv] assms(3) obtain q where q: "ep_step bc (em_proj s) q" by (auto simp: em_proj_def)
  show ?thesis
  proof (cases "keeps_accepting (em_proj s) q")
    case True
    from other_step_behind [OF q [unfolded em_proj_def] True [unfolded em_proj_def]] show ?thesis
      using ms_other by (fastforce simp: keeps_accepting_def)
  next
    case False
    have "em_left s = None" using l assms(2) by (auto simp: loop_ok_def)
    then show ?thesis using em_accepting [OF assms(1)] ep_step_acceptor(2) [OF q False] by (simp add: em_proj_def)
  qed
qed

lemma em_finished_step:
  assumes "em_inv view lim self err s" and "ep_finished (em_pool s)"
  shows "\<not> em_step bc lu self err s s'"
proof
  assume st: "em_step bc lu self err s s'"
  have inv: "ep_inv view lim (em_proj s)" and o: "acc_once self (em_aw s)" and l: "loop_ok err s" using assms(1) by (simp_all add: em_inv_def)
  have a: "ep_acceptor (em_pool s) = Ac_returned" using assms(2) by (simp add: ep_finished_def)
  then have e: "acc_error (aw_acc (em_aw s)) \<noteq> 0" using l by (simp add: loop_ok_def)
  then have r: "accept_req self (em_aw s) \<notin> set (inflight (aw_ring (em_aw s)))" "aw_cq (em_aw s) = []"
    using o by (auto simp: acc_once_def in_flight_reqs)
  from st show False
  proof cases
    case (ms_other p)
    from other_step_before [OF ms_other(2)] ms_other(3) have "ep_step bc (em_proj s) (em_proj s')"
      by (simp add: ms_other(1) em_proj_def keeps_accepting_def)
    then show ?thesis using ep_finished_step [OF inv] assms(2) by (simp add: em_proj_def)
  qed (use r a l in \<open>auto simp: loop_ok_def\<close>)
qed

end

sublocale em_system \<subseteq> em: ranked_simulation "em_step bc lu self err" "em_inv view lim self err" "ep_step bc" em_proj
    "ep_inv view lim" "ep_rank view" ep_finished em_stutter 3 for lim
proof unfold_locales
  fix s s'
  assume inv: "em_inv view lim self err s"
  then show "ep_inv view lim (em_proj s)" by (simp add: em_inv_def)
  assume st: "em_step bc lu self err s s'"
  show "em_inv view lim self err s'" by (rule em_step_inv [OF inv st])
  show "ep_step bc (em_proj s) (em_proj s') \<or> em_proj s' = em_proj s" by (rule em_simulates [OF inv st])
  note t = em_stutter_step [OF inv st]
  show "em_stutter s' \<le> em_stutter s + 3" using t by auto
  show "\<not> ep_step bc (em_proj s) (em_proj s') \<Longrightarrow> em_stutter s' < em_stutter s" using t by blast
qed

sublocale em_system \<subseteq> emr: ranked_system "em_step bc lu self err" "em_inv view lim self err" "\<lambda>s. 4 * ep_rank view (em_proj s) + em_stutter s"
    "\<lambda>s. \<nexists>s'. em_step bc lu self err s s'" for lim
  using em.whole_rank_step by unfold_locales (auto simp: numeral_eq_Suc)

interpretation ref_em: em_system ref_boost "channel_view ref_boost rc_items rc_size" "sq_of_size 8" 4096 "- EINVAL"
  unfolding em_system_def em_system_axioms_def using ref_ep.ep_system_axioms by simp

lemma em_start_once:
  assumes "multishot_acceptor_ctor lu self fd addr addrlen (Some r) = Ret (Some r', Inr a)" and "\<forall>e \<in> set (inflight r @ sq r). sqe_user_data e \<noteq> self"
  shows "acc_once self (acc_start a r')"
proof -
  have "sqe_user_data (accept_sqe fd addr addrlen self blank_sqe) = self" by (simp add: accept_sqe_def)
  then have "accept_sqe fd addr addrlen self blank_sqe \<notin> set (inflight r @ sq r)" using assms(2) by blast
  then have none: "filter (\<lambda>e. e = accept_sqe fd addr addrlen self blank_sqe) (inflight r @ sq r) = []" by (auto simp: filter_empty_conv)
  show ?thesis
    by (rule acc_ctor_cases [OF assms(1)]) (use none in \<open>simp add: acc_once_def acc_start_def reqs_def lasts_def accept_req_def\<close>)
qed

lemma em_start_inv:
  assumes "view ch = \<lparr>f_items = [], f_limit = lim, f_closed = False\<rparr>" and "0 < lim"
    and "multishot_acceptor_ctor lu self fd addr addrlen (Some r) = Ret (Some r', Inr a)" and "\<forall>e \<in> set (inflight r @ sq r). sqe_user_data e \<noteq> self"
  shows "em_inv view lim self err (em_start ch a r')" and "em_stutter (em_start ch a r') = 4" and "em_proj (em_start ch a r') = ep_start ch"
proof -
  obtain "a = \<lparr>server_fd = fd, acc_addr = addr, acc_addrlen = addrlen, pending_fds = [], acc_waiter = None, acc_error = 0\<rparr>" by (rule acc_ctor_cases [OF assms(3)])
  note a = this
  show p: "em_proj (em_start ch a r') = ep_start ch" by (simp add: em_proj_def em_start_def acc_pipe_def acc_start_def a queued_before_def)
  show "em_inv view lim self err (em_start ch a r')"
    using ep_start_inv [of view ch lim, OF assms(1,2)] em_start_once [OF assms(3,4)] p
    by (simp add: em_inv_def em_start_def acc_conserved_def acc_end_ok_def loop_ok_def ep_start_def) (simp add: acc_start_def a)
  show "em_stutter (em_start ch a r') = 4" by (simp add: em_stutter_def em_start_def ep_start_def acc_start_def a)
qed

text \<open>What the invariant says once an exception has left the accept loop.\<close>

lemma em_inv_left:
  assumes "em_inv view lim self err s" and "em_left s \<noteq> None" and "w < k_workers"
  shows "\<not> f_closed (view (ep_ch (em_pool s)))" and "ep_worker (em_pool s) w \<noteq> Wk_returned" and "err \<noteq> - EINVAL" and "err \<noteq> - ECANCELED"
proof -
  have a: "ep_acceptor (em_pool s) = Ac_accept" and "err \<noteq> - EINVAL" "err \<noteq> - ECANCELED"
    using assms(1,2) by (auto simp: em_inv_def loop_ok_def)
  then show "err \<noteq> - EINVAL" "err \<noteq> - ECANCELED" by simp_all
  have q: "queue_ok view lim (em_proj s)" using assms(1) by (simp add: em_inv_def ep_inv_def)
  then show "\<not> f_closed (view (ep_ch (em_pool s)))" using a by (simp add: queue_ok_def em_proj_def)
  then show "ep_worker (em_pool s) w \<noteq> Wk_returned" using q assms(3) by (auto simp: queue_ok_def em_proj_def)
qed

context em_system
begin

lemma em_left_stays:
  assumes "em_inv view lim self err s" and "(em_step bc lu self err)\<^sup>*\<^sup>* s s'" and "em_left s \<noteq> None"
  shows "em_left s' \<noteq> None"
  using assms(2)
proof (induction rule: rtranclp_induct)
  case (step y z)
  have "em_inv view lim self err y" by (rule em.run_keeps [OF step.hyps(1) assms(1)])
  then have l: "loop_ok err y" by (simp add: em_inv_def)
  from step.hyps(2) show ?case
  proof cases
    case (ms_resume v)
    then show ?thesis using l step.IH by (simp add: loop_ok_def)
  qed (use step.IH in simp_all)
qed (rule assms(3))

lemma em_run:
  assumes "view ch = \<lparr>f_items = [], f_limit = lim, f_closed = False\<rparr>" and "0 < lim"
    and "multishot_acceptor_ctor lu self fd addr addrlen (Some r) = Ret (Some r', Inr a)" and "\<forall>e \<in> set (inflight r @ sq r). sqe_user_data e \<noteq> self"
    and "(em_step bc lu self err ^^ k) (em_start ch a r') s"
  shows "em_inv view lim self err s" and "k \<le> 1628"
    and "err = - EINVAL \<or> err = - ECANCELED \<Longrightarrow> (\<nexists>s'. em_step bc lu self err s s') \<longleftrightarrow> ep_finished (em_pool s)"
    and "em_left s \<noteq> None \<Longrightarrow> (em_step bc lu self err)\<^sup>*\<^sup>* s s' \<Longrightarrow> w < k_workers \<Longrightarrow>
      \<not> f_closed (view (ep_ch (em_pool s'))) \<and> ep_worker (em_pool s') w \<noteq> Wk_returned"
    and "err = - EINVAL \<or> err = - ECANCELED \<Longrightarrow> \<exists>s'. (em_step bc lu self err)\<^sup>*\<^sup>* s s' \<and> ep_finished (em_pool s')"
proof -
  note st = em_start_inv [of view ch lim, OF assms(1-4)]
  show inv: "em_inv view lim self err s" by (rule em.steps_keep [OF assms(5) st(1)])
  show "k \<le> 1628" using emr.run_bound [OF assms(5) st(1)] by (simp add: st(2,3) ep_start_rank [of view ch lim, OF assms(1)])
  have fin: "(\<nexists>s'. em_step bc lu self err v s') \<longleftrightarrow> ep_finished (em_pool v)"
    if "err = - EINVAL \<or> err = - ECANCELED" "em_inv view lim self err v" for v
    using em_progress [OF that(2,1)] em_finished_step [OF that(2)] by blast
  then show "err = - EINVAL \<or> err = - ECANCELED \<Longrightarrow> (\<nexists>s'. em_step bc lu self err s s') \<longleftrightarrow> ep_finished (em_pool s)" using inv by blast
  show "\<not> f_closed (view (ep_ch (em_pool s'))) \<and> ep_worker (em_pool s') w \<noteq> Wk_returned"
    if "em_left s \<noteq> None" "(em_step bc lu self err)\<^sup>*\<^sup>* s s'" "w < k_workers"
    using em_inv_left(1,2) [OF em.run_keeps [OF that(2) inv] em_left_stays [OF inv that(2,1)] that(3)] by simp
  show "\<exists>s'. (em_step bc lu self err)\<^sup>*\<^sup>* s s' \<and> ep_finished (em_pool s')" if "err = - EINVAL \<or> err = - ECANCELED"
    using emr.final_reachable [OF inv] fin [OF that] em.run_keeps [OF _ inv] by meson
qed

end

subsection \<open>The server and its clients finish\<close>

text \<open>
  C14. The server with a multishot acceptor. Over any Boost channel with the documented
  behaviour, every interleaving of the kernel's completions, the acceptor, the accept loop, the
  workers and the clients takes at most 1628 steps. No descriptor is closed twice, and every
  reply is a non-empty part of the client's own greeting. If the shutdown ends the accept
  request with \<open>EINVAL\<close> or \<open>ECANCELED\<close>, no interleaving is stuck before all have returned; then every
  connection has been closed, the channel is closed and drained, every client has a reply and
  the destructor of the acceptor has nothing left to do. With any other error \<open>next\<close> throws out of
  the loop, which has no handler: from then on the channel stays open and no worker returns.
\<close>
theorem echo_multishot_finishes:
  assumes "boost_buffered_channel bc items ring_size" and "channel_new bc ep_capacity = Ret ch"
    and "\<forall>r. sq r = [] \<longrightarrow> lu_sqe_available lu r" and "submits lu" and "err < 0"
    and "multishot_acceptor_ctor lu self fd addr addrlen (Some r) = Ret (Some r', Inr a)" and "\<forall>e \<in> set (inflight r @ sq r). sqe_user_data e \<noteq> self"
    and "(em_step bc lu self err ^^ k) (em_start ch a r') s"
  shows "k \<le> 1628 \<and> distinct (ep_closed (em_pool s))
    \<and> (\<forall>i t. i < k_clients \<and> reply (ep_conn (em_pool s) i) = Some t \<longrightarrow> t \<noteq> [] \<and> subseq t (greeting i))
    \<and> (err = - EINVAL \<or> err = - ECANCELED \<longrightarrow> ((\<nexists>s'. em_step bc lu self err s s') \<longleftrightarrow> ep_finished (em_pool s)))
    \<and> (ep_finished (em_pool s) \<longrightarrow> set (ep_closed (em_pool s)) = {..<k_clients} \<and> items (ep_ch (em_pool s)) = []
         \<and> channel_is_closed bc (ep_ch (em_pool s)) \<and> (\<forall>i < k_clients. reply (ep_conn (em_pool s) i) \<noteq> None)
         \<and> multishot_acceptor_dtor e (aw_acc (em_aw s)) th = Ret ([], aw_acc (em_aw s), th, Dt_done))
    \<and> (em_left s \<noteq> None \<longrightarrow> (\<forall>s' w. (em_step bc lu self err)\<^sup>*\<^sup>* s s' \<and> w < k_workers \<longrightarrow>
         \<not> channel_is_closed bc (ep_ch (em_pool s')) \<and> ep_worker (em_pool s') w \<noteq> Wk_returned))"
proof -
  let ?v = "channel_view bc items ring_size"
  have sys: "em_system bc ?v lu err"
    unfolding em_system_def em_system_axioms_def using ep_system_of_boost [OF assms(1)] assms(3-5) by simp
  have "bit_ceil (Suc ep_capacity) = 16" using bit_ceil_Suc_power [of 3] by (simp add: ep_capacity_def)
  moreover have "1 \<le> ep_capacity" "ep_capacity < 2 ^ 63" by (simp_all add: ep_capacity_def)
  ultimately have new: "?v ch = \<lparr>f_items = [], f_limit = 15, f_closed = False\<rparr>"
    using boost_buffered_channel.new_channel [OF assms(1), of ep_capacity] assms(2) by fastforce
  note run = em_system.em_run [OF sys new zero_less_numeral assms(6-8)]
  have inv: "ep_inv ?v 15 (em_proj s)" and l: "loop_ok err s" using run(1) by (simp_all add: em_inv_def)
  have fin: "set (ep_closed (em_pool s)) = {..<k_clients} \<and> items (ep_ch (em_pool s)) = [] \<and> channel_is_closed bc (ep_ch (em_pool s))
      \<and> (\<forall>i < k_clients. reply (ep_conn (em_pool s) i) \<noteq> None)
      \<and> multishot_acceptor_dtor e (aw_acc (em_aw s)) th = Ret ([], aw_acc (em_aw s), th, Dt_done)" if "ep_finished (em_pool s)"
    using ep_inv_finished [OF inv] that l
    by (simp add: em_proj_def channel_view_def channel_is_closed_def ep_finished_def loop_ok_def multishot_acceptor_dtor_def acc_dtor_ended_def)
  have left: "\<not> channel_is_closed bc (ep_ch (em_pool s')) \<and> ep_worker (em_pool s') w \<noteq> Wk_returned"
    if "em_left s \<noteq> None" "(em_step bc lu self err)\<^sup>*\<^sup>* s s'" "w < k_workers" for s' w
    using run(4) [OF that] by (simp add: channel_view_def channel_is_closed_def)
  show ?thesis
  proof (intro conjI)
    show "distinct (ep_closed (em_pool s))" using inv by (auto simp: ep_inv_def placed_def em_proj_def)
    show "\<forall>i t. i < k_clients \<and> reply (ep_conn (em_pool s) i) = Some t \<longrightarrow> t \<noteq> [] \<and> subseq t (greeting i)"
      using ep_inv_reply [OF inv] unfolding em_proj_def queued_before_simps by blast
  qed (use run(2,3) fin left in \<open>blast+\<close>)
qed

theorem echo_multishot_finishes_witness:
  "\<exists>k s. (em_step ref_boost (sq_of_size 8) 4096 (- EINVAL) ^^ k) (em_start empty_queue example_acceptor example_acc_ring) s
     \<and> set (ep_closed (em_pool s)) = {..<8}"
proof -
  let ?R = "em_step ref_boost (sq_of_size 8) 4096 (- EINVAL)"
  let ?s0 = "em_start empty_queue example_acceptor example_acc_ring"
  have new: "channel_new ref_boost ep_capacity = Ret empty_queue" by (simp add: ep_capacity_def new_empty_queue)
  have e: "\<forall>e \<in> set (inflight empty_uring @ sq empty_uring). sqe_user_data e \<noteq> 4096" by (simp add: empty_uring_def)
  have "(?R ^^ 0) ?s0 ?s0" by simp
  from ref_em.em_run(5) [OF empty_queue_view _ example_acc_ctor e this] obtain s where s: "?R\<^sup>*\<^sup>* ?s0 s" "ep_finished (em_pool s)" by auto
  then obtain k where k: "(?R ^^ k) ?s0 s" using rtranclp_imp_relpowp by metis
  have neg: "- EINVAL < 0" and room: "\<forall>r. sq r = [] \<longrightarrow> lu_sqe_available (sq_of_size 8) r" by simp_all
  from echo_multishot_finishes [OF ref_bc.boost_buffered_channel_axioms new room submits_sq_of_size neg example_acc_ctor e k,
      where e = "example_env 8" and th = None] s(2)
  have "set (ep_closed (em_pool s)) = {..<8}" unfolding k_clients_def by blast
  with k show ?thesis by blast
qed

end
