(* ===== verification/Echo_File.thy ===== *)
theory Echo_File
  imports Echo_Pool
begin

text \<open>
  \<open>examples/echo_to_file.cpp\<close>: an accept loop, four workers and six clients; a worker receives what
  a client sends and writes it into a log file of the connection's own. As in \<open>Echo_Pool\<close> every call
  that can suspend is a step and descriptors of connections are named by their client; a file
  is named by the number its connection drew.

  The kernel is the environment. A socket takes and gives a non-empty part of what there is;
  the end of the stream is seen once everything was received and the client closed. Opening a
  log succeeds and truncates it. A write takes a non-empty part of its buffer or fails; it goes
  to offset \<open>0\<close>, which is what \<open>async_write\<close> puts into its request.
\<close>

subsection \<open>State\<close>

definition ef_workers :: nat where "ef_workers = 4"
definition ef_clients :: nat where "ef_clients = 6"
definition ef_capacity :: nat where "ef_capacity = 8"
definition ef_buf_size :: nat where "ef_buf_size = 256"

definition log_message :: "nat \<Rightarrow> string" where
  "log_message i = greeting i @ [CHR 0x0A]"

datatype file_client = Fc_connect | Fc_send | Fc_close | Fc_returned

text \<open>A worker: in \<open>pop\<close>, or in \<open>handle_connection\<close> with its descriptor, then also its number, then also the bytes to write.\<close>

datatype file_worker = Fw_pop | Fw_id nat | Fw_open nat nat | Fw_recv nat nat | Fw_write nat nat string
  | Fw_close_file nat nat | Fw_close_conn nat nat | Fw_last nat | Fw_returned

text \<open>
  \<open>fs_log\<close> are the contents of the log files. The last five fields are histories: what each client's
  socket took, what was received of it, the client of each number, the writes to each file
  with the number of bytes each took, and the files a write to which failed.
\<close>

record 'c file_server =
  fs_ch :: 'c
  fs_backlog :: "nat list"
  fs_shut :: bool
  fs_next_id :: nat
  fs_client :: "nat \<Rightarrow> file_client"
  fs_acceptor :: accept_loop
  fs_worker :: "nat \<Rightarrow> file_worker"
  fs_stream :: "nat \<Rightarrow> string"
  fs_log :: "nat \<Rightarrow> string option"
  fs_files_closed :: "nat list"
  fs_conns_closed :: "nat list"
  fs_sent :: "nat \<Rightarrow> string"
  fs_received :: "nat \<Rightarrow> string"
  fs_of :: "nat \<Rightarrow> nat"
  fs_writes :: "nat \<Rightarrow> (string \<times> nat) list"
  fs_failed :: "nat \<Rightarrow> bool"

definition ef_start :: "'c \<Rightarrow> 'c file_server" where
  "ef_start ch = \<lparr>fs_ch = ch, fs_backlog = [], fs_shut = False, fs_next_id = 0, fs_client = (\<lambda>_. Fc_connect), fs_acceptor = Ac_accept,
     fs_worker = (\<lambda>_. Fw_pop), fs_stream = (\<lambda>_. []), fs_log = (\<lambda>_. None), fs_files_closed = [], fs_conns_closed = [],
     fs_sent = (\<lambda>_. []), fs_received = (\<lambda>_. []), fs_of = (\<lambda>_. 0), fs_writes = (\<lambda>_. []), fs_failed = (\<lambda>_. False)\<rparr>"

definition set_fc :: "nat \<Rightarrow> file_client \<Rightarrow> 'c file_server \<Rightarrow> 'c file_server" where
  "set_fc i ph s = s\<lparr>fs_client := (fs_client s)(i := ph)\<rparr>"

definition set_fw :: "nat \<Rightarrow> file_worker \<Rightarrow> 'c file_server \<Rightarrow> 'c file_server" where
  "set_fw w ph s = s\<lparr>fs_worker := (fs_worker s)(w := ph)\<rparr>"

subsection \<open>The clients\<close>

definition fc_connect :: "nat \<Rightarrow> 'c file_server \<Rightarrow> 'c file_server" where
  "fc_connect i s = (set_fc i Fc_send s)\<lparr>fs_backlog := fs_backlog s @ [i]\<rparr>"

definition fc_send :: "nat \<Rightarrow> nat \<Rightarrow> 'c file_server \<Rightarrow> 'c file_server" where
  "fc_send i n s = (set_fc i Fc_close s)\<lparr>fs_stream := (fs_stream s)(i := take n (log_message i)), fs_sent := (fs_sent s)(i := take n (log_message i))\<rparr>"

definition fc_close :: "nat \<Rightarrow> 'c file_server \<Rightarrow> 'c file_server" where
  "fc_close i s = set_fc i Fc_returned s"

subsection \<open>The accept loop\<close>

definition fa_accept :: "'c file_server \<Rightarrow> 'c file_server" where
  "fa_accept s = s\<lparr>fs_acceptor := Ac_push (hd (fs_backlog s)), fs_backlog := tl (fs_backlog s)\<rparr>"

definition fa_throws :: "'c file_server \<Rightarrow> 'c file_server" where
  "fa_throws s = s\<lparr>fs_acceptor := Ac_break\<rparr>"

definition fa_push :: "nat \<Rightarrow> channel_op_status \<Rightarrow> 'c \<Rightarrow> 'c file_server \<Rightarrow> 'c file_server" where
  "fa_push i st ch' s = s\<lparr>fs_ch := ch', fs_acceptor := (if st = Ch_success then Ac_accept else Ac_refused i)\<rparr>"

definition fa_refused :: "nat \<Rightarrow> 'c file_server \<Rightarrow> 'c file_server" where
  "fa_refused i s = s\<lparr>fs_conns_closed := fs_conns_closed s @ [i], fs_acceptor := Ac_break\<rparr>"

definition fa_end :: "('c, int) boost_channel \<Rightarrow> 'c file_server \<Rightarrow> 'c file_server" where
  "fa_end bc s = s\<lparr>fs_ch := channel_close bc (fs_ch s), fs_acceptor := Ac_returned\<rparr>"

subsection \<open>The workers\<close>

definition fw_pop :: "nat \<Rightarrow> channel_op_status \<Rightarrow> int option \<Rightarrow> 'c \<Rightarrow> 'c file_server \<Rightarrow> 'c file_server" where
  "fw_pop w st v ch' s = (set_fw w (if st = Ch_success then Fw_id (nat (case v of Some fd \<Rightarrow> fd | None \<Rightarrow> 0)) else Fw_returned) s)\<lparr>fs_ch := ch'\<rparr>"

text \<open>\<open>handle_connection\<close>, from \<open>g_next_id.fetch_add(1)\<close> on.\<close>

definition fw_fetch_id :: "nat \<Rightarrow> nat \<Rightarrow> 'c file_server \<Rightarrow> 'c file_server" where
  "fw_fetch_id w i s = (set_fw w (Fw_open i (fs_next_id s)) s)\<lparr>fs_next_id := fs_next_id s + 1, fs_of := (fs_of s)(fs_next_id s := i)\<rparr>"

definition fw_open :: "nat \<Rightarrow> nat \<Rightarrow> nat \<Rightarrow> 'c file_server \<Rightarrow> 'c file_server" where
  "fw_open w i d s = (set_fw w (Fw_recv i d) s)\<lparr>fs_log := (fs_log s)(d \<mapsto> [])\<rparr>"

definition fw_recv :: "nat \<Rightarrow> nat \<Rightarrow> nat \<Rightarrow> nat \<Rightarrow> 'c file_server \<Rightarrow> 'c file_server" where
  "fw_recv w i d n s = (set_fw w (Fw_write i d (take n (fs_stream s i))) s)\<lparr>fs_stream := (fs_stream s)(i := drop n (fs_stream s i)),
     fs_received := (fs_received s)(i := fs_received s i @ take n (fs_stream s i))\<rparr>"

text \<open>A write of the first \<open>n\<close> bytes of a buffer at offset \<open>0\<close>.\<close>

definition pwrite0 :: "nat \<Rightarrow> string \<Rightarrow> string \<Rightarrow> string" where
  "pwrite0 n part c = take n part @ drop n c"

definition fw_write :: "nat \<Rightarrow> nat \<Rightarrow> nat \<Rightarrow> string \<Rightarrow> nat \<Rightarrow> 'c file_server \<Rightarrow> 'c file_server" where
  "fw_write w i d part n s = (set_fw w (Fw_recv i d) s)\<lparr>fs_log := (fs_log s)(d := map_option (pwrite0 n part) (fs_log s d)),
     fs_writes := (fs_writes s)(d := fs_writes s d @ [(part, n)])\<rparr>"

text \<open>The two ways out of the loop: the end of the stream, and the handler.\<close>

definition fw_end :: "nat \<Rightarrow> nat \<Rightarrow> nat \<Rightarrow> 'c file_server \<Rightarrow> 'c file_server" where
  "fw_end w i d s = set_fw w (Fw_close_file i d) s"

definition fw_fails :: "nat \<Rightarrow> nat \<Rightarrow> nat \<Rightarrow> 'c file_server \<Rightarrow> 'c file_server" where
  "fw_fails w i d s = (set_fw w (Fw_close_file i d) s)\<lparr>fs_failed := (fs_failed s)(d := True)\<rparr>"

definition fw_close_file :: "nat \<Rightarrow> nat \<Rightarrow> nat \<Rightarrow> 'c file_server \<Rightarrow> 'c file_server" where
  "fw_close_file w i d s = (set_fw w (Fw_close_conn i d) s)\<lparr>fs_files_closed := fs_files_closed s @ [d]\<rparr>"

definition fw_close_conn :: "nat \<Rightarrow> nat \<Rightarrow> nat \<Rightarrow> 'c file_server \<Rightarrow> 'c file_server" where
  "fw_close_conn w i d s = (set_fw w (Fw_last d) s)\<lparr>fs_conns_closed := fs_conns_closed s @ [i]\<rparr>"

definition fw_last :: "nat \<Rightarrow> nat \<Rightarrow> 'c file_server \<Rightarrow> 'c file_server" where
  "fw_last w d s = (set_fw w Fw_pop s)\<lparr>fs_shut := (if d = ef_clients - 1 then True else fs_shut s)\<rparr>"

lemmas ef_ops = fc_connect_def fc_send_def fc_close_def fa_accept_def fa_throws_def fa_push_def fa_refused_def fa_end_def fw_pop_def
  fw_fetch_id_def fw_open_def fw_recv_def fw_write_def fw_end_def fw_fails_def fw_close_file_def fw_close_conn_def fw_last_def set_fc_def set_fw_def

inductive ef_step :: "('c, int) boost_channel \<Rightarrow> 'c file_server \<Rightarrow> 'c file_server \<Rightarrow> bool" for bc :: "('c, int) boost_channel" where
  fr_connect: "i < ef_clients \<Longrightarrow> fs_client s i = Fc_connect \<Longrightarrow> \<not> fs_shut s \<Longrightarrow> ef_step bc s (fc_connect i s)"
| fr_send: "i < ef_clients \<Longrightarrow> fs_client s i = Fc_send \<Longrightarrow> 0 < n \<Longrightarrow> n \<le> length (log_message i) \<Longrightarrow> ef_step bc s (fc_send i n s)"
| fr_close: "i < ef_clients \<Longrightarrow> fs_client s i = Fc_close \<Longrightarrow> ef_step bc s (fc_close i s)"
| fr_accept: "fs_acceptor s = Ac_accept \<Longrightarrow> fs_backlog s \<noteq> [] \<Longrightarrow> \<not> fs_shut s \<Longrightarrow> ef_step bc s (fa_accept s)"
| fr_accept_throws: "fs_acceptor s = Ac_accept \<Longrightarrow> fs_shut s \<Longrightarrow> ef_step bc s (fa_throws s)"
| fr_push: "fs_acceptor s = Ac_push i \<Longrightarrow> channel_push bc (fs_ch s) (int i) = Ret (st, ch') \<Longrightarrow> ef_step bc s (fa_push i st ch' s)"
| fr_refused: "fs_acceptor s = Ac_refused i \<Longrightarrow> ef_step bc s (fa_refused i s)"
| fr_end: "fs_acceptor s = Ac_break \<Longrightarrow> ef_step bc s (fa_end bc s)"
| fr_pop: "w < ef_workers \<Longrightarrow> fs_worker s w = Fw_pop \<Longrightarrow> channel_pop bc (fs_ch s) = Ret (st, v, ch') \<Longrightarrow> ef_step bc s (fw_pop w st v ch' s)"
| fr_fetch: "w < ef_workers \<Longrightarrow> fs_worker s w = Fw_id i \<Longrightarrow> ef_step bc s (fw_fetch_id w i s)"
| fr_open: "w < ef_workers \<Longrightarrow> fs_worker s w = Fw_open i d \<Longrightarrow> ef_step bc s (fw_open w i d s)"
| fr_wrecv: "w < ef_workers \<Longrightarrow> fs_worker s w = Fw_recv i d \<Longrightarrow> 0 < n \<Longrightarrow> n \<le> length (fs_stream s i) \<Longrightarrow> n \<le> ef_buf_size \<Longrightarrow>
     ef_step bc s (fw_recv w i d n s)"
| fr_wend: "w < ef_workers \<Longrightarrow> fs_worker s w = Fw_recv i d \<Longrightarrow> fs_stream s i = [] \<Longrightarrow> fs_client s i = Fc_returned \<Longrightarrow> ef_step bc s (fw_end w i d s)"
| fr_wwrite: "w < ef_workers \<Longrightarrow> fs_worker s w = Fw_write i d part \<Longrightarrow> 0 < n \<Longrightarrow> n \<le> length part \<Longrightarrow> ef_step bc s (fw_write w i d part n s)"
| fr_wfail: "w < ef_workers \<Longrightarrow> fs_worker s w = Fw_write i d part \<Longrightarrow> ef_step bc s (fw_fails w i d s)"
| fr_wclose_file: "w < ef_workers \<Longrightarrow> fs_worker s w = Fw_close_file i d \<Longrightarrow> ef_step bc s (fw_close_file w i d s)"
| fr_wclose_conn: "w < ef_workers \<Longrightarrow> fs_worker s w = Fw_close_conn i d \<Longrightarrow> ef_step bc s (fw_close_conn w i d s)"
| fr_wlast: "w < ef_workers \<Longrightarrow> fs_worker s w = Fw_last d \<Longrightarrow> ef_step bc s (fw_last w d s)"

definition ef_finished :: "'c file_server \<Rightarrow> bool" where
  "ef_finished s \<longleftrightarrow> (\<forall>i < ef_clients. fs_client s i = Fc_returned) \<and> fs_acceptor s = Ac_returned \<and> (\<forall>w < ef_workers. fs_worker s w = Fw_returned)"

subsection \<open>Invariant\<close>

text \<open>Sums over the workers.\<close>

definition over :: "(file_worker \<Rightarrow> 'a :: comm_monoid_add) \<Rightarrow> 'c file_server \<Rightarrow> 'a" where
  "over f s = (\<Sum>w<ef_workers. f (fs_worker s w))"

lemma over_same: "fs_worker s' = fs_worker s \<Longrightarrow> over f s' = over f s"
  by (simp add: over_def)

lemma over_set:
  assumes "fs_worker s' = (fs_worker s)(w := x)" and "w < ef_workers"
  shows "over f s' + f (fs_worker s w) = over f s + f x"
  using sum_change [OF assms(2), of "\<lambda>v. f (fs_worker s' v)" "\<lambda>v. f (fs_worker s v)"] assms(1) by (simp add: over_def)

lemma over_keep:
  fixes f :: "file_worker \<Rightarrow> 'a :: cancel_comm_monoid_add"
  assumes "fs_worker s' = (fs_worker s)(w := x)" and "w < ef_workers" and "f x = f (fs_worker s w)"
  shows "over f s' = over f s"
  using over_set [OF assms(1,2), of f] assms(3) by simp

lemma over_member: "w < ef_workers \<Longrightarrow> f (fs_worker s w) \<subseteq># over f s"
  by (simp add: over_def sum.remove [of _ w])

lemma over_two:
  assumes "w < ef_workers" and "v < ef_workers" and "v \<noteq> w"
  shows "f (fs_worker s w) + f (fs_worker s v) \<subseteq># over f s"
  using assms by (simp add: over_def sum.remove [of _ w] sum.remove [of "{..<ef_workers} - {w}" v])

text \<open>Where a connection is: every connected client's descriptor is in exactly one place, once.\<close>

fun hand_bag :: "accept_loop \<Rightarrow> nat multiset" where
  "hand_bag (Ac_push i) = {#i#}" | "hand_bag (Ac_refused i) = {#i#}" | "hand_bag _ = {#}"

fun fd_bag :: "file_worker \<Rightarrow> nat multiset" where
  "fd_bag (Fw_id i) = {#i#}" | "fd_bag (Fw_open i _) = {#i#}" | "fd_bag (Fw_recv i _) = {#i#}" | "fd_bag (Fw_write i _ _) = {#i#}"
| "fd_bag (Fw_close_file i _) = {#i#}" | "fd_bag (Fw_close_conn i _) = {#i#}" | "fd_bag _ = {#}"

definition connected :: "'c file_server \<Rightarrow> nat set" where
  "connected s = {i. i < ef_clients \<and> fs_client s i \<noteq> Fc_connect}"

definition routes :: "('c \<Rightarrow> int fifo) \<Rightarrow> 'c file_server \<Rightarrow> bool" where
  "routes view s \<longleftrightarrow> mset (fs_backlog s) + hand_bag (fs_acceptor s) + image_mset nat (mset (f_items (view (fs_ch s))))
     + over fd_bag s + mset (fs_conns_closed s) = mset_set (connected s)"

definition ef_queue :: "('c \<Rightarrow> int fifo) \<Rightarrow> nat \<Rightarrow> 'c file_server \<Rightarrow> bool" where
  "ef_queue view lim s \<longleftrightarrow> f_limit (view (fs_ch s)) = lim \<and> 0 < lim
     \<and> (f_closed (view (fs_ch s)) \<longleftrightarrow> fs_acceptor s = Ac_returned) \<and> (\<forall>i. fs_acceptor s \<noteq> Ac_refused i)
     \<and> (fs_acceptor s = Ac_break \<or> fs_acceptor s = Ac_returned \<longrightarrow> fs_shut s)
     \<and> (\<forall>w < ef_workers. fs_worker s w = Fw_returned \<longrightarrow> f_closed (view (fs_ch s)) \<and> f_items (view (fs_ch s)) = [])"

text \<open>Numbers: those of open files and of closed files are those handed out, each once.\<close>

fun open_bag :: "file_worker \<Rightarrow> nat multiset" where
  "open_bag (Fw_open _ d) = {#d#}" | "open_bag (Fw_recv _ d) = {#d#}" | "open_bag (Fw_write _ d _) = {#d#}"
| "open_bag (Fw_close_file _ d) = {#d#}" | "open_bag _ = {#}"

fun id_bag :: "file_worker \<Rightarrow> nat multiset" where
  "id_bag (Fw_close_conn _ d) = {#d#}" | "id_bag (Fw_last d) = {#d#}" | "id_bag w = open_bag w"

fun numbered :: "file_worker \<Rightarrow> nat" where
  "numbered (Fw_open _ _) = 1" | "numbered (Fw_recv _ _) = 1" | "numbered (Fw_write _ _ _) = 1"
| "numbered (Fw_close_file _ _) = 1" | "numbered (Fw_close_conn _ _) = 1" | "numbered _ = 0"

definition ids_ok :: "'c file_server \<Rightarrow> bool" where
  "ids_ok s \<longleftrightarrow> over open_bag s + mset (fs_files_closed s) = mset_set {..<fs_next_id s} \<and> over id_bag s \<subseteq># mset_set {..<fs_next_id s}
     \<and> length (fs_conns_closed s) + over numbered s = fs_next_id s"

text \<open>The listening socket is shut down once the connection with the last number is through.\<close>

definition shut_ok :: "'c file_server \<Rightarrow> bool" where
  "shut_ok s \<longleftrightarrow> (fs_shut s \<longleftrightarrow> ef_clients - 1 < fs_next_id s \<and> ef_clients - 1 \<notin># over id_bag s)"

text \<open>The connections that drew a number are those of the numbers handed out.\<close>

fun drawn_bag :: "file_worker \<Rightarrow> nat multiset" where
  "drawn_bag (Fw_id _) = {#}" | "drawn_bag x = fd_bag x"

definition of_ok :: "'c file_server \<Rightarrow> bool" where
  "of_ok s \<longleftrightarrow> mset (fs_conns_closed s) + over drawn_bag s = image_mset (fs_of s) (mset_set {..<fs_next_id s})"

lemma routes_same:
  assumes "routes view s" and "fs_backlog s' = fs_backlog s" and "hand_bag (fs_acceptor s') = hand_bag (fs_acceptor s)" and "view (fs_ch s') = view (fs_ch s)"
    and "fs_worker s' = fs_worker s" and "fs_conns_closed s' = fs_conns_closed s" and "connected s' = connected s"
  shows "routes view s'"
  using assms over_same [OF assms(5), of fd_bag] by (simp add: routes_def)

lemma routes_worker:
  assumes "routes view s" and "w < ef_workers" and "fs_backlog s' = fs_backlog s" and "fs_acceptor s' = fs_acceptor s" and "view (fs_ch s') = view (fs_ch s)"
    and "fs_worker s' = (fs_worker s)(w := fs_worker s' w)"
    and "mset (fs_conns_closed s') + fd_bag (fs_worker s' w) = mset (fs_conns_closed s) + fd_bag (fs_worker s w)"
    and "fs_client s' = fs_client s"
  shows "routes view s'"
proof -
  have "over fd_bag s' + fd_bag (fs_worker s w) = over fd_bag s + fd_bag (fs_worker s' w)" by (rule over_set [OF assms(6,2)])
  from arg_cong2 [OF this assms(7), of "(+)"]
  have "over fd_bag s' + mset (fs_conns_closed s') = over fd_bag s + mset (fs_conns_closed s)" by (simp add: ac_simps)
  then show ?thesis using assms(1,3-5,8) by (simp add: routes_def connected_def add.assoc)
qed

lemma ids_same:
  "ids_ok s \<Longrightarrow> fs_worker s' = fs_worker s \<Longrightarrow> fs_files_closed s' = fs_files_closed s \<Longrightarrow> fs_conns_closed s' = fs_conns_closed s \<Longrightarrow>
   fs_next_id s' = fs_next_id s \<Longrightarrow> ids_ok s'"
  by (simp add: ids_ok_def over_same [of s' s])

lemma ids_keep:
  assumes "ids_ok s" and "w < ef_workers" and "fs_worker s' = (fs_worker s)(w := fs_worker s' w)" and "open_bag (fs_worker s' w) = open_bag (fs_worker s w)"
    and "id_bag (fs_worker s' w) = id_bag (fs_worker s w)" and "numbered (fs_worker s' w) = numbered (fs_worker s w)"
    and "fs_files_closed s' = fs_files_closed s" and "fs_conns_closed s' = fs_conns_closed s" and "fs_next_id s' = fs_next_id s"
  shows "ids_ok s'"
  using assms(1,7-9) over_keep [OF assms(3,2), of open_bag] over_keep [OF assms(3,2), of id_bag] over_keep [OF assms(3,2), of numbered] assms(4-6)
  by (simp add: ids_ok_def)

lemma shut_same: "shut_ok s \<Longrightarrow> fs_worker s' = fs_worker s \<Longrightarrow> fs_shut s' = fs_shut s \<Longrightarrow> fs_next_id s' = fs_next_id s \<Longrightarrow> shut_ok s'"
  by (simp add: shut_ok_def over_same [of s' s])

lemma shut_keep:
  assumes "shut_ok s" and "w < ef_workers" and "fs_worker s' = (fs_worker s)(w := fs_worker s' w)" and "id_bag (fs_worker s' w) = id_bag (fs_worker s w)"
    and "fs_shut s' = fs_shut s" and "fs_next_id s' = fs_next_id s"
  shows "shut_ok s'"
  using assms(1,5,6) over_keep [OF assms(3,2), of id_bag] assms(4) by (simp add: shut_ok_def)

lemma mset_set_below_Suc: "mset_set {..<Suc n} = add_mset n (mset_set {..<n})"
  by (simp add: lessThan_Suc)

text \<open>No number is at two workers.\<close>

lemma ids_once:
  assumes "ids_ok s" and "w < ef_workers" and "d \<in># id_bag (fs_worker s w)"
  shows "d < fs_next_id s" and "count (over id_bag s) d = 1"
proof -
  have sub: "over id_bag s \<subseteq># mset_set {..<fs_next_id s}" using assms(1) by (simp add: ids_ok_def)
  have m: "d \<in># over id_bag s" using over_member [OF assms(2), of id_bag s] assms(3) by (rule mset_subset_eqD)
  then have "d \<in># mset_set {..<fs_next_id s}" by (rule mset_subset_eqD [OF sub])
  then show "d < fs_next_id s" by simp
  then have "count (over id_bag s) d \<le> 1" using mset_subset_eq_count [OF sub, of d] by simp
  moreover have "0 < count (over id_bag s) d" using m by simp
  ultimately show "count (over id_bag s) d = 1" by linarith
qed

lemma last_shut:
  assumes "shut_ok s" and "ids_ok s" and "w < ef_workers" and "fs_worker s w = Fw_last d"
  shows "shut_ok (fw_last w d s)"
proof -
  have w: "fs_worker (fw_last w d s) = (fs_worker s)(w := Fw_pop)" by (simp add: ef_ops)
  have "over id_bag s = add_mset d (over id_bag (fw_last w d s))" using over_set [OF w assms(3), of id_bag] assms(4) by simp
  then have c: "count (over id_bag s) e = count (over id_bag (fw_last w d s)) e + (if e = d then 1 else 0)" for e by simp
  have d: "d < fs_next_id s" "count (over id_bag s) d = 1" using ids_once [OF assms(2,3), of d] assms(4) by simp_all
  have "fs_shut (fw_last w d s) \<longleftrightarrow> d = ef_clients - 1 \<or> fs_shut s" "fs_next_id (fw_last w d s) = fs_next_id s" by (simp_all add: ef_ops)
  then show ?thesis using assms(1) c [of "ef_clients - 1"] d
    by (auto simp: shut_ok_def simp flip: count_greater_zero_iff)
qed

lemma fetch_ids:
  assumes "ids_ok s" and "w < ef_workers" and "fs_worker s w = Fw_id i"
  shows "ids_ok (fw_fetch_id w i s)"
    and "over id_bag (fw_fetch_id w i s) = add_mset (fs_next_id s) (over id_bag s)"
proof -
  have w: "fs_worker (fw_fetch_id w i s) = (fs_worker s)(w := Fw_open i (fs_next_id s))" by (simp add: ef_ops)
  have o: "over open_bag (fw_fetch_id w i s) = add_mset (fs_next_id s) (over open_bag s)"
    and n: "over numbered (fw_fetch_id w i s) = over numbered s + 1"
    using over_set [OF w assms(2), of open_bag] over_set [OF w assms(2), of numbered] assms(3) by simp_all
  show d: "over id_bag (fw_fetch_id w i s) = add_mset (fs_next_id s) (over id_bag s)"
    using over_set [OF w assms(2), of id_bag] assms(3) by simp
  show "ids_ok (fw_fetch_id w i s)" using assms(1) unfolding ids_ok_def o n d by (simp add: fw_fetch_id_def set_fw_def mset_set_below_Suc)
qed

lemma fetch_shut:
  assumes "shut_ok s" and "ids_ok s" and "w < ef_workers" and "fs_worker s w = Fw_id i"
  shows "shut_ok (fw_fetch_id w i s)"
  using assms(1) fetch_ids(2) [OF assms(2-4)] by (auto simp: shut_ok_def fw_fetch_id_def set_fw_def)

lemma close_file_ids:
  assumes "ids_ok s" and "w < ef_workers" and "fs_worker s w = Fw_close_file i d"
  shows "ids_ok (fw_close_file w i d s)"
proof -
  have w: "fs_worker (fw_close_file w i d s) = (fs_worker s)(w := Fw_close_conn i d)" by (simp add: ef_ops)
  have "over id_bag (fw_close_file w i d s) = over id_bag s" "over numbered (fw_close_file w i d s) = over numbered s"
    using over_keep [OF w assms(2), of id_bag] over_keep [OF w assms(2), of numbered] assms(3) by simp_all
  moreover have "over open_bag s = add_mset d (over open_bag (fw_close_file w i d s))"
    using over_set [OF w assms(2), of open_bag] assms(3) by simp
  ultimately show ?thesis using assms(1) by (simp add: ids_ok_def fw_close_file_def set_fw_def)
qed

lemma close_conn_ids:
  assumes "ids_ok s" and "w < ef_workers" and "fs_worker s w = Fw_close_conn i d"
  shows "ids_ok (fw_close_conn w i d s)"
proof -
  have w: "fs_worker (fw_close_conn w i d s) = (fs_worker s)(w := Fw_last d)" by (simp add: ef_ops)
  have "over id_bag (fw_close_conn w i d s) = over id_bag s" "over open_bag (fw_close_conn w i d s) = over open_bag s"
    using over_keep [OF w assms(2), of id_bag] over_keep [OF w assms(2), of open_bag] assms(3) by simp_all
  moreover have "over numbered s = over numbered (fw_close_conn w i d s) + 1" using over_set [OF w assms(2), of numbered] assms(3) by simp
  ultimately show ?thesis using assms(1) by (simp add: ids_ok_def fw_close_conn_def set_fw_def)
qed

lemma last_ids:
  assumes "ids_ok s" and "w < ef_workers" and "fs_worker s w = Fw_last d"
  shows "ids_ok (fw_last w d s)"
proof -
  have w: "fs_worker (fw_last w d s) = (fs_worker s)(w := Fw_pop)" by (simp add: ef_ops)
  have "over numbered (fw_last w d s) = over numbered s" "over open_bag (fw_last w d s) = over open_bag s"
    using over_keep [OF w assms(2), of numbered] over_keep [OF w assms(2), of open_bag] assms(3) by simp_all
  moreover have "over id_bag s = add_mset d (over id_bag (fw_last w d s))" using over_set [OF w assms(2), of id_bag] assms(3) by simp
  then have "over id_bag (fw_last w d s) \<subseteq># over id_bag s" by simp
  ultimately show ?thesis using assms(1) unfolding ids_ok_def by (auto simp: fw_last_def set_fw_def intro: subset_mset.order_trans)
qed

lemma of_same: "of_ok s \<Longrightarrow> fs_worker s' = fs_worker s \<Longrightarrow> fs_conns_closed s' = fs_conns_closed s \<Longrightarrow> fs_of s' = fs_of s \<Longrightarrow> fs_next_id s' = fs_next_id s \<Longrightarrow> of_ok s'"
  by (simp add: of_ok_def over_same [of s' s])

lemma of_keep:
  assumes "of_ok s" and "w < ef_workers" and "fs_worker s' = (fs_worker s)(w := fs_worker s' w)" and "fs_of s' = fs_of s" and "fs_next_id s' = fs_next_id s"
    and "mset (fs_conns_closed s') + drawn_bag (fs_worker s' w) = mset (fs_conns_closed s) + drawn_bag (fs_worker s w)"
  shows "of_ok s'"
proof -
  have "over drawn_bag s' + drawn_bag (fs_worker s w) = over drawn_bag s + drawn_bag (fs_worker s' w)" by (rule over_set [OF assms(3,2)])
  from arg_cong2 [OF this assms(6), of "(+)"]
  have "mset (fs_conns_closed s') + over drawn_bag s' = mset (fs_conns_closed s) + over drawn_bag s" by (simp add: ac_simps)
  then show ?thesis using assms(1,4,5) by (simp add: of_ok_def)
qed

lemma fetch_of:
  assumes "of_ok s" and "w < ef_workers" and "fs_worker s w = Fw_id i"
  shows "of_ok (fw_fetch_id w i s)"
proof -
  have w: "fs_worker (fw_fetch_id w i s) = (fs_worker s)(w := Fw_open i (fs_next_id s))" by (simp add: ef_ops)
  have o: "over drawn_bag (fw_fetch_id w i s) = add_mset i (over drawn_bag s)" using over_set [OF w assms(2), of drawn_bag] assms(3) by simp
  have "image_mset ((fs_of s)(n := i)) (mset_set {..<n}) = image_mset (fs_of s) (mset_set {..<n})" for n by (rule image_mset_cong) simp
  then show ?thesis using assms(1) unfolding of_ok_def o by (simp add: fw_fetch_id_def set_fw_def mset_set_below_Suc)
qed

lemma of_step:
  assumes "ef_step bc s s'" and "of_ok s" and "\<And>i. fs_acceptor s \<noteq> Ac_refused i"
  shows "of_ok s'"
  using assms(1)
proof cases
  case (fr_fetch w i)
  then show ?thesis using fetch_of [OF assms(2)] by simp
next
  case (fr_pop w st v ch')
  then show ?thesis by (intro of_keep [OF assms(2) fr_pop(2)]) (simp_all add: ef_ops)
next
  case (fr_refused i)
  then show ?thesis using assms(3) by simp
qed ((rule of_same [OF assms(2)]; (simp add: ef_ops; fail)) | ((rule of_keep [OF assms(2)], assumption); (simp add: ef_ops; fail)))+

subsubsection \<open>What was received and written\<close>

text \<open>The contents after a sequence of writes at offset \<open>0\<close>.\<close>

definition replay :: "(string \<times> nat) list \<Rightarrow> string" where
  "replay ws = foldl (\<lambda>c (part, n). pwrite0 n part c) [] ws"

lemma replay_simps [simp]: "replay [] = []" "replay (ws @ [(part, n)]) = pwrite0 n part (replay ws)"
  by (simp_all add: replay_def)

definition written :: "'c file_server \<Rightarrow> nat \<Rightarrow> string" where
  "written s d = concat (map fst (fs_writes s d))"

definition logged :: "'c file_server \<Rightarrow> nat \<Rightarrow> bool" where
  "logged s d \<longleftrightarrow> fs_log s d = Some (replay (fs_writes s d))"

fun worker_ok :: "'c file_server \<Rightarrow> file_worker \<Rightarrow> bool" where
  "worker_ok s (Fw_id i) \<longleftrightarrow> fs_received s i = []"
| "worker_ok s (Fw_open i d) \<longleftrightarrow> fs_received s i = [] \<and> fs_of s d = i \<and> fs_writes s d = [] \<and> \<not> fs_failed s d"
| "worker_ok s (Fw_recv i d) \<longleftrightarrow> fs_of s d = i \<and> logged s d \<and> written s d = fs_received s i \<and> \<not> fs_failed s d"
| "worker_ok s (Fw_write i d part) \<longleftrightarrow> fs_of s d = i \<and> logged s d \<and> written s d @ part = fs_received s i \<and> part \<noteq> [] \<and> \<not> fs_failed s d"
| "worker_ok s (Fw_close_file i d) \<longleftrightarrow> fs_of s d = i \<and> logged s d
     \<and> (\<not> fs_failed s d \<longrightarrow> written s d = fs_received s i \<and> fs_stream s i = [] \<and> fs_client s i = Fc_returned)"
| "worker_ok s _ \<longleftrightarrow> True"

definition file_ok :: "'c file_server \<Rightarrow> nat \<Rightarrow> bool" where
  "file_ok s d \<longleftrightarrow> logged s d \<and> (\<not> fs_failed s d \<longrightarrow> fs_client s (fs_of s d) = Fc_returned \<and> written s d = fs_sent s (fs_of s d))"

definition stream_ok :: "'c file_server \<Rightarrow> nat \<Rightarrow> bool" where
  "stream_ok s i \<longleftrightarrow> fs_received s i @ fs_stream s i = fs_sent s i \<and> prefix (fs_sent s i) (log_message i)
     \<and> (fs_client s i = Fc_connect \<or> fs_client s i = Fc_send \<longrightarrow> fs_sent s i = [])"

definition waiting :: "('c \<Rightarrow> int fifo) \<Rightarrow> 'c file_server \<Rightarrow> nat multiset" where
  "waiting view s = mset (fs_backlog s) + hand_bag (fs_acceptor s) + image_mset nat (mset (f_items (view (fs_ch s))))"

definition data_ok :: "('c \<Rightarrow> int fifo) \<Rightarrow> 'c file_server \<Rightarrow> bool" where
  "data_ok view s \<longleftrightarrow> (\<forall>i. stream_ok s i) \<and> (\<forall>i \<in># waiting view s. fs_received s i = []) \<and> (\<forall>w < ef_workers. worker_ok s (fs_worker s w))
     \<and> (\<forall>d. fs_next_id s \<le> d \<longrightarrow> fs_writes s d = [] \<and> \<not> fs_failed s d) \<and> (\<forall>d \<in> set (fs_files_closed s). file_ok s d)"

text \<open>A connection a worker has is nowhere else, and the file it has open is not closed.\<close>

lemma connected_finite [simp]: "finite (connected s)"
  by (simp add: connected_def)

lemma held_elsewhere:
  assumes "routes view s" and "w < ef_workers" and "i \<in># fd_bag (fs_worker s w)"
  shows "i \<notin># waiting view s" and "v < ef_workers \<Longrightarrow> v \<noteq> w \<Longrightarrow> i \<notin># fd_bag (fs_worker s v)" and "i \<in> connected s"
proof -
  have eq: "waiting view s + over fd_bag s + mset (fs_conns_closed s) = mset_set (connected s)" using assms(1) by (simp add: routes_def waiting_def)
  have one: "count (waiting view s) i + count (over fd_bag s) i + count (mset (fs_conns_closed s)) i \<le> 1"
    using arg_cong [OF eq, of "\<lambda>M. count M i"] by (simp add: count_mset_set')
  have m: "i \<in># over fd_bag s" using over_member [OF assms(2), of fd_bag s] assms(3) by (rule mset_subset_eqD)
  then have "0 < count (over fd_bag s) i" by simp
  then have "count (waiting view s) i = 0" using one by linarith
  then show "i \<notin># waiting view s" by (simp add: not_in_iff)
  have "i \<in># mset_set (connected s)" unfolding eq [symmetric] using m by simp
  then show "i \<in> connected s" by simp
  assume v: "v < ef_workers" "v \<noteq> w"
  have "count (fd_bag (fs_worker s w)) i + count (fd_bag (fs_worker s v)) i \<le> count (over fd_bag s) i"
    using mset_subset_eq_count [OF over_two [OF assms(2) v, of fd_bag s], of i] by simp
  moreover have "0 < count (fd_bag (fs_worker s w)) i" using assms(3) by simp
  ultimately have "count (fd_bag (fs_worker s v)) i = 0" using one by linarith
  then show "i \<notin># fd_bag (fs_worker s v)" by (simp add: not_in_iff)
qed

lemma open_elsewhere:
  assumes "ids_ok s" and "w < ef_workers" and "d \<in># open_bag (fs_worker s w)"
  shows "d \<notin> set (fs_files_closed s)" and "v < ef_workers \<Longrightarrow> v \<noteq> w \<Longrightarrow> d \<notin># open_bag (fs_worker s v)" and "d < fs_next_id s"
proof -
  have eq: "over open_bag s + mset (fs_files_closed s) = mset_set {..<fs_next_id s}" using assms(1) by (simp add: ids_ok_def)
  have one: "count (over open_bag s) d + count (mset (fs_files_closed s)) d \<le> 1"
    using arg_cong [OF eq, of "\<lambda>M. count M d"] by (simp add: count_mset_set')
  have m: "d \<in># over open_bag s" using over_member [OF assms(2), of open_bag s] assms(3) by (rule mset_subset_eqD)
  then have "0 < count (over open_bag s) d" by simp
  then have "count (mset (fs_files_closed s)) d = 0" using one by linarith
  then show "d \<notin> set (fs_files_closed s)" by (simp add: count_eq_zero_iff)
  have "d \<in># mset_set {..<fs_next_id s}" unfolding eq [symmetric] using m by simp
  then show "d < fs_next_id s" by simp
  assume v: "v < ef_workers" "v \<noteq> w"
  have "count (open_bag (fs_worker s w)) d + count (open_bag (fs_worker s v)) d \<le> count (over open_bag s) d"
    using mset_subset_eq_count [OF over_two [OF assms(2) v, of open_bag s], of d] by simp
  moreover have "0 < count (open_bag (fs_worker s w)) d" using assms(3) by simp
  ultimately have "count (open_bag (fs_worker s v)) d = 0" using one by linarith
  then show "d \<notin># open_bag (fs_worker s v)" by (simp add: not_in_iff)
qed

lemma closed_below: "ids_ok s \<Longrightarrow> d \<in> set (fs_files_closed s) \<Longrightarrow> d < fs_next_id s"
proof -
  assume a: "ids_ok s" "d \<in> set (fs_files_closed s)"
  have eq: "over open_bag s + mset (fs_files_closed s) = mset_set {..<fs_next_id s}" using a(1) by (simp add: ids_ok_def)
  have "d \<in># mset_set {..<fs_next_id s}" unfolding eq [symmetric] using a(2) by simp
  then show "d < fs_next_id s" by simp
qed

text \<open>What a worker knows does not depend on other connections and other files.\<close>

lemma worker_ok_frame:
  assumes "worker_ok s x"
    and "\<And>i. i \<in># fd_bag x \<Longrightarrow> fs_received s' i = fs_received s i \<and> (fs_client s i = Fc_returned \<longrightarrow> fs_client s' i = Fc_returned \<and> fs_stream s' i = fs_stream s i)"
    and "\<And>d. d \<in># open_bag x \<Longrightarrow> fs_of s' d = fs_of s d \<and> fs_writes s' d = fs_writes s d \<and> fs_failed s' d = fs_failed s d \<and> fs_log s' d = fs_log s d"
  shows "worker_ok s' x"
  using assms by (cases x) (auto simp: logged_def written_def)

text \<open>A step of a worker concerns the connection and the file it has.\<close>

lemma data_worker:
  assumes data: "data_ok view s" and r: "routes view s" and d: "ids_ok s" and w: "w < ef_workers"
    and w': "fs_worker s' = (fs_worker s)(w := fs_worker s' w)" and x: "worker_ok s' (fs_worker s' w)"
    and client: "fs_client s' = fs_client s" "fs_sent s' = fs_sent s"
    and wait: "\<And>i. i \<in># waiting view s' \<Longrightarrow> i \<in># waiting view s" and streams: "\<And>i. stream_ok s' i"
    and conn: "\<And>i. i \<notin># fd_bag (fs_worker s w) \<Longrightarrow> fs_received s' i = fs_received s i \<and> fs_stream s' i = fs_stream s i"
    and fl: "\<And>d. d \<notin># open_bag (fs_worker s w) \<Longrightarrow> d < fs_next_id s \<Longrightarrow>
      fs_of s' d = fs_of s d \<and> fs_writes s' d = fs_writes s d \<and> fs_failed s' d = fs_failed s d \<and> fs_log s' d = fs_log s d"
    and new: "\<And>d. fs_next_id s' \<le> d \<Longrightarrow> fs_writes s' d = [] \<and> \<not> fs_failed s' d"
    and closed: "\<And>d. d \<in> set (fs_files_closed s') \<Longrightarrow> d \<in> set (fs_files_closed s) \<or> file_ok s' d"
  shows "data_ok view s'"
proof -
  have waits: "fs_received s' i = []" if "i \<in># waiting view s'" for i
  proof -
    have "i \<in># waiting view s" by (rule wait [OF that])
    moreover from this have "i \<notin># fd_bag (fs_worker s w)" using held_elsewhere(1) [OF r w] by blast
    ultimately show ?thesis using conn data by (simp add: data_ok_def)
  qed
  have workers: "worker_ok s' (fs_worker s' v)" if v: "v < ef_workers" for v
  proof (cases "v = w")
    case False
    have "worker_ok s' (fs_worker s v)"
    proof (rule worker_ok_frame)
      show "worker_ok s (fs_worker s v)" using data v by (simp add: data_ok_def)
      show "fs_received s' i = fs_received s i \<and> (fs_client s i = Fc_returned \<longrightarrow> fs_client s' i = Fc_returned \<and> fs_stream s' i = fs_stream s i)"
        if "i \<in># fd_bag (fs_worker s v)" for i
      proof -
        have "i \<notin># fd_bag (fs_worker s w)" using held_elsewhere(2) [OF r w _ v False, of i] that by blast
        then show ?thesis using conn client(1) by simp
      qed
      show "fs_of s' d = fs_of s d \<and> fs_writes s' d = fs_writes s d \<and> fs_failed s' d = fs_failed s d \<and> fs_log s' d = fs_log s d"
        if "d \<in># open_bag (fs_worker s v)" for d
      proof -
        have "d \<notin># open_bag (fs_worker s w)" using open_elsewhere(2) [OF d w _ v False, of d] that by blast
        moreover have "d < fs_next_id s" by (rule open_elsewhere(3) [OF d v that])
        ultimately show ?thesis by (rule fl)
      qed
    qed
    moreover have "fs_worker s' v = fs_worker s v" using fun_cong [OF w', of v] False by simp
    ultimately show ?thesis by simp
  qed (use x in simp)
  have files: "file_ok s' e" if "e \<in> set (fs_files_closed s')" for e
  proof (cases "e \<in> set (fs_files_closed s)")
    case True
    then have "e \<notin># open_bag (fs_worker s w)" using open_elsewhere(1) [OF d w] by blast
    from fl [OF this closed_below [OF d True]] show ?thesis using data True client
      by (simp add: data_ok_def file_ok_def logged_def written_def)
  next
    case False
    then show ?thesis using closed [OF that] by blast
  qed
  show ?thesis unfolding data_ok_def using waits workers files new streams by blast
qed

lemma data_same:
  assumes "data_ok view s" and "\<And>i. i \<in># waiting view s' \<Longrightarrow> i \<in># waiting view s" and "fs_worker s' = fs_worker s" and "fs_client s' = fs_client s"
    and "fs_sent s' = fs_sent s" and "fs_received s' = fs_received s" and "fs_stream s' = fs_stream s" and "fs_of s' = fs_of s"
    and "fs_writes s' = fs_writes s" and "fs_failed s' = fs_failed s" and "fs_log s' = fs_log s" and "fs_next_id s' = fs_next_id s"
    and "fs_files_closed s' = fs_files_closed s"
  shows "data_ok view s'"
proof -
  have "worker_ok s' x" if "worker_ok s x" for x by (rule worker_ok_frame [OF that]) (simp_all add: assms)
  moreover have "stream_ok s' i" if "stream_ok s i" for i using that by (simp add: stream_ok_def assms)
  moreover have "file_ok s' d" if "file_ok s d" for d using that by (simp add: file_ok_def logged_def written_def assms)
  ultimately show ?thesis using assms(1,2) unfolding data_ok_def assms(3,6,9,10,12,13) by blast
qed

text \<open>A client that moves on.\<close>

lemma data_client:
  assumes "data_ok view s" and "s' = s\<lparr>fs_client := (fs_client s)(i := ph), fs_stream := (fs_stream s)(i := st), fs_sent := (fs_sent s)(i := sn), fs_backlog := bl\<rparr>"
    and "fs_client s i \<noteq> Fc_returned" and "stream_ok s' i" and "\<And>j. j \<in># waiting view s' \<Longrightarrow> j \<in># waiting view s \<or> j = i \<and> fs_received s i = []"
  shows "data_ok view s'"
proof -
  have eq: "fs_worker s' = fs_worker s" "fs_received s' = fs_received s" "fs_of s' = fs_of s" "fs_writes s' = fs_writes s"
    "fs_failed s' = fs_failed s" "fs_log s' = fs_log s" "fs_next_id s' = fs_next_id s" "fs_files_closed s' = fs_files_closed s"
    and other: "\<And>j. j \<noteq> i \<Longrightarrow> fs_client s' j = fs_client s j \<and> fs_stream s' j = fs_stream s j \<and> fs_sent s' j = fs_sent s j"
    by (simp_all add: assms(2))
  have "worker_ok s' x" if "worker_ok s x" for x
    by (rule worker_ok_frame [OF that]) (use eq other assms(3) in \<open>metis+\<close>)
  moreover have "stream_ok s' j" if "stream_ok s j" for j
    using that assms(4) eq(2) other [of j] by (cases "j = i") (simp_all add: stream_ok_def)
  moreover have "file_ok s' d" if "file_ok s d" for d
    using that eq other [of "fs_of s d"] assms(3) by (cases "fs_of s d = i") (auto simp: file_ok_def logged_def written_def)
  ultimately show ?thesis using assms(1,5) unfolding data_ok_def eq by blast
qed

definition ef_inv :: "('c \<Rightarrow> int fifo) \<Rightarrow> nat \<Rightarrow> 'c file_server \<Rightarrow> bool" where
  "ef_inv view lim s \<longleftrightarrow> routes view s \<and> ef_queue view lim s \<and> ids_ok s \<and> of_ok s \<and> shut_ok s \<and> data_ok view s"

context ep_system
begin

lemma routes_step:
  assumes "ef_step bc s s'" and "routes view s" and "ef_queue view lim s"
  shows "routes view s'"
  using assms(1)
proof cases
  case (fr_connect i)
  have "connected s' = insert i (connected s)" "i \<notin> connected s" using fr_connect by (auto simp: connected_def ef_ops)
  then show ?thesis using assms(2) over_same [of s' s fd_bag] by (simp add: fr_connect(1) routes_def ef_ops)
next
  case (fr_send i n)
  then show ?thesis by (intro routes_same [OF assms(2)]) (auto simp: connected_def ef_ops)
next
  case (fr_close i)
  then show ?thesis by (intro routes_same [OF assms(2)]) (auto simp: connected_def ef_ops)
next
  case fr_accept
  then show ?thesis using assms(2) over_same [of s' s fd_bag]
    by (cases "fs_backlog s") (simp_all add: routes_def connected_def ef_ops)
next
  case fr_accept_throws
  then show ?thesis by (intro routes_same [OF assms(2)]) (simp_all add: connected_def ef_ops)
next
  case (fr_push i st ch')
  have "\<not> f_closed (view (fs_ch s))" using assms(3) fr_push(2) by (simp add: ef_queue_def)
  from push_returned [OF fr_push(3) this] fr_push(2) show ?thesis using assms(2) over_same [of s' s fd_bag]
    by (simp add: fr_push(1) routes_def connected_def ef_ops)
next
  case (fr_refused i)
  then show ?thesis using assms(3) by (simp add: ef_queue_def)
next
  case fr_end
  then show ?thesis using assms(2) over_same [of s' s fd_bag] by (simp add: routes_def connected_def ef_ops close_view)
next
  case (fr_pop w st v ch')
  from pop_returned [OF fr_pop(4)] show ?thesis
  proof (elim disjE exE conjE)
    assume "f_items (view (fs_ch s)) = []" "st = Ch_closed" "view ch' = view (fs_ch s)"
    then show ?thesis using fr_pop(1,3) by (intro routes_worker [OF assms(2) fr_pop(2)]) (simp_all add: ef_ops)
  next
    fix x xs
    assume it: "f_items (view (fs_ch s)) = x # xs" "st = Ch_success" "v = Some x" "view ch' = (view (fs_ch s))\<lparr>f_items := xs\<rparr>"
    have w: "fs_worker s' = (fs_worker s)(w := Fw_id (nat x))" using it by (simp add: fr_pop(1) ef_ops)
    from over_set [OF w fr_pop(2), of fd_bag] fr_pop(3) have "over fd_bag s' = add_mset (nat x) (over fd_bag s)" by simp
    then show ?thesis using assms(2) it by (simp add: fr_pop(1) routes_def connected_def fw_pop_def set_fw_def)
  qed
next
  case (fr_wlast w d)
  then show ?thesis by (intro routes_worker [OF assms(2) fr_wlast(2)]) (simp_all add: ef_ops)
qed (((rule routes_worker [OF assms(2)], assumption); (simp add: ef_ops; fail)))+

lemma queue_step:
  assumes "ef_step bc s s'" and "ef_queue view lim s"
  shows "ef_queue view lim s'"
  using assms(1)
proof cases
  case (fr_push i st ch')
  have "\<not> f_closed (view (fs_ch s))" using assms(2) fr_push(2) by (simp add: ef_queue_def)
  from push_returned [OF fr_push(3) this] fr_push(2) show ?thesis using assms(2) by (auto simp: fr_push(1) ef_queue_def ef_ops)
next
  case (fr_pop w st v ch')
  from pop_returned [OF fr_pop(4)] assms(2) show ?thesis by (auto simp: fr_pop(1) ef_queue_def ef_ops)
qed (use assms(2) in \<open>auto simp: ef_queue_def ef_ops close_view\<close>)

lemma ids_step:
  assumes "ef_step bc s s'" and "ids_ok s" and "ef_queue view lim s"
  shows "ids_ok s'"
  using assms(1)
proof cases
  case (fr_refused i)
  then show ?thesis using assms(3) by (simp add: ef_queue_def)
next
  case (fr_fetch w i)
  then show ?thesis using fetch_ids(1) [OF assms(2)] by simp
next
  case (fr_wclose_file w i d)
  then show ?thesis using close_file_ids [OF assms(2)] by simp
next
  case (fr_wclose_conn w i d)
  then show ?thesis using close_conn_ids [OF assms(2)] by simp
next
  case (fr_wlast w d)
  then show ?thesis using last_ids [OF assms(2)] by simp
next
  case (fr_push i st ch')
  then show ?thesis by (intro ids_same [OF assms(2)]) (simp_all add: ef_ops)
next
  case (fr_pop w st v ch')
  then show ?thesis by (intro ids_keep [OF assms(2) fr_pop(2)]) (simp_all add: ef_ops)
qed ((rule ids_same [OF assms(2)]; (simp add: ef_ops; fail)) | ((rule ids_keep [OF assms(2)], assumption); (simp add: ef_ops; fail)))+

lemma shut_step:
  assumes "ef_step bc s s'" and "shut_ok s" and "ids_ok s"
  shows "shut_ok s'"
  using assms(1)
proof cases
  case (fr_fetch w i)
  then show ?thesis using fetch_shut [OF assms(2,3)] by simp
next
  case (fr_wlast w d)
  then show ?thesis using last_shut [OF assms(2,3)] by simp
next
  case (fr_push i st ch')
  then show ?thesis by (intro shut_same [OF assms(2)]) (simp_all add: ef_ops)
next
  case (fr_pop w st v ch')
  then show ?thesis by (intro shut_keep [OF assms(2) fr_pop(2)]) (simp_all add: ef_ops)
qed ((rule shut_same [OF assms(2)]; (simp add: ef_ops; fail)) | ((rule shut_keep [OF assms(2)], assumption); (simp add: ef_ops; fail)))+

lemma data_step_client:
  assumes "data_ok view s" and "i < ef_clients"
  shows "fs_client s i = Fc_connect \<Longrightarrow> data_ok view (fc_connect i s)"
    and "fs_client s i = Fc_send \<Longrightarrow> data_ok view (fc_send i n s)"
    and "fs_client s i = Fc_close \<Longrightarrow> data_ok view (fc_close i s)"
proof -
  have st: "stream_ok s i" using assms(1) by (simp add: data_ok_def)
  have eq: "fc_connect i s = s\<lparr>fs_client := (fs_client s)(i := Fc_send), fs_stream := (fs_stream s)(i := fs_stream s i),
      fs_sent := (fs_sent s)(i := fs_sent s i), fs_backlog := fs_backlog s @ [i]\<rparr>"
    "fc_send i n s = s\<lparr>fs_client := (fs_client s)(i := Fc_close), fs_stream := (fs_stream s)(i := take n (log_message i)),
      fs_sent := (fs_sent s)(i := take n (log_message i)), fs_backlog := fs_backlog s\<rparr>"
    "fc_close i s = s\<lparr>fs_client := (fs_client s)(i := Fc_returned), fs_stream := (fs_stream s)(i := fs_stream s i),
      fs_sent := (fs_sent s)(i := fs_sent s i), fs_backlog := fs_backlog s\<rparr>"
    by (simp_all add: ef_ops)
  note ev = ef_ops stream_ok_def waiting_def take_is_prefix
  show "data_ok view (fc_connect i s)" if "fs_client s i = Fc_connect"
    by (rule data_client [OF assms(1) eq(1)]) (use st that in \<open>auto simp: ev\<close>)
  show "data_ok view (fc_send i n s)" if "fs_client s i = Fc_send"
    by (rule data_client [OF assms(1) eq(2)]) (use st that in \<open>auto simp: ev\<close>)
  show "data_ok view (fc_close i s)" if "fs_client s i = Fc_close"
    by (rule data_client [OF assms(1) eq(3)]) (use st that in \<open>auto simp: ev\<close>)
qed

lemma data_pop:
  assumes "data_ok view s" and "routes view s" and "ids_ok s" and "w < ef_workers" and "fs_worker s w = Fw_pop"
    and "channel_pop bc (fs_ch s) = Ret (st, v, ch')"
  shows "data_ok view (fw_pop w st v ch' s)"
proof (rule data_worker [OF assms(1-4)])
  have wt: "\<forall>i \<in># waiting view s. fs_received s i = []" and st: "\<And>i. stream_ok s i" using assms(1) by (simp_all add: data_ok_def)
  show "stream_ok (fw_pop w st v ch' s) i" for i using st [of i] by (simp add: stream_ok_def ef_ops)
  show "worker_ok (fw_pop w st v ch' s) (fs_worker (fw_pop w st v ch' s) w)"
    using pop_returned [OF assms(6)] wt by (auto simp: ef_ops waiting_def)
  show "i \<in># waiting view s" if "i \<in># waiting view (fw_pop w st v ch' s)" for i
    using pop_returned [OF assms(6)] that by (auto simp: ef_ops waiting_def)
qed (use assms(1,5) in \<open>auto simp: ef_ops data_ok_def\<close>)

text \<open>\<open>handle_connection\<close>.\<close>

lemma data_handle:
  assumes "data_ok view s" and "routes view s" and "ids_ok s" and "w < ef_workers"
  shows "fs_worker s w = Fw_id i \<Longrightarrow> data_ok view (fw_fetch_id w i s)"
    and "fs_worker s w = Fw_open i d \<Longrightarrow> data_ok view (fw_open w i d s)"
    and "fs_worker s w = Fw_recv i d \<Longrightarrow> 0 < n \<Longrightarrow> n \<le> length (fs_stream s i) \<Longrightarrow> data_ok view (fw_recv w i d n s)"
    and "fs_worker s w = Fw_recv i d \<Longrightarrow> fs_stream s i = [] \<Longrightarrow> fs_client s i = Fc_returned \<Longrightarrow> data_ok view (fw_end w i d s)"
    and "fs_worker s w = Fw_write i d part \<Longrightarrow> data_ok view (fw_write w i d part n s)"
    and "fs_worker s w = Fw_write i d part \<Longrightarrow> data_ok view (fw_fails w i d s)"
    and "fs_worker s w = Fw_close_file i d \<Longrightarrow> data_ok view (fw_close_file w i d s)"
    and "fs_worker s w = Fw_close_conn i d \<Longrightarrow> data_ok view (fw_close_conn w i d s)"
    and "fs_worker s w = Fw_last d \<Longrightarrow> data_ok view (fw_last w d s)"
proof -
  have ok: "worker_ok s (fs_worker s w)" and st: "\<And>j. stream_ok s j" and new: "\<And>d. fs_next_id s \<le> d \<Longrightarrow> fs_writes s d = [] \<and> \<not> fs_failed s d"
    using assms(1,4) by (simp_all add: data_ok_def)
  have below: "d < fs_next_id s" if "d \<in># open_bag (fs_worker s w)" for d using open_elsewhere(3) [OF assms(3,4) that] .
  have all: "fs_received s j = fs_sent s j" if "fs_stream s j = []" for j using st [of j] that by (simp add: stream_ok_def)
  note dw = data_worker [OF assms] and ev = ef_ops stream_ok_def waiting_def logged_def written_def file_ok_def
  show "data_ok view (fw_fetch_id w i s)" if "fs_worker s w = Fw_id i"
    by (rule dw) (use that ok st new in \<open>auto simp: ev\<close>)
  show "data_ok view (fw_open w i d s)" if "fs_worker s w = Fw_open i d"
    by (rule dw) (use that ok st new in \<open>auto simp: ev\<close>)
  show "data_ok view (fw_recv w i d n s)" if "fs_worker s w = Fw_recv i d" "0 < n" "n \<le> length (fs_stream s i)"
    by (rule dw) (use that ok st new in \<open>auto simp: ev\<close>)
  show "data_ok view (fw_end w i d s)" if "fs_worker s w = Fw_recv i d" "fs_stream s i = []" "fs_client s i = Fc_returned"
    by (rule dw) (use that ok st new in \<open>auto simp: ev\<close>)
  show "data_ok view (fw_write w i d part n s)" if "fs_worker s w = Fw_write i d part"
    by (rule dw) (use that ok st new below in \<open>auto simp: ev\<close>)
  show "data_ok view (fw_fails w i d s)" if "fs_worker s w = Fw_write i d part"
    by (rule dw) (use that ok st new below in \<open>auto simp: ev\<close>)
  show "data_ok view (fw_close_file w i d s)" if "fs_worker s w = Fw_close_file i d"
    by (rule dw) (use that ok st all new in \<open>auto simp: ev\<close>)
  show "data_ok view (fw_close_conn w i d s)" if "fs_worker s w = Fw_close_conn i d"
    by (rule dw) (use that ok st new in \<open>auto simp: ev\<close>)
  show "data_ok view (fw_last w d s)" if "fs_worker s w = Fw_last d"
    by (rule dw) (use that ok st new in \<open>auto simp: ev\<close>)
qed

lemma data_step:
  assumes "ef_step bc s s'" and "data_ok view s" and "routes view s" and "ids_ok s" and "ef_queue view lim s"
  shows "data_ok view s'"
  using assms(1)
proof cases
  case fr_accept
  then show ?thesis by (cases "fs_backlog s") (auto intro!: data_same [OF assms(2)] simp: ef_ops waiting_def)
next
  case (fr_push i st ch')
  have "\<not> f_closed (view (fs_ch s))" using assms(5) fr_push(2) by (simp add: ef_queue_def)
  from push_returned [OF fr_push(3) this] fr_push(1,2) show ?thesis
    by (intro data_same [OF assms(2)]) (auto simp: ef_ops waiting_def)
next
  case (fr_refused i)
  then show ?thesis using assms(5) by (simp add: ef_queue_def)
next
  case fr_end
  then show ?thesis by (intro data_same [OF assms(2)]) (auto simp: ef_ops waiting_def close_view)
next
  case fr_accept_throws
  then show ?thesis by (intro data_same [OF assms(2)]) (auto simp: ef_ops waiting_def)
qed (use assms(2-4) in \<open>simp_all add: data_step_client data_pop data_handle\<close>)

lemma ef_step_inv: "ef_inv view lim s \<Longrightarrow> ef_step bc s s' \<Longrightarrow> ef_inv view lim s'"
  unfolding ef_inv_def by (meson routes_step queue_step ids_step of_step shut_step data_step ef_queue_def)

end

subsection \<open>Termination\<close>

text \<open>Weights: bytes on their way count twice, a connection by its place, a client and a worker by their phases.\<close>

fun fc_weight :: "nat \<Rightarrow> file_client \<Rightarrow> nat" where
  "fc_weight i Fc_connect = 2 * length (log_message i) + 15" | "fc_weight i Fc_send = 2 * length (log_message i) + 2"
| "fc_weight i Fc_close = 1" | "fc_weight i Fc_returned = 0"

fun fa_weight :: "accept_loop \<Rightarrow> nat" where
  "fa_weight Ac_accept = 2" | "fa_weight (Ac_push _) = 13" | "fa_weight (Ac_refused _) = 3" | "fa_weight Ac_break = 1" | "fa_weight Ac_returned = 0"

fun fw_weight :: "file_worker \<Rightarrow> nat" where
  "fw_weight Fw_pop = 1" | "fw_weight (Fw_id _) = 9" | "fw_weight (Fw_open _ _) = 8" | "fw_weight (Fw_recv _ _) = 6" | "fw_weight (Fw_write _ _ _) = 7"
| "fw_weight (Fw_close_file _ _) = 5" | "fw_weight (Fw_close_conn _ _) = 4" | "fw_weight (Fw_last _) = 3" | "fw_weight Fw_returned = 0"

definition conn_weight :: "'c file_server \<Rightarrow> nat \<Rightarrow> nat" where
  "conn_weight s i = fc_weight i (fs_client s i) + 2 * length (fs_stream s i)"

definition ef_rank :: "('c \<Rightarrow> int fifo) \<Rightarrow> 'c file_server \<Rightarrow> nat" where
  "ef_rank view s = (\<Sum>i<ef_clients. conn_weight s i) + 12 * length (fs_backlog s) + fa_weight (fs_acceptor s)
     + 10 * length (f_items (view (fs_ch s))) + over fw_weight s"

lemma ef_rank_client:
  assumes "i < ef_clients" and "\<And>j. j \<noteq> i \<Longrightarrow> conn_weight s' j = conn_weight s j" and "fs_acceptor s' = fs_acceptor s" and "fs_ch s' = fs_ch s"
    and "fs_worker s' = fs_worker s" and "12 * length (fs_backlog s') + conn_weight s' i < 12 * length (fs_backlog s) + conn_weight s i"
  shows "ef_rank view s' < ef_rank view s"
  using sum_change [OF assms(1), of "conn_weight s'" "conn_weight s"] over_same [OF assms(5), of fw_weight] assms(2-4,6) by (simp add: ef_rank_def)

lemma ef_rank_worker:
  assumes "w < ef_workers" and "fs_worker s' = (fs_worker s)(w := fs_worker s' w)" and "\<And>j. j \<noteq> i \<Longrightarrow> conn_weight s' j = conn_weight s j" and "i < ef_clients"
    and "fs_acceptor s' = fs_acceptor s" and "fs_backlog s' = fs_backlog s"
    and "fw_weight (fs_worker s' w) + conn_weight s' i + 10 * length (f_items (view (fs_ch s')))
      < fw_weight (fs_worker s w) + conn_weight s i + 10 * length (f_items (view (fs_ch s)))"
  shows "ef_rank view s' < ef_rank view s"
  using sum_change [OF assms(4), of "conn_weight s'" "conn_weight s"] over_set [OF assms(2,1), of fw_weight] assms(3,5-7) by (simp add: ef_rank_def)

context ep_system
begin

lemma ef_rank_step:
  assumes "ef_inv view lim s" and "ef_step bc s s'"
  shows "ef_rank view s' < ef_rank view s"
proof -
  have r: "routes view s" and q: "ef_queue view lim s" using assms(1) by (simp_all add: ef_inv_def)
  have zero: "0 < ef_clients" by (simp add: ef_clients_def)
  note ev = ef_ops conn_weight_def
  show ?thesis using assms(2)
  proof cases
    case (fr_connect i)
    then show ?thesis by (intro ef_rank_client [of i]) (simp_all add: ev)
  next
    case (fr_send i n)
    then show ?thesis by (intro ef_rank_client [of i]) (simp_all add: ev)
  next
    case (fr_close i)
    then show ?thesis by (intro ef_rank_client [of i]) (simp_all add: ev)
  next
    case (fr_push i st ch')
    have "\<not> f_closed (view (fs_ch s))" using q fr_push(2) by (simp add: ef_queue_def)
    from push_returned [OF fr_push(3) this] fr_push(1,2) show ?thesis by (simp add: ef_rank_def ev over_def)
  next
    case (fr_pop w st v ch')
    from pop_returned [OF fr_pop(4)] fr_pop(1-3) show ?thesis by (intro ef_rank_worker [OF fr_pop(2) _ _ zero]) (auto simp: ev)
  next
    case (fr_wrecv w i d n)
    have "i \<in> connected s" using held_elsewhere(3) [OF r fr_wrecv(2), of i] fr_wrecv(3) by simp
    then have "i < ef_clients" by (simp add: connected_def)
    with fr_wrecv show ?thesis by (intro ef_rank_worker [of w _ _ i]) (simp_all add: ev)
  next
    case fr_accept
    then show ?thesis by (cases "fs_backlog s") (simp_all add: ef_rank_def ev over_def)
  next
    case fr_accept_throws
    then show ?thesis by (simp add: ef_rank_def ev over_def)
  next
    case (fr_refused i)
    then show ?thesis by (simp add: ef_rank_def ev over_def)
  next
    case fr_end
    then show ?thesis by (simp add: ef_rank_def ev over_def close_view)
  qed ((rule ef_rank_worker [OF _ _ _ zero], assumption); (simp add: ev; fail))+
qed

end

subsection \<open>Progress\<close>

lemma size_sum_below: "size (\<Sum>w<n. f w) = (\<Sum>w<n. size (f w))" for n :: nat and f :: "nat \<Rightarrow> 'a multiset"
  by (induction n) simp_all

lemma size_over: "size (over f s) = over (\<lambda>x. size (f x)) s" for f :: "file_worker \<Rightarrow> 'a multiset"
  by (simp add: over_def size_sum_below)

lemma over_zero: "(\<And>w. w < ef_workers \<Longrightarrow> f (fs_worker s w) = 0) \<Longrightarrow> over f s = 0"
  by (simp add: over_def)

lemma numbered_fd: "numbered x \<le> size (fd_bag x)"
  by (cases x) simp_all

text \<open>Numbers are drawn for connections that are past the channel.\<close>

lemma numbers_bound:
  assumes "routes view s" and "ids_ok s"
  shows "fs_next_id s + size (waiting view s) \<le> card (connected s)" and "card (connected s) \<le> ef_clients"
proof -
  have "waiting view s + over fd_bag s + mset (fs_conns_closed s) = mset_set (connected s)" using assms(1) by (simp add: routes_def waiting_def)
  from arg_cong [OF this, of size] have "size (waiting view s) + over (\<lambda>x. size (fd_bag x)) s + length (fs_conns_closed s) = card (connected s)"
    by (simp add: size_over)
  moreover have "over numbered s \<le> over (\<lambda>x. size (fd_bag x)) s" unfolding over_def by (intro sum_mono numbered_fd)
  ultimately show "fs_next_id s + size (waiting view s) \<le> card (connected s)" using assms(2) by (simp add: ids_ok_def)
  have "connected s \<subseteq> {..<ef_clients}" by (auto simp: connected_def)
  from card_mono [OF _ this] show "card (connected s) \<le> ef_clients" by simp
qed

lemma shut_all_connected:
  assumes "ef_inv view lim s" and "fs_shut s"
  shows "waiting view s = {#}" and "i < ef_clients \<Longrightarrow> fs_client s i \<noteq> Fc_connect"
proof -
  have "routes view s" "ids_ok s" using assms(1) by (simp_all add: ef_inv_def)
  note b = numbers_bound [OF this]
  have "ef_clients \<le> fs_next_id s" using assms by (simp add: ef_inv_def shut_ok_def ef_clients_def)
  then have "size (waiting view s) = 0" and c: "card (connected s) = ef_clients" using b by linarith+
  then show "waiting view s = {#}" by simp
  have "connected s \<subseteq> {..<ef_clients}" by (auto simp: connected_def)
  from card_subset_eq [OF _ this] c have "connected s = {..<ef_clients}" by simp
  then show "i < ef_clients \<Longrightarrow> fs_client s i \<noteq> Fc_connect" by (auto simp: connected_def)
qed

text \<open>Once every client and every worker is at rest with nothing left to hand over, all numbers are drawn and the socket is shut down.\<close>

lemma quiet_shut:
  assumes "ef_inv view lim s" and "waiting view s = {#}" and "\<And>i. i < ef_clients \<Longrightarrow> fs_client s i \<noteq> Fc_connect"
    and "\<And>w. w < ef_workers \<Longrightarrow> fs_worker s w = Fw_pop \<or> fs_worker s w = Fw_returned"
  shows "mset (fs_conns_closed s) = mset_set {..<ef_clients}" and "mset (fs_files_closed s) = mset_set {..<ef_clients}" and "fs_shut s"
proof -
  have "fd_bag (fs_worker s w) = 0 \<and> id_bag (fs_worker s w) = 0 \<and> open_bag (fs_worker s w) = 0 \<and> numbered (fs_worker s w) = 0" if "w < ef_workers" for w
    using assms(4) [OF that] by auto
  then have z: "over fd_bag s = 0" "over id_bag s = 0" "over open_bag s = 0" "over numbered s = 0" by (auto intro: over_zero)
  have "connected s = {..<ef_clients}" using assms(3) by (auto simp: connected_def)
  then show c: "mset (fs_conns_closed s) = mset_set {..<ef_clients}" using assms(1,2) z(1) by (simp add: ef_inv_def routes_def waiting_def)
  from arg_cong [OF c, of size] have n: "fs_next_id s = ef_clients" using assms(1) z(4) by (simp add: ef_inv_def ids_ok_def)
  then show "mset (fs_files_closed s) = mset_set {..<ef_clients}" using assms(1) z(3) by (simp add: ef_inv_def ids_ok_def)
  show "fs_shut s" using assms(1) z(2) n by (simp add: ef_inv_def shut_ok_def ef_clients_def)
qed

lemma ef_client_step:
  assumes "ef_inv view lim s" and "i < ef_clients" and "fs_client s i \<noteq> Fc_returned"
  shows "\<exists>s'. ef_step bc s s'"
proof (cases "fs_client s i")
  case Fc_connect
  have "\<not> fs_shut s" using shut_all_connected(2) [OF assms(1) _ assms(2)] Fc_connect by blast
  from fr_connect [OF assms(2) Fc_connect this] show ?thesis by blast
next
  case Fc_send
  have "1 \<le> length (log_message i)" by (simp add: log_message_def)
  from fr_send [OF assms(2) Fc_send _ this] show ?thesis by auto
next
  case Fc_close
  from fr_close [OF assms(2) this] show ?thesis by blast
qed (use assms(3) in simp)

lemma ef_worker_step:
  assumes "ef_inv view lim s" and "\<And>i. i < ef_clients \<Longrightarrow> fs_client s i = Fc_returned" and "w < ef_workers"
    and "fs_worker s w \<noteq> Fw_pop" and "fs_worker s w \<noteq> Fw_returned"
  shows "\<exists>s'. ef_step bc s s'"
proof (cases "fs_worker s w")
  case (Fw_recv i d)
  have "routes view s" using assms(1) by (simp add: ef_inv_def)
  from held_elsewhere(3) [OF this assms(3), of i] Fw_recv have "i < ef_clients" by (simp add: connected_def)
  then have c: "fs_client s i = Fc_returned" by (rule assms(2))
  show ?thesis
  proof (cases "fs_stream s i")
    case Nil
    from fr_wend [OF assms(3) Fw_recv Nil c] show ?thesis by blast
  next
    case (Cons x xs)
    have "0 < (1 :: nat)" "1 \<le> length (fs_stream s i)" "1 \<le> ef_buf_size" using Cons by (simp_all add: ef_buf_size_def)
    from fr_wrecv [OF assms(3) Fw_recv this] show ?thesis by blast
  qed
qed ((use assms(4,5) in \<open>simp; fail\<close>)
  | (rule exI, rule fr_fetch fr_open fr_wfail fr_wclose_file fr_wclose_conn fr_wlast, rule assms(3), assumption))+

context ep_system
begin

lemma ef_queue_step:
  assumes "f_items (view (fs_ch s)) = x # xs" and "w < ef_workers" and "fs_worker s w = Fw_pop"
  shows "\<exists>s'. ef_step bc s s'"
  using pop_succeeds [OF assms(1)] fr_pop [OF assms(2,3)] by metis

lemma ef_push_step:
  assumes "ef_inv view lim s" and "fs_acceptor s = Ac_push i" and "f_items (view (fs_ch s)) = []"
  shows "\<exists>s'. ef_step bc s s'"
proof -
  have "\<not> f_closed (view (fs_ch s))" "length (f_items (view (fs_ch s))) < f_limit (view (fs_ch s))"
    using assms by (simp_all add: ef_inv_def ef_queue_def)
  then obtain ch' where "channel_push bc (fs_ch s) (int i) = Ret (Ch_success, ch')" by (rule push_succeeds)
  from fr_push [OF assms(2) this] show ?thesis by blast
qed

lemma ef_accept_step:
  assumes "ef_inv view lim s" and "fs_acceptor s = Ac_accept" and "\<And>i. i < ef_clients \<Longrightarrow> fs_client s i = Fc_returned"
    and "\<And>w. w < ef_workers \<Longrightarrow> fs_worker s w = Fw_pop \<or> fs_worker s w = Fw_returned" and "f_items (view (fs_ch s)) = []"
  shows "\<exists>s'. ef_step bc s s'"
proof (cases "fs_shut s")
  case True
  from fr_accept_throws [OF assms(2) this] show ?thesis by blast
next
  case False
  have "fs_backlog s \<noteq> []"
  proof
    assume "fs_backlog s = []"
    then have "waiting view s = {#}" using assms(2,5) by (simp add: waiting_def)
    from quiet_shut(3) [OF assms(1) this _ assms(4)] assms(3) False show False by simp
  qed
  from fr_accept [OF assms(2) this False] show ?thesis by blast
qed

lemma ef_progress:
  assumes "ef_inv view lim s" and "\<not> ef_finished s"
  shows "\<exists>s'. ef_step bc s s'"
proof (cases "(\<forall>i < ef_clients. fs_client s i = Fc_returned) \<and> (\<forall>w < ef_workers. fs_worker s w = Fw_pop \<or> fs_worker s w = Fw_returned)")
  case False
  then show ?thesis using ef_client_step [OF assms(1)] ef_worker_step [OF assms(1)] by metis
next
  case True
  then have cl: "\<And>i. i < ef_clients \<Longrightarrow> fs_client s i = Fc_returned" and wk: "\<And>w. w < ef_workers \<Longrightarrow> fs_worker s w = Fw_pop \<or> fs_worker s w = Fw_returned" by blast+
  have q: "ef_queue view lim s" using assms(1) by (simp add: ef_inv_def)
  show ?thesis
  proof (cases "f_items (view (fs_ch s))")
    case (Cons x xs)
    have "0 < ef_workers" by (simp add: ef_workers_def)
    moreover have "fs_worker s 0 \<noteq> Fw_returned" using q Cons calculation by (auto simp: ef_queue_def)
    ultimately show ?thesis using ef_queue_step [OF Cons] wk by blast
  next
    case Nil
    show ?thesis
    proof (cases "fs_acceptor s")
      case Ac_accept
      from ef_accept_step [OF assms(1) this cl wk Nil] show ?thesis by blast
    next
      case (Ac_push i)
      then show ?thesis by (rule ef_push_step [OF assms(1) _ Nil])
    next
      case (Ac_refused i)
      then show ?thesis using q by (simp add: ef_queue_def)
    next
      case Ac_break
      from fr_end [OF this] show ?thesis by blast
    next
      case Ac_returned
      then obtain w where w: "w < ef_workers" "fs_worker s w = Fw_pop" using assms(2) cl wk by (auto simp: ef_finished_def)
      have "f_closed (view (fs_ch s))" using q Ac_returned by (simp add: ef_queue_def)
      then obtain ch' where "channel_pop bc (fs_ch s) = Ret (Ch_closed, None, ch')" by (rule pop_after_close [OF Nil])
      from fr_pop [OF w this] show ?thesis by blast
    qed
  qed
qed

lemma ef_finished_step: "ef_finished s \<Longrightarrow> \<not> ef_step bc s s'"
  by (auto simp: ef_finished_def elim!: ef_step.cases)

end

sublocale ep_system \<subseteq> ef: ranked_system "ef_step bc" "ef_inv view lim" "ef_rank view" ef_finished for lim
  by unfold_locales (auto intro: ef_step_inv ef_rank_step ef_progress simp: ef_finished_step)

lemma length_log: "i < ef_clients \<Longrightarrow> length (log_message i) = 20"
  using greeting_length [of i] by (simp add: log_message_def ef_clients_def k_clients_def)

lemma ef_start_inv: "view ch = \<lparr>f_items = [], f_limit = lim, f_closed = False\<rparr> \<Longrightarrow> 0 < lim \<Longrightarrow> ef_inv view lim (ef_start ch)"
  by (simp add: ef_inv_def routes_def ef_queue_def ids_ok_def of_ok_def shut_ok_def data_ok_def stream_ok_def waiting_def over_def connected_def ef_start_def)

lemma ef_start_rank: "view ch = \<lparr>f_items = [], f_limit = lim, f_closed = False\<rparr> \<Longrightarrow> ef_rank view (ef_start ch) = 336"
  by (simp add: ef_rank_def conn_weight_def over_def ef_start_def length_log ef_clients_def ef_workers_def)

lemma ef_inv_finished:
  assumes "ef_inv view lim s" and "ef_finished s"
  shows "set (fs_conns_closed s) = {..<ef_clients} \<and> set (fs_files_closed s) = {..<ef_clients} \<and> bij_betw (fs_of s) {..<ef_clients} {..<ef_clients}
    \<and> f_items (view (fs_ch s)) = [] \<and> f_closed (view (fs_ch s))"
proof -
  have q: "ef_queue view lim s" and ids: "ids_ok s" and o: "of_ok s" using assms(1) by (simp_all add: ef_inv_def)
  have wk: "\<And>w. w < ef_workers \<Longrightarrow> fs_worker s w = Fw_returned" and cl: "\<And>i. i < ef_clients \<Longrightarrow> fs_client s i = Fc_returned"
    and acc: "fs_acceptor s = Ac_returned" using assms(2) by (simp_all add: ef_finished_def)
  have "0 < ef_workers" by (simp add: ef_workers_def)
  then have ch: "f_items (view (fs_ch s)) = []" "f_closed (view (fs_ch s))" using q wk [of 0] unfolding ef_queue_def by blast+
  have "fs_shut s" using q acc by (simp add: ef_queue_def)
  note wait = shut_all_connected(1) [OF assms(1) this]
  note quiet = quiet_shut [OF assms(1) wait]
  have c: "mset (fs_conns_closed s) = mset_set {..<ef_clients}" and f: "mset (fs_files_closed s) = mset_set {..<ef_clients}" using quiet(1,2) cl wk by simp_all
  have z: "over drawn_bag s = 0" "over numbered s = 0" using wk by (auto intro: over_zero)
  have "fs_next_id s = ef_clients" using ids z(2) arg_cong [OF c, of size] by (simp add: ids_ok_def)
  then have "image_mset (fs_of s) (mset_set {..<ef_clients}) = mset_set {..<ef_clients}" using o z(1) c by (simp add: of_ok_def)
  from arg_cong [OF this, of set_mset] have im: "fs_of s ` {..<ef_clients} = {..<ef_clients}" by simp
  then have "bij_betw (fs_of s) {..<ef_clients} {..<ef_clients}" unfolding bij_betw_def by (simp add: eq_card_imp_inj_on)
  then show ?thesis using arg_cong [OF c, of set_mset] arg_cong [OF f, of set_mset] ch by simp
qed

lemma distinct_below:
  assumes "mset xs \<subseteq># mset_set A"
  shows "distinct xs"
proof -
  have "count (mset xs) x = (if x \<in> set xs then 1 else 0)" for x
  proof -
    have "count (mset_set A) x \<le> 1" by (simp add: count_mset_set')
    with mset_subset_eq_count [OF assms, of x] have "count (mset xs) x \<le> 1" by (rule order_trans)
    then have "x \<in> set xs \<Longrightarrow> count (mset xs) x = 1" using count_greater_zero_iff [of "mset xs" x] by (simp add: le_antisym Suc_leI)
    then show ?thesis by (simp add: not_in_iff)
  qed
  then show ?thesis by (simp add: distinct_count_atmost_1)
qed

lemma ef_inv_files:
  assumes "ef_inv view lim s"
  shows "distinct (fs_conns_closed s)" and "distinct (fs_files_closed s)"
    and "d \<in> set (fs_files_closed s) \<Longrightarrow> fs_log s d = Some (replay (fs_writes s d)) \<and> (\<not> fs_failed s d \<longrightarrow> written s d = fs_sent s (fs_of s d))"
proof -
  have r: "routes view s" and i: "ids_ok s" and da: "data_ok view s" using assms by (simp_all add: ef_inv_def)
  have "mset (fs_conns_closed s) \<subseteq># mset_set (connected s)" using r unfolding routes_def by (metis mset_subset_eq_add_right)
  then show "distinct (fs_conns_closed s)" by (rule distinct_below)
  have "mset (fs_files_closed s) \<subseteq># mset_set {..<fs_next_id s}" using i unfolding ids_ok_def by (metis mset_subset_eq_add_right)
  then show "distinct (fs_files_closed s)" by (rule distinct_below)
  show "d \<in> set (fs_files_closed s) \<Longrightarrow> fs_log s d = Some (replay (fs_writes s d)) \<and> (\<not> fs_failed s d \<longrightarrow> written s d = fs_sent s (fs_of s d))"
    using da by (auto simp: data_ok_def file_ok_def logged_def)
qed

context ep_system
begin

lemma ef_run:
  assumes "view ch = \<lparr>f_items = [], f_limit = lim, f_closed = False\<rparr>" and "0 < lim" and "(ef_step bc ^^ k) (ef_start ch) s"
  shows "ef_inv view lim s" and "k \<le> 336" and "(\<nexists>s'. ef_step bc s s') \<longleftrightarrow> ef_finished s"
proof -
  note st = ef_start_inv [of view ch lim, OF assms(1,2)]
  show inv: "ef_inv view lim s" by (rule ef.steps_keep [OF assms(3) st])
  show "k \<le> 336" using ef.run_bound [OF assms(3) st] by (simp add: ef_start_rank [of view ch lim, OF assms(1)])
  show "(\<nexists>s'. ef_step bc s s') \<longleftrightarrow> ef_finished s" by (rule ef.maximal_final [OF inv])
qed

end

lemma ef_new_channel:
  assumes "boost_buffered_channel bc items ring_size" and "channel_new bc ef_capacity = Ret ch"
  shows "channel_view bc items ring_size ch = \<lparr>f_items = [], f_limit = 15, f_closed = False\<rparr>"
proof -
  have "bit_ceil (Suc ef_capacity) = 16" using bit_ceil_Suc_power [of 3] by (simp add: ef_capacity_def)
  moreover have "1 \<le> ef_capacity" "ef_capacity < 2 ^ 63" by (simp_all add: ef_capacity_def)
  ultimately show ?thesis using boost_buffered_channel.new_channel [OF assms(1), of ef_capacity] assms(2) by fastforce
qed

subsection \<open>The server finishes, and what its logs hold\<close>

text \<open>
  C13. The file-logging server. Over any Boost channel with the documented behaviour, every
  interleaving of the accept loop, the workers and the clients takes at most 336 steps and is
  never stuck before all of them have returned. No connection and no log file is closed twice.
  A closed log holds what its writes left, each of them at offset 0; unless one of them failed,
  the buffers written are, one after the other, all that the client's socket took, so a log
  written by a single complete write is exactly that. At the end all six connections and six
  log files are closed, each file belongs to another client, and the channel is closed and drained.
\<close>
theorem echo_to_file_finishes:
  assumes "boost_buffered_channel bc items ring_size" and "channel_new bc ef_capacity = Ret ch"
    and "(ef_step bc ^^ k) (ef_start ch) s"
  shows "k \<le> 336 \<and> ((\<nexists>s'. ef_step bc s s') \<longleftrightarrow> ef_finished s) \<and> distinct (fs_conns_closed s) \<and> distinct (fs_files_closed s)
    \<and> (\<forall>d \<in> set (fs_files_closed s). fs_log s d = Some (replay (fs_writes s d))
         \<and> (\<not> fs_failed s d \<longrightarrow> concat (map fst (fs_writes s d)) = fs_sent s (fs_of s d))
         \<and> (\<not> fs_failed s d \<and> map (\<lambda>(part, n). n) (fs_writes s d) = [length (fs_sent s (fs_of s d))] \<longrightarrow> fs_log s d = Some (fs_sent s (fs_of s d))))
    \<and> (ef_finished s \<longrightarrow> set (fs_conns_closed s) = {..<ef_clients} \<and> set (fs_files_closed s) = {..<ef_clients}
         \<and> bij_betw (fs_of s) {..<ef_clients} {..<ef_clients} \<and> items (fs_ch s) = [] \<and> channel_is_closed bc (fs_ch s))"
proof -
  let ?v = "channel_view bc items ring_size"
  note run = ep_system.ef_run [OF ep_system_of_boost [OF assms(1)] ef_new_channel [OF assms(1,2)] zero_less_numeral assms(3)]
  note files = ef_inv_files [OF run(1)]
  have one: "fs_log s d = Some (fs_sent s (fs_of s d))"
    if d: "d \<in> set (fs_files_closed s)" "\<not> fs_failed s d" "map (\<lambda>(part, n). n) (fs_writes s d) = [length (fs_sent s (fs_of s d))]" for d
  proof -
    from d(3) obtain part where w: "fs_writes s d = [(part, length (fs_sent s (fs_of s d)))]" by auto
    then have "part = fs_sent s (fs_of s d)" using files(3) [OF d(1)] d(2) by (simp add: written_def)
    then show ?thesis using files(3) [OF d(1)] w by (simp add: replay_def pwrite0_def)
  qed
  have fin: "items (fs_ch s) = [] \<and> channel_is_closed bc (fs_ch s)" if "ef_finished s"
    using ef_inv_finished [OF run(1) that] by (simp add: channel_view_def channel_is_closed_def)
  show ?thesis
  proof (intro conjI ballI impI)
    show "k \<le> 336" "(\<nexists>s'. ef_step bc s s') \<longleftrightarrow> ef_finished s" by (rule run(2,3))+
  qed (use files one fin ef_inv_finished [OF run(1)] in \<open>simp_all add: written_def\<close>)
qed

text \<open>A run that hands client 0's message to a worker in two parts, each received and each written in full.\<close>

lemma log_message_0: "log_message 0 = ''hello '' @ ''from client 0'' @ [CHR 0x0A]"
  by (simp add: log_message_def greeting_0)

context ep_system
begin

lemma two_part_run:
  assumes "view ch = \<lparr>f_items = [], f_limit = lim, f_closed = False\<rparr>" and "0 < lim"
  shows "\<exists>s. (ef_step bc)\<^sup>*\<^sup>* (ef_start ch) s \<and> fs_sent s 0 = log_message 0 \<and> \<not> fs_failed s 0 \<and> fs_of s 0 = 0 \<and> 0 \<in> set (fs_files_closed s)
    \<and> fs_writes s 0 = [(''hello '', 6), (''from client 0'' @ [CHR 0x0A], 14)] \<and> fs_log s 0 = Some (''from client 0'' @ [CHR 0x0A])"
proof -
  let ?R = "ef_step bc"
  let ?s3 = "fc_close 0 (fc_send 0 20 (fc_connect 0 (ef_start ch)))"
  let ?s4 = "fa_accept ?s3"
  note ds = ef_ops ef_start_def ef_clients_def ef_workers_def ef_buf_size_def log_message_0 pwrite0_def
  have a: "?R (ef_start ch) (fc_connect 0 (ef_start ch))" by (rule fr_connect) (simp_all add: ds)
  have b: "?R (fc_connect 0 (ef_start ch)) (fc_send 0 20 (fc_connect 0 (ef_start ch)))" by (rule fr_send) (simp_all add: ds)
  have c: "?R (fc_send 0 20 (fc_connect 0 (ef_start ch))) ?s3" by (rule fr_close) (simp_all add: ds)
  have d: "?R ?s3 ?s4" by (rule fr_accept) (simp_all add: ds)
  have "\<not> f_closed (view ch)" "length (f_items (view ch)) < f_limit (view ch)" using assms by simp_all
  then obtain ch1 where c1: "channel_push bc ch 0 = Ret (Ch_success, ch1)" "view ch1 = (view ch)\<lparr>f_items := f_items (view ch) @ [0]\<rparr>" by (rule push_succeeds)
  let ?s5 = "fa_push 0 Ch_success ch1 ?s4"
  have e: "?R ?s4 ?s5" by (rule fr_push) (simp_all add: ds c1(1))
  have "f_items (view ch1) = 0 # []" using c1(2) assms(1) by simp
  then obtain ch2 where c2: "channel_pop bc ch1 = Ret (Ch_success, Some 0, ch2)" by (rule pop_succeeds)
  let ?s6 = "fw_pop 0 Ch_success (Some 0) ch2 ?s5"
  have f: "?R ?s5 ?s6" by (rule fr_pop) (simp_all add: ds c2)
  let ?s8 = "fw_open 0 0 0 (fw_fetch_id 0 0 ?s6)"
  have g: "?R ?s6 (fw_fetch_id 0 0 ?s6)" by (rule fr_fetch) (simp_all add: ds)
  have h: "?R (fw_fetch_id 0 0 ?s6) ?s8" by (rule fr_open) (simp_all add: ds)
  let ?p = "''from client 0'' @ [CHR 0x0A]"
  let ?s10 = "fw_write 0 0 0 ''hello '' 6 (fw_recv 0 0 0 6 ?s8)"
  have i: "?R ?s8 (fw_recv 0 0 0 6 ?s8)" by (rule fr_wrecv) (simp_all add: ds)
  have j: "?R (fw_recv 0 0 0 6 ?s8) ?s10" by (rule fr_wwrite) (simp_all add: ds)
  let ?s12 = "fw_write 0 0 0 ?p 14 (fw_recv 0 0 0 14 ?s10)"
  have k: "?R ?s10 (fw_recv 0 0 0 14 ?s10)" by (rule fr_wrecv) (simp_all add: ds)
  have l: "?R (fw_recv 0 0 0 14 ?s10) ?s12" by (rule fr_wwrite) (simp_all add: ds)
  let ?s14 = "fw_close_file 0 0 0 (fw_end 0 0 0 ?s12)"
  have m: "?R ?s12 (fw_end 0 0 0 ?s12)" by (rule fr_wend) (simp_all add: ds)
  have n: "?R (fw_end 0 0 0 ?s12) ?s14" by (rule fr_wclose_file) (simp_all add: ds)
  note st = converse_rtranclp_into_rtranclp [where r = ?R]
  have "?R\<^sup>*\<^sup>* (ef_start ch) ?s14"
    by (intro st [OF a] st [OF b] st [OF c] st [OF d] st [OF e] st [OF f] st [OF g] st [OF h] st [OF i] st [OF j] st [OF k] st [OF l] st [OF m] r_into_rtranclp n)
  then show ?thesis by (intro exI [of _ ?s14]) (simp add: ds)
qed

end

text \<open>
  C17. What the logs of the file-logging server may lose. \<open>async_write\<close> always writes at offset 0, so
  when a message arrives in two parts the second write lands on top of the first: over any Boost
  channel there is a run in which client 0 sends its whole message, both parts are received and
  written in full without an error, and the closed log holds the second part alone.
\<close>
theorem echo_to_file_overwrites:
  assumes "boost_buffered_channel bc items ring_size" and "channel_new bc ef_capacity = Ret ch"
  shows "\<exists>s. (ef_step bc)\<^sup>*\<^sup>* (ef_start ch) s \<and> fs_sent s 0 = log_message 0 \<and> \<not> fs_failed s 0 \<and> fs_of s 0 = 0 \<and> 0 \<in> set (fs_files_closed s)
    \<and> fs_writes s 0 = [(''hello '', 6), (''from client 0'' @ [CHR 0x0A], 14)] \<and> fs_log s 0 = Some (''from client 0'' @ [CHR 0x0A])"
  by (rule ep_system.two_part_run [OF ep_system_of_boost [OF assms(1)] ef_new_channel [OF assms] zero_less_numeral])

lemma new_log_queue: "channel_new ref_boost ef_capacity = Ret empty_queue"
  by (simp add: ef_capacity_def new_empty_queue)

theorem echo_to_file_overwrites_witness:
  "\<exists>s. (ef_step ref_boost)\<^sup>*\<^sup>* (ef_start empty_queue) s \<and> fs_sent s 0 = log_message 0 \<and> fs_log s 0 \<noteq> Some (log_message 0)"
  using echo_to_file_overwrites [OF ref_bc.boost_buffered_channel_axioms new_log_queue] by (auto simp: log_message_0)

theorem echo_to_file_finishes_witness:
  "\<exists>k s. (ef_step ref_boost ^^ k) (ef_start empty_queue) s \<and> k \<le> 336 \<and> set (fs_files_closed s) = {..<6}"
proof -
  have "ef_inv (channel_view ref_boost rc_items rc_size) 15 (ef_start empty_queue)" by (rule ef_start_inv) (simp_all add: empty_queue_view)
  from ref_ep.ef.final_reachable [OF this] obtain s where s: "(ef_step ref_boost)\<^sup>*\<^sup>* (ef_start empty_queue) s" "ef_finished s" by blast
  from rtranclp_imp_relpowp [OF s(1)] obtain k where k: "(ef_step ref_boost ^^ k) (ef_start empty_queue) s" by blast
  from echo_to_file_finishes [OF ref_bc.boost_buffered_channel_axioms new_log_queue k] s(2)
  have "k \<le> 336 \<and> set (fs_files_closed s) = {..<6}" unfolding ef_clients_def by blast
  with k show ?thesis by blast
qed

end
