(* ===== verification/Spec2Isabelle.thy ===== *)
theory Spec2Isabelle
  imports Task Worker Handlers Sync_Wait Teardown Gather Backpressure Echo_Multishot Echo_File
begin

text \<open>
  \<^bold>\<open>fiberexec\<close>: a fiber execution context on Boost.Fiber and io\_uring with a sender interface.

  \<^bold>\<open>The program.\<close> A \<open>context\<close> owns a \<open>fiber_pool\<close>: a queue of tasks, an eventfd that wakes
  workers, and one thread per worker. Every worker runs an \<open>io_uring_scheduler\<close> with its own
  ring: it launches a fiber per task, and blocks in the ring when no fiber is ready. An
  asynchronous operation puts a request with the address of a completion handler into the
  ring and suspends its fiber; draining a completion calls the handler, which makes the
  fiber ready. Stop requests of the pool or of a sender turn into cancel requests. On top
  are channels, registered buffers and descriptors, multishot receive and accept, the
  senders \<open>schedule\<close> and \<open>run\<close>, \<open>bulk\<close> and a \<open>sync_wait\<close> for fibers.

  \<^bold>\<open>Theories and sources.\<close>
  \<^item> \<open>Prelude\<close>: outcomes of C++ code (value, exception, suspension, undefined behaviour), sizes
    with wrap-around, spans, \<open>bit_ceil\<close>, errno and flag constants, shared list lemmas.
    \<open>Ownership\<close>: move-only handles over a pool of identifiers, locale \<open>raii_pool\<close>.
    \<open>Runs\<close>: step systems, locales \<open>step_system\<close> and \<open>ranked_system\<close> (runs of bounded length that
    are never stuck), \<open>simulation\<close> and \<open>ranked_simulation\<close> (a system that contains another one).
  \<^item> \<open>Channel\<close> (\<open>include/fiberexec/channel.hpp\<close>): the wrapper over the Boost channel, a parameter with
    its contract as the locale \<open>boost_buffered_channel\<close>; the interface \<open>bounded_channel\<close> that the
    free lists and the examples use; refinement of a bounded queue.
  \<^item> \<open>Task\<close> (\<open>task.hpp\<close>): type-erased callables with small-buffer storage over a store of objects;
    every closure is built and destroyed once.
  \<^item> \<open>Uring\<close> (\<open>fd_ref.hpp\<close>, the tags and \<open>submit_cancel\<close> of \<open>src/fiber_context.cpp\<close>): entries, rings,
    promises and stop tokens. liburing is a parameter.
  \<^item> \<open>Fixed_Buffer_Pool\<close>, \<open>Fixed_Fd_Table\<close> (\<open>src/fixed_buffer_pool.cpp\<close>, \<open>src/fixed_fd_table.cpp\<close> and their
    headers): construction on every branch, exclusive ownership for every sequence of
    operations, the zero-copy send handler.
  \<^item> \<open>Scheduler\<close>, \<open>Submit\<close> (\<open>src/fiber_context.cpp\<close>): the scheduling algorithm with
    \<open>drain_cqes\<close> and \<open>suspend_until\<close>; single, timed and linked submissions with their stop callbacks,
    and what a submission that throws leaves behind.
  \<^item> \<open>Async_IO\<close> (\<open>src/async_io.cpp\<close>, \<open>detail/async_helpers.hpp\<close>, \<open>async_send_zc\<close>): what every operation
    submits with its caller's arguments, whom a stop request cancels, what it does with its result, and
    what failed submissions leave in the queue.
  \<^item> \<open>Multishot_Recv\<close>, \<open>Multishot_Acceptor\<close> (\<open>src/multishot_recv.cpp\<close>, \<open>src/multishot_acceptor.cpp\<close>):
    delivery order, buffer ownership, wake-ups, re-arming and the destructors, which hand unconsumed
    buffers back before they wait for the end of the request.
  \<^item> \<open>Handlers\<close> (\<open>detail/cqe_handler.hpp\<close> and all its subclasses): the handlers as one type;
    draining is total, and a waiting fiber gets its results whatever the order of completions.
  \<^item> \<open>Fiber_Pool\<close>, \<open>Worker\<close> (\<open>src/fiber_context.cpp\<close>, \<open>include/fiberexec/context.hpp\<close>): the pool with its workers
    as a step system, where the work branch of \<open>drain_cqes\<close> is six steps, one for each access to the state the
    workers share (a lemma shows that taken together they are \<open>drain_cqe\<close>); construction of a
    context, set-up and release of a worker thread.
    \<open>Teardown\<close>: the destructor of the pool, which stops it and joins the workers.
  \<^item> \<open>Senders\<close>, \<open>Sync_Wait\<close>, \<open>Bulk\<close> (\<open>context.hpp\<close>, \<open>run.hpp\<close>, \<open>sync_wait.hpp\<close>, \<open>detail/fiber_bulk.hpp\<close>):
    completion of \<open>run\<close>, and every interleaving of \<open>sync_wait\<close> and of \<open>bulk\<close>; how the domain builds a
    bulk operation, and how stop requests reach its fibers. The error argument of \<open>sync_wait\<close>'s
    receiver is one of the three kinds its code tells apart.
  \<^item> \<open>Backpressure\<close>, \<open>Echo_Pool\<close> (\<open>examples/channel_backpressure.cpp\<close>, \<open>examples/echo_server_pool.cpp\<close>) and this
    theory (\<open>examples/cancellation.cpp\<close>): whole programs over the components. \<open>Echo_Multishot\<close>
    (\<open>examples/echo_server_multishot.cpp\<close>) puts \<open>Multishot_Acceptor\<close> in front of \<open>Echo_Pool\<close> and projects to
    both; \<open>Echo_File\<close> (\<open>examples/echo_to_file.cpp\<close>) adds the log files; \<open>Gather\<close> (\<open>examples/parallel_gather.cpp\<close>)
    runs \<open>Bulk\<close> beside producer threads.

  \<^bold>\<open>Correspondence.\<close> Definitions have the names of the functions they translate, or a prefix of
  their class. Members are fields of records, objects whose address matters live in stores
  by address. A call that suspends a fiber is split: the part up to the suspension, what a
  completion does, and the part after it. Code that runs on several threads is an
  inductive step relation whose steps are the accesses to shared state, in any order.

  \<^bold>\<open>What is shown.\<close> Safety: no use of a dead handler or of a null entry on the paths the code
  guards, exclusive ownership of buffers, slots and closures, conservation of tasks and
  connections, workers leave only when no fiber is live. Tasks leave the queue in the order of
  posting; they are launched by several workers, so the order of launches is not claimed, and a
  worker that loaded \<open>running_\<close> before a stop can still launch one task after it. Liveness and termination: every
  interleaving of \<open>sync_wait\<close>, \<open>bulk\<close> and the example programs is bounded and never stuck;
  wake-ups are not lost, with one exception that is proved: a pool of two workers can miss
  its last notification, and its destructor then never returns. Function: what
  is submitted, delivered and completed, with errors. Defects found on the way are stated
  as theorems of their own.

  \<^bold>\<open>Bounds.\<close> Sizes are naturals with the reduction modulo \<open>2 ^ 64\<close> written out; entries, flags and
  indices are words of their width. Loops end by structure; no fuel is used. Hypotheses
  bound requested sizes where a cast of the code would lose bits, and the theorems on those
  casts say what happens beyond. The example programs are bounded by the numbers of clients,
  workers and bytes in their sources: 38 steps for \<open>Backpressure\<close>, 406 for \<open>Echo_Pool\<close>, 1628 for
  \<open>Echo_Multishot\<close> (each step of the pool weighs four, for the completions behind it), 336 for
  \<open>Echo_File\<close> and 130 for \<open>Gather\<close>. The ring of the scheduler has 256 entries; lemmas hold for
  any number \<open>n\<close> with the room they name.

  \<^bold>\<open>Outside code.\<close> Boost channels, liburing, the kernel's answers and stdexec's adaptors are
  parameters with their documented behaviour as locales or named hypotheses; each is
  instantiated by a reference implementation in the witnesses.

  \<^bold>\<open>Not modelled.\<close> Timers and clock readings; allocation failure; the memory orders of atomics
  (accesses are sequentially consistent steps); predecessors of a bulk operation other than
  \<open>schedule\<close>, except for what they complete with, and the environment queries beyond the completion
  scheduler and the stop token, which are resolved at compile time; the creation of threads;
  in the examples, an accept fails only once the socket is shut down (other errors of the
  kernel, such as exhausted descriptors, are left out of \<open>Echo_Pool\<close> and \<open>Echo_File\<close>; \<open>Echo_Multishot\<close>
  covers any error that ends its request), and failures of \<open>openat\<close> and of receives are left out of \<open>Echo_File\<close>;
  in the source an \<open>openat\<close> that throws ends the worker with an error. The examples \<open>hello_fiber\<close>, \<open>async_pipeline\<close>,
  \<open>echo_server\<close>, \<open>stream_recv_multishot\<close> and \<open>sync_wait_fanout\<close> are small compositions of operations that
  are modelled above, and are not modelled as programs of their own. Benchmarks, tests and build files are not part of the library.
\<close>

section \<open>A read with a deadline\<close>

text \<open>
  \<open>examples/cancellation.cpp\<close>: a fiber under \<open>run\<close> reads with a timeout, and \<open>upon_stopped\<close> replaces a
  cancellation by a fallback. The adaptor of stdexec is the parameter \<open>us\<close>, with its documented
  behaviour.
\<close>

definition reader_buf_size :: nat where "reader_buf_size = 64"

text \<open>The callable after its read: the bytes \<open>bytes\<close> were in the buffer, \<open>res\<close> is the result.\<close>

definition reader_body :: "string \<Rightarrow> int \<Rightarrow> string outcome" where
  "reader_body bytes res = map_outcome_state (\<lambda>n. take (nat n) bytes) (result_or_throw ''async_read'' res)"

definition fallback :: string where "fallback = ''(timed out)''"

definition reader :: "(string \<Rightarrow> string completion \<Rightarrow> string completion) \<Rightarrow> string \<Rightarrow> int \<Rightarrow> string completion list" where
  "reader us bytes res = map (us fallback) (fst (run_task (reader_body bytes res)))"

definition upon_stopped_ok :: "('v \<Rightarrow> 'v completion \<Rightarrow> 'v completion) \<Rightarrow> bool" where
  "upon_stopped_ok us \<longleftrightarrow> (\<forall>d. us d Set_stopped = Set_value d \<and> (\<forall>v. us d (Set_value v) = Set_value v) \<and> (\<forall>ex. us d (Set_error ex) = Set_error ex))"

text \<open>
  C5. A read with a deadline, from submission to message. On a worker with room for two
  entries the read is submitted linked to its timeout. Whatever else the worker does, and in
  whatever order completions arrive, the fiber is woken with the result of the read. If that is
  a number of bytes the message is those bytes; if the timeout or a stop request cancelled
  the read the message is the fallback. Either way the sender completes exactly once, with a
  value.
\<close>
theorem timed_read_message:
  assumes "oe_lu e = sq_of_size n" and "oe_mk e = H_await" and "\<not> stop_requested (oe_fiber_st e)" and "aw = hd (oe_aws e)" and "\<not> is_tag aw"
    and "sq (s_ring s) = []" and "1 < n" and "upon_stopped_ok us"
    and "\<forall>rd \<in> set rs. round_ok n [aw] rd" and "completions_for aw (concat (map snd rs)) = [(res, fl)]" and "0 \<le> res \<or> res = - ECANCELED"
  shows "\<exists>s1 ps. async_read e (fd_ref_of_int fd) \<lparr>sp_data = addr, sp_size = reader_buf_size\<rparr> (Some to) (Some s) = Ret (Some s1, None)
    \<and> inflight (s_ring s1) = inflight (s_ring s) @ op_chain aw (Some to) (op_entry False (Rq_read fd addr 64 0))
    \<and> wait_rounds (sq_of_size n) bo f (oe_fiber e) rs (p, s1) [aw] = Ret (ps, [res], [])
    \<and> reader us bytes res = [Set_value (if res = - ECANCELED then ''(timed out)'' else take (nat res) bytes)]"
proof -
  let ?q = "op_chain aw (Some to) (op_entry False (Rq_read fd addr 64 0))"
  let ?s1 = "begin_wait e [aw] (submitted ?q s)"
  have room: "submits (oe_lu e)" "has_room e s" using assms(1,6,7) by (simp_all add: has_room_def)
  have s1: "async_read e (fd_ref_of_int fd) \<lparr>sp_data = addr, sp_size = reader_buf_size\<rparr> (Some to) (Some s) = Ret (Some ?s1, None)"
    using start_op_ok [OF room assms(3)] assms(6) by (simp add: async_read_def assms(4) reader_buf_size_def prep_entry fd_ref_of_int_def)
  have "await_inv (oe_fiber e) (\<lambda>_. res) [aw] (concat (map snd rs)) [aw] ?s1"
    using assms(5,10) by (intro begin_wait_inv [OF assms(2)]) auto
  from wait_rounds_total [OF this _ assms(9), of bo f p] obtain ps
    where "wait_rounds (sq_of_size n) bo f (oe_fiber e) rs (p, ?s1) [aw] = Ret (ps, [res], [])" by auto
  moreover have "reader us bytes res = [Set_value (if res = - ECANCELED then ''(timed out)'' else take (nat res) bytes)]"
    using assms(8,11) by (auto simp: reader_def reader_body_def result_or_throw_def run_task_def fallback_def upon_stopped_ok_def)
  moreover have "inflight (s_ring ?s1) = inflight (s_ring s) @ ?q"
    by (simp add: begin_wait_def Let_def register_pool_cb_def register_fiber_cb_def submitted_def run_cancel_def request_cancel_def notify_def)
  ultimately show ?thesis using s1 by blast
qed

theorem timed_read_message_witness:
  "\<exists>s1 ps. async_read await_env (fd_ref_of_int 9) \<lparr>sp_data = 64, sp_size = reader_buf_size\<rparr> (Some 30000000) (Some (waiting_sched [])) = Ret (Some s1, None)
    \<and> wait_rounds (sq_of_size 8) ref_bufs example_fds 3
        [arrive [\<lparr>cqe_user_data = k_cancel_tag, cqe_res = - 62, cqe_flags = 0\<rparr>], arrive [\<lparr>cqe_user_data = 4096, cqe_res = - ECANCELED, cqe_flags = 0\<rparr>]]
        (example_pool, s1) [4096] = Ret (ps, [- ECANCELED], [])
    \<and> reader (\<lambda>d c. case c of Set_stopped \<Rightarrow> Set_value d | _ \<Rightarrow> c) [] (- ECANCELED) = [Set_value ''(timed out)'']"
proof -
  let ?us = "\<lambda>d c. case c of Set_stopped \<Rightarrow> Set_value d | _ \<Rightarrow> c"
  let ?rs = "[arrive [\<lparr>cqe_user_data = k_cancel_tag, cqe_res = - 62, cqe_flags = 0\<rparr>],
     arrive [\<lparr>cqe_user_data = 4096, cqe_res = - ECANCELED, cqe_flags = 0\<rparr>]] :: (ref_ring, nat) round list"
  have h: "oe_lu await_env = sq_of_size 8" "oe_mk await_env = H_await" "\<not> stop_requested (oe_fiber_st await_env)" "4096 = hd (oe_aws await_env)"
    "\<not> is_tag 4096" "sq (s_ring (waiting_sched [])) = []" "1 < (8 :: nat)" "upon_stopped_ok ?us"
    by (simp_all add: await_env_def no_token_def is_tag_def tag_defs waiting_sched_def empty_uring_def upon_stopped_ok_def)
  have r: "\<forall>rd \<in> set ?rs. round_ok 8 [4096] rd" by (simp add: arrive_ok is_tag_def)
  have c: "completions_for 4096 (concat (map snd ?rs)) = [(- ECANCELED, 0)]" "0 \<le> - ECANCELED \<or> - ECANCELED = - ECANCELED" "oe_fiber await_env = 3"
    by (simp_all add: await_env_def arrive_def completions_for_def tag_defs)
  from timed_read_message [OF h r c(1,2), of 9 64 30000000 ref_bufs example_fds example_pool "[]"] show ?thesis unfolding c(3) by auto
qed

end
